(* ===== verification/Prelude.thy ===== *)
theory Prelude
  imports Main "HOL-Library.Word" "HOL-Library.Monad_Syntax" "HOL-Library.List_Lexorder"
    "HOL-Library.Product_Lexorder"
begin

unbundle bit_operations_syntax

text \<open>
  What every component theory shares: the machine integers of the engine
  (\<open>u16\<close>, \<open>u32\<close>, \<open>u64\<close> as words, \<open>usize\<close> as \<open>nat\<close>), the parts of Rust's
  standard library the engine calls (\<open>sort_unstable\<close> followed by \<open>dedup\<close>,
  \<open>binary_search\<close>, \<open>partition_point\<close>, \<open>min_by_key\<close>, slices that panic out of
  range, checked and saturating arithmetic), and the lemma collections the
  component proofs run on.
\<close>

section \<open>Types and lemma collections\<close>

type_synonym u8 = "8 word"
type_synonym u16 = "16 word"
type_synonym u32 = "32 word"
type_synonym u64 = "64 word"

type_synonym feature_id = u32
type_synonym tag_id = u32

named_theorems canon_simps \<open>sorting, deduplication and binary search on canonical lists\<close>
named_theorems mask_simps \<open>bits of the 64-bit common masks\<close>
named_theorems blob_simps \<open>slices of the append-only blobs\<close>

section \<open>Arithmetic of the standard library\<close>

definition saturating_add :: "'a::len word \<Rightarrow> 'a word \<Rightarrow> 'a word" where
  "saturating_add a b = (if unat a + unat b < 2 ^ LENGTH('a) then a + b else - 1)"

definition saturating_sub :: "'a::len word \<Rightarrow> 'a word \<Rightarrow> 'a word" where
  "saturating_sub a b = (if a < b then 0 else a - b)"

text \<open>\<open>u32::try_from(len).unwrap_or(u32::MAX)\<close> and \<open>usize::checked_add\<close> (64-bit).\<close>

definition u32_of_len :: "nat \<Rightarrow> u32" where
  "u32_of_len n = (if n < 2 ^ 32 then of_nat n else - 1)"

definition usize_checked_add :: "nat \<Rightarrow> nat \<Rightarrow> nat option" where
  "usize_checked_add a b = (if a + b < 2 ^ 64 then Some (a + b) else None)"

lemma unat_minus_one_max: "unat (- 1 :: 'a::len word) = 2 ^ LENGTH('a) - 1"
  by (simp add: unsigned_minus_1_eq_mask mask_eq_exp_minus_1)

lemma unat_saturating_add:
  "unat (saturating_add a b :: 'a::len word) = min (unat a + unat b) (2 ^ LENGTH('a) - 1)"
proof (cases "unat a + unat b < 2 ^ LENGTH('a)")
  case True
  then have "unat (a + b) = unat a + unat b"
    by (simp add: unat_word_ariths)
  with True show ?thesis by (simp add: saturating_add_def)
next
  case False
  then show ?thesis by (simp add: saturating_add_def unat_minus_one_max)
qed

lemma unat_saturating_sub: "unat (saturating_sub a b) = unat a - unat b"
  by (auto simp: saturating_sub_def word_less_nat_alt unat_sub word_le_nat_alt)

lemma saturating_add_le: "a \<le> saturating_add a b" for a :: "'a::len word"
proof -
  have "unat a < 2 ^ LENGTH('a)" by (rule unsigned_less)
  then have "unat a \<le> 2 ^ LENGTH('a) - 1" by linarith
  then show ?thesis by (simp add: word_le_nat_alt unat_saturating_add)
qed

lemma saturating_add_zero [simp]: "saturating_add a 0 = a" for a :: "'a::len word"
  by (simp add: saturating_add_def)

lemma unat_u32_of_len: "unat (u32_of_len n) = min n (2 ^ 32 - 1)"
  by (auto simp: u32_of_len_def unat_of_nat unat_minus_one_max)

section \<open>Canonical lists: \<open>sort_unstable\<close> and \<open>dedup\<close>\<close>

text \<open>
  On a total order \<open>sort_unstable\<close> has one result. \<open>dedup\<close> drops an element equal
  to its predecessor. Together they give the strictly increasing list of a set.
\<close>

definition sort_dedup :: "'a::linorder list \<Rightarrow> 'a list" where
  "sort_dedup xs = remdups_adj (sort xs)"

abbreviation strict_sorted :: "'a::linorder list \<Rightarrow> bool" where
  "strict_sorted \<equiv> sorted_wrt (<)"

lemma strict_sorted_sorted [canon_simps]: "strict_sorted xs \<Longrightarrow> sorted xs"
  by (simp add: strict_sorted_iff)

lemma strict_sorted_remdups_adj:
  "sorted xs \<Longrightarrow> strict_sorted (remdups_adj xs)" for xs :: "'a::linorder list"
  by (induction xs rule: remdups_adj.induct) (auto simp: order.strict_iff_order)

lemma set_sort_dedup [simp, canon_simps]: "set (sort_dedup xs) = set xs"
  by (simp add: sort_dedup_def)

lemma strict_sorted_sort_dedup [simp, canon_simps]: "strict_sorted (sort_dedup xs)"
  by (simp add: sort_dedup_def strict_sorted_remdups_adj)

lemma sorted_sort_dedup [simp, canon_simps]: "sorted (sort_dedup xs)"
  by (simp add: strict_sorted_sorted)

lemma sort_dedup_Nil_iff [simp, canon_simps]: "sort_dedup xs = [] \<longleftrightarrow> xs = []"
proof -
  have "sort_dedup xs = [] \<longleftrightarrow> set (sort_dedup xs) = {}" by (simp only: set_empty)
  then show ?thesis by simp
qed

lemma sort_dedup_Nil [simp]: "sort_dedup [] = []"
  by simp

lemma strict_sorted_eqI:
  "strict_sorted xs \<Longrightarrow> strict_sorted ys \<Longrightarrow> set xs = set ys \<Longrightarrow> xs = ys"
  by (simp add: strict_sorted_equal)

lemma sort_dedup_id [canon_simps]: "strict_sorted xs \<Longrightarrow> sort_dedup xs = xs"
  by (rule strict_sorted_eqI) simp_all

lemma sort_dedup_idem [simp]: "sort_dedup (sort_dedup xs) = sort_dedup xs"
  by (simp add: sort_dedup_id)

lemma sort_dedup_eq_iff: "sort_dedup xs = sort_dedup ys \<longleftrightarrow> set xs = set ys"
proof
  assume "sort_dedup xs = sort_dedup ys"
  then have "set (sort_dedup xs) = set (sort_dedup ys)" by simp
  then show "set xs = set ys" by simp
qed (auto intro: strict_sorted_eqI)

lemma length_sort_dedup_le: "length (sort_dedup xs) \<le> length xs"
  by (metis remdups_adj_length length_sort sort_dedup_def)

section \<open>\<open>binary_search\<close>, \<open>partition_point\<close> and \<open>min_by_key\<close>\<close>

text \<open>
  \<open>slice::binary_search\<close>: \<open>Inr i\<close> is \<open>Ok(i)\<close>, \<open>Inl i\<close> is \<open>Err(i)\<close> with \<open>i\<close> the
  insertion point.
\<close>

function bsearch :: "'a::linorder list \<Rightarrow> 'a \<Rightarrow> nat \<Rightarrow> nat \<Rightarrow> nat + nat" where
  "bsearch xs x lo hi =
     (if lo < hi
      then let mid = (lo + hi) div 2 in
           if xs ! mid = x then Inr mid
           else if xs ! mid < x then bsearch xs x (Suc mid) hi
           else bsearch xs x lo mid
      else Inl lo)"
  by pat_completeness auto
termination
  by (relation "measure (\<lambda>(xs, x, lo, hi). hi - lo)") auto

declare bsearch.simps [simp del]

definition binary_search :: "'a::linorder list \<Rightarrow> 'a \<Rightarrow> nat + nat" where
  "binary_search xs x = bsearch xs x 0 (length xs)"

definition search_ok :: "'a::linorder list \<Rightarrow> 'a \<Rightarrow> bool" where
  "search_ok xs x = (case binary_search xs x of Inr _ \<Rightarrow> True | Inl _ \<Rightarrow> False)"

definition search_result :: "'a::linorder list \<Rightarrow> 'a \<Rightarrow> nat + nat \<Rightarrow> bool" where
  "search_result xs x r = (case r of
      Inr i \<Rightarrow> i < length xs \<and> xs ! i = x
    | Inl i \<Rightarrow> i \<le> length xs \<and> (\<forall>j < i. xs ! j < x)
        \<and> (\<forall>j. i \<le> j \<and> j < length xs \<longrightarrow> x < xs ! j))"

lemma bsearch_correct:
  assumes "sorted xs" and "hi \<le> length xs" and "lo \<le> hi"
    and "\<And>i. i < lo \<Longrightarrow> xs ! i < x"
    and "\<And>i. hi \<le> i \<Longrightarrow> i < length xs \<Longrightarrow> x < xs ! i"
  shows "search_result xs x (bsearch xs x lo hi)"
  using assms
proof (induction xs x lo hi rule: bsearch.induct)
  case (1 xs x lo hi)
  let ?mid = "(lo + hi) div 2"
  show ?case
  proof (cases "lo < hi")
    case True
    then have mid: "?mid < hi" "lo \<le> ?mid" by auto
    with "1.prems"(2) have mlen: "?mid < length xs" by simp
    consider "xs ! ?mid = x" | "xs ! ?mid < x" | "x < xs ! ?mid" by force
    then show ?thesis
    proof cases
      case 1
      with True mlen show ?thesis by (simp add: bsearch.simps [of xs x lo hi] search_result_def)
    next
      case 2
      then have ne: "xs ! ?mid \<noteq> x" by simp
      have low: "xs ! i < x" if "i < Suc ?mid" for i
        using that 2 mlen sorted_nth_mono [OF "1.prems"(1), of i ?mid] by fastforce
      have "search_result xs x (bsearch xs x (Suc ?mid) hi)"
        by (rule "1.IH"(1) [OF True refl ne 2]) (use "1.prems" low mid in auto)
      with True 2 show ?thesis by (auto simp: bsearch.simps [of xs x lo hi] Let_def)
    next
      case 3
      then have ne: "xs ! ?mid \<noteq> x" "\<not> xs ! ?mid < x" by auto
      have high: "x < xs ! i" if "?mid \<le> i" "i < length xs" for i
        using that 3 sorted_nth_mono [OF "1.prems"(1), of ?mid i] by fastforce
      have "search_result xs x (bsearch xs x lo ?mid)"
        by (rule "1.IH"(2) [OF True refl ne]) (use "1.prems" high mid mlen in auto)
      with True ne show ?thesis by (auto simp: bsearch.simps [of xs x lo hi] Let_def)
    qed
  next
    case False
    with "1.prems" show ?thesis by (auto simp: bsearch.simps [of xs x hi hi] search_result_def)
  qed
qed

lemma binary_search_correct: "sorted xs \<Longrightarrow> search_result xs x (binary_search xs x)"
  unfolding binary_search_def by (rule bsearch_correct) auto

lemma search_ok_iff [canon_simps]:
  assumes "sorted xs" shows "search_ok xs x \<longleftrightarrow> x \<in> set xs"
  using binary_search_correct [OF assms, of x]
  by (auto simp: search_ok_def search_result_def in_set_conv_nth split: sum.splits)
     (metis linorder_not_le order_less_irrefl)

definition partition_point :: "('a \<Rightarrow> bool) \<Rightarrow> 'a list \<Rightarrow> nat" where
  "partition_point p xs = length (takeWhile p xs)"

definition min_by_key :: "('a \<Rightarrow> 'k::linorder) \<Rightarrow> 'a list \<Rightarrow> 'a option" where
  "min_by_key f xs = (if xs = [] then None else Some (arg_min_list f xs))"

lemma min_by_key_in [dest]: "min_by_key f xs = Some x \<Longrightarrow> x \<in> set xs"
  by (auto simp: min_by_key_def arg_min_list_in split: if_splits)

lemma min_by_key_None [simp]: "min_by_key f xs = None \<longleftrightarrow> xs = []"
  by (simp add: min_by_key_def)

lemma min_by_key_least:
  assumes "min_by_key f xs = Some x" "y \<in> set xs" shows "f x \<le> f y"
  using assms f_arg_min_list_f [of xs f]
  by (auto simp: min_by_key_def split: if_splits)

section \<open>Slices and vectors\<close>

text \<open>
  \<open>&xs[off..off + len]\<close> and \<open>xs[i]\<close> panic out of range: \<open>None\<close> is the panic.
\<close>

definition slice :: "'a list \<Rightarrow> nat \<Rightarrow> nat \<Rightarrow> 'a list option" where
  "slice xs off len = (if off + len \<le> length xs then Some (take len (drop off xs)) else None)"

definition at_index :: "'a list \<Rightarrow> nat \<Rightarrow> 'a option" where
  "at_index xs i = (if i < length xs then Some (xs ! i) else None)"

lemma slice_append_left [blob_simps]:
  "slice xs off len = Some ys \<Longrightarrow> slice (xs @ zs) off len = Some ys"
  by (auto simp: slice_def split: if_splits)

lemma slice_append_exact [blob_simps]:
  "slice (xs @ ys) (length xs) (length ys) = Some ys"
  by (simp add: slice_def)

lemma slice_zero [simp]: "off \<le> length xs \<Longrightarrow> slice xs off 0 = Some []"
  by (simp add: slice_def)

lemma at_index_append_left [blob_simps]:
  "at_index xs i = Some x \<Longrightarrow> at_index (xs @ zs) i = Some x"
  by (auto simp: at_index_def nth_append split: if_splits)

lemma at_index_snoc [blob_simps]: "at_index (xs @ [x]) (length xs) = Some x"
  by (simp add: at_index_def)

lemma at_index_Some_iff: "at_index xs i = Some x \<longleftrightarrow> i < length xs \<and> xs ! i = x"
  by (auto simp: at_index_def)

section \<open>Masks\<close>

definition mask_of_bit :: "nat \<Rightarrow> u64" where
  "mask_of_bit b = push_bit b 1"

lemma bit_mask_of_bit [mask_simps]: "bit (mask_of_bit b) n \<longleftrightarrow> n = b \<and> b < 64"
  by (auto simp: mask_of_bit_def bit_simps)

lemma bit_u64_bound: "bit a n \<Longrightarrow> n < 64" for a :: u64
  by (drule bit_imp_le_length) simp

lemma mask_subset_iff [mask_simps]:
  "(a AND b = a) \<longleftrightarrow> (\<forall>n. bit a n \<longrightarrow> bit b n)" for a b :: u64
  using bit_u64_bound [of a] by (auto simp: bit_eq_iff bit_simps)

lemma mask_disjoint_iff [mask_simps]:
  "(a AND b = 0) \<longleftrightarrow> (\<forall>n. \<not> (bit a n \<and> bit b n))" for a b :: u64
  using bit_u64_bound [of a] by (auto simp: bit_eq_iff bit_simps)

section \<open>Loops that write a vector by index\<close>

definition write_all :: "(nat \<times> 'a) list \<Rightarrow> 'a list \<Rightarrow> 'a list" where
  "write_all us xs = fold (\<lambda>(i, v) ys. ys[i := v]) us xs"

lemma length_write_all [simp]: "length (write_all us xs) = length xs"
  by (induction us arbitrary: xs) (auto simp: write_all_def)

lemma write_all_Cons: "write_all ((i, v) # us) xs = write_all us (xs[i := v])"
  by (simp add: write_all_def)

lemma not_in_fstI: "(\<And>v. (i, v) \<notin> set us) \<Longrightarrow> i \<notin> fst ` set us"
  by force

lemma write_all_untouched:
  "i \<notin> fst ` set us \<Longrightarrow> write_all us xs ! i = xs ! i"
proof (induction us arbitrary: xs)
  case Nil
  then show ?case by (simp add: write_all_def)
next
  case (Cons u us)
  then show ?case by (cases u) (simp add: write_all_Cons)
qed

lemma write_all_written:
  assumes "distinct (map fst us)" "(i, v) \<in> set us" "i < length xs"
  shows "write_all us xs ! i = v"
  using assms
proof (induction us arbitrary: xs)
  case (Cons u us)
  obtain j w where u: "u = (j, w)" by (cases u)
  show ?case
  proof (cases "(i, v) \<in> set us")
    case True
    then show ?thesis using Cons u by (simp add: write_all_Cons)
  next
    case False
    then have "u = (i, v)" using Cons.prems(2) by auto
    moreover from this have "i \<notin> fst ` set us" using Cons.prems(1) by auto
    ultimately show ?thesis using Cons.prems(3) by (simp add: write_all_Cons write_all_untouched)
  qed
qed simp

end
