(* ===== verification/Hashing.thy ===== *)
theory Hashing
  imports Prelude
begin

text \<open>
  The stable hashes of \<open>engine/src/util.rs\<close>: FNV-1a over bytes, the signature key
  of a feature group with its final avalanche and zero reservation, and the
  universal signature. All arithmetic is on 64-bit words, where \<open>*\<close> wraps as
  \<open>wrapping_mul\<close> does.
\<close>

section \<open>Definitions\<close>

definition fnv_step :: "u64 \<Rightarrow> u64 \<Rightarrow> u64" where
  "fnv_step h v = (h XOR v) * 0x100000001b3"

definition fnv1a64 :: "u8 list \<Rightarrow> u64" where
  "fnv1a64 bytes = fold (\<lambda>b h. fnv_step h (ucast b)) bytes 0xcbf29ce484222325"

definition avalanche :: "u64 \<Rightarrow> u64" where
  "avalanche h0 =
     (let h1 = h0 XOR drop_bit 33 h0;
          h2 = h1 * 0xff51afd7ed558ccd
      in h2 XOR drop_bit 33 h2)"

definition finalize_sig :: "u64 \<Rightarrow> u64" where
  "finalize_sig h = (if avalanche h = 0 then 1 else avalanche h)"

definition sig_key :: "feature_id list \<Rightarrow> u64" where
  "sig_key fs =
     finalize_sig
       (fold (\<lambda>f h. fnv_step (fnv_step h (ucast f)) (drop_bit 13 (ucast f)))
          fs 0xcbf29ce484222325)"

definition universal_sig :: u64 where
  "universal_sig = sig_key []"

section \<open>The avalanche is a bijection\<close>

text \<open>
  Both xor-shifts and the multiplication by an odd constant are invertible, so the
  avalanche only sends 0 to 0 and the zero reservation merges exactly one pair of
  accumulator values: the keys of existing segments are otherwise unchanged.
\<close>

definition inv_mult :: u64 where
  "inv_mult = 0x4f74430c22a54005"

lemma xorshift_inverse: "(h XOR drop_bit 33 h) XOR drop_bit 33 (h XOR drop_bit 33 h) = h" for h :: u64
proof (rule bit_eqI)
  fix n
  assume "possible_bit TYPE(u64) n"
  then have "n < 64" by simp
  moreover have "\<not> bit h (33 + (33 + n))"
    using bit_u64_bound [of h "33 + (33 + n)"] by auto
  ultimately show "bit ((h XOR drop_bit 33 h) XOR drop_bit 33 (h XOR drop_bit 33 h)) n = bit h n"
    by (auto simp: bit_simps ac_simps)
qed

lemma mult_inverse: "h * 0xff51afd7ed558ccd * inv_mult = h" for h :: u64
proof -
  have "(0xff51afd7ed558ccd :: u64) * inv_mult = 1" by (simp add: inv_mult_def)
  then show ?thesis by (simp add: mult.assoc)
qed

lemma inj_avalanche: "inj avalanche"
proof (rule injI)
  fix a b :: u64
  let ?x = "\<lambda>h :: u64. h XOR drop_bit 33 h"
  have undo: "?x (?x h) = h" for h by (rule xorshift_inverse)
  assume "avalanche a = avalanche b"
  then have "?x (?x a * 0xff51afd7ed558ccd) = ?x (?x b * 0xff51afd7ed558ccd)"
    by (simp add: avalanche_def Let_def)
  then have "?x a * 0xff51afd7ed558ccd = ?x b * 0xff51afd7ed558ccd"
    by (metis undo)
  then have "?x a = ?x b" by (metis mult_inverse)
  then show "a = b" by (metis undo)
qed

lemma avalanche_zero [simp]: "avalanche 0 = 0"
  by (simp add: avalanche_def)

lemma avalanche_eq_zero_iff [simp]: "avalanche h = 0 \<longleftrightarrow> h = 0"
  using inj_avalanche by (metis avalanche_zero injD)

section \<open>The reserved key\<close>

lemma finalize_sig_nonzero [simp]: "finalize_sig h \<noteq> 0"
  by (simp add: finalize_sig_def)

lemma finalize_sig_eq: "finalize_sig h = (if h = 0 then 1 else avalanche h)"
  by (simp add: finalize_sig_def)

lemma sig_key_nonzero [simp]: "sig_key fs \<noteq> 0"
  by (simp add: sig_key_def)

text \<open>A signature key is never 0, the empty-slot sentinel of the frozen tables, and
  reserving 0 leaves the keys of existing segments alone: the final mix is injective on
  the nonzero accumulators and changes the avalanche of the zero accumulator only.\<close>

theorem sig_key_reserves_zero:
  "sig_key fs \<noteq> 0 \<and> inj_on finalize_sig (- {0}) \<and> {h. finalize_sig h \<noteq> avalanche h} = {0}"
proof -
  have "inj_on finalize_sig (- {0})"
    using inj_avalanche by (auto simp: inj_on_def finalize_sig_eq)
  then show ?thesis by (auto simp: finalize_sig_eq)
qed

end
