(* ===== verification/Dsl.thy ===== *)
theory Dsl
  imports Prelude
begin

text \<open>
  The query language parser of \<open>engine/src/dsl.rs\<close> and its error type of
  \<open>engine/src/error.rs\<close>. A Rust \<open>char\<close> is a Unicode scalar value, modelled as its
  code point; a \<open>&str\<close> is the list of its chars, and its byte length is the UTF-8
  length. Error positions are char indices, as in the source.
\<close>

section \<open>Characters and strings\<close>

type_synonym rchar = nat
type_synonym rstring = "rchar list"

definition rstr :: "string \<Rightarrow> rstring" where
  "rstr s = map of_char s"

abbreviation ch_dash :: rchar where "ch_dash \<equiv> 45"
abbreviation ch_open :: rchar where "ch_open \<equiv> 40"
abbreviation ch_close :: rchar where "ch_close \<equiv> 41"
abbreviation ch_quote :: rchar where "ch_quote \<equiv> 34"
abbreviation ch_comma :: rchar where "ch_comma \<equiv> 44"
abbreviation ch_space :: rchar where "ch_space \<equiv> 32"

text \<open>\<open>char::is_whitespace\<close>: the Unicode property \<open>White_Space\<close>.\<close>

definition is_whitespace :: "rchar \<Rightarrow> bool" where
  "is_whitespace c \<longleftrightarrow>
     9 \<le> c \<and> c \<le> 13 \<or> c = 32 \<or> c = 133 \<or> c = 160 \<or> c = 5760 \<or>
     8192 \<le> c \<and> c \<le> 8202 \<or> c = 8232 \<or> c = 8233 \<or> c = 8239 \<or> c = 8287 \<or> c = 12288"

definition len_utf8 :: "rchar \<Rightarrow> nat" where
  "len_utf8 c = (if c < 128 then 1 else if c < 2048 then 2 else if c < 65536 then 3 else 4)"

definition str_len :: "rstring \<Rightarrow> nat" where
  "str_len s = sum_list (map len_utf8 s)"

definition trim :: "rstring \<Rightarrow> rstring" where
  "trim s = rev (dropWhile is_whitespace (rev (dropWhile is_whitespace s)))"

section \<open>Limits, syntax trees and errors\<close>

record parse_limits =
  max_query_length :: nat
  max_clauses :: nat
  max_any_of_size :: nat

definition default_limits :: parse_limits where
  "default_limits = \<lparr>max_query_length = 10240, max_clauses = 256, max_any_of_size = 64\<rparr>"

definition recovery_parse_limits :: parse_limits where
  "recovery_parse_limits =
     \<lparr>max_query_length = 2 ^ 32 - 1, max_clauses = 2 ^ 16 - 1, max_any_of_size = 2 ^ 16 - 1\<rparr>"

datatype atom = Term rstring | Phrase rstring | AnyOf "rstring list"

record clause =
  negated :: bool
  atom_of :: atom

record ast =
  clauses :: "clause list"

datatype parse_error_kind =
    TrailingDash
  | UnclosedGroup
  | UnclosedQuote
  | EmptyAnyOfGroup
  | QueryTooLong
  | TooManyClauses
  | AnyOfGroupTooLarge
  | TooManyTags
  | TagFieldTooLong
  | CompiledColumnTooLarge

record parse_error =
  err_kind :: parse_error_kind
  err_pos :: nat

abbreviation perr :: "parse_error_kind \<Rightarrow> nat \<Rightarrow> parse_error" where
  "perr k p \<equiv> \<lparr>err_kind = k, err_pos = p\<rparr>"

section \<open>The parser\<close>

text \<open>
  The cursor of the source is the pair of the index \<open>i\<close> and the remaining chars.
  \<open>push_member\<close> returns the member list; the caller continues with an empty \<open>cur\<close>.
\<close>

definition push_member :: "rstring list \<Rightarrow> rstring \<Rightarrow> rstring list" where
  "push_member members cur = (let t = trim cur in if t = [] then members else members @ [t])"

text \<open>
  The member loop of a group: stops at \<open>)\<close> or at the end of the input. The result is
  the member list, the last \<open>cur\<close>, the index and the remaining input.
\<close>

fun group_loop ::
  "nat \<Rightarrow> rstring \<Rightarrow> rstring list \<Rightarrow> rstring \<Rightarrow> rstring list \<times> rstring \<times> nat \<times> rstring" where
  "group_loop i [] members cur = (members, cur, i, [])"
| "group_loop i (c # cs) members cur =
     (if c = ch_close then (members, cur, i, c # cs)
      else if c = ch_comma then group_loop (Suc i) cs (push_member members cur) []
      else if is_whitespace c then group_loop (Suc i) cs members (cur @ [ch_space])
      else group_loop (Suc i) cs members (cur @ [c]))"

definition is_word_char :: "rchar \<Rightarrow> bool" where
  "is_word_char c \<longleftrightarrow> \<not> is_whitespace c \<and> c \<noteq> ch_open \<and> c \<noteq> ch_quote"

text \<open>
  One atom: the three branches of the source's \<open>match chars[i]\<close>. The clause loop calls
  it on a non-empty cursor only, so the first equation is never reached.
\<close>

definition parse_atom ::
  "parse_limits \<Rightarrow> nat \<Rightarrow> rstring \<Rightarrow> parse_error + atom \<times> nat \<times> rstring" where
  "parse_atom limits i cs = (case cs of
     [] \<Rightarrow> Inr (Term [], i, [])
   | c # rest \<Rightarrow>
      if c = ch_open then
        (case group_loop (Suc i) rest [] [] of (members, cur, j, after) \<Rightarrow>
           if after = [] then Inl (perr UnclosedGroup i)
           else let members' = push_member members cur in
             if members' = [] then Inl (perr EmptyAnyOfGroup i)
             else if length members' > max_any_of_size limits then Inl (perr AnyOfGroupTooLarge i)
             else Inr (AnyOf members', Suc j, tl after))
      else if c = ch_quote then
        (let phrase = takeWhile (\<lambda>d. d \<noteq> ch_quote) rest;
             after = dropWhile (\<lambda>d. d \<noteq> ch_quote) rest
         in if after = [] then Inl (perr UnclosedQuote i)
            else Inr (Phrase (trim phrase), Suc (Suc i) + length phrase, tl after))
      else
        (let word = takeWhile is_word_char cs
         in Inr (Term word, i + length word, dropWhile is_word_char cs)))"

text \<open>One iteration of the clause loop after its whitespace: the sign, then the atom.\<close>

definition parse_clause ::
  "parse_limits \<Rightarrow> nat \<Rightarrow> rstring \<Rightarrow> parse_error + clause \<times> nat \<times> rstring" where
  "parse_clause limits i cs =
     (if cs \<noteq> [] \<and> hd cs = ch_dash then
        (if tl cs = [] \<or> is_whitespace (hd (tl cs)) then Inl (perr TrailingDash i)
         else case parse_atom limits (Suc i) (tl cs) of
             Inl e \<Rightarrow> Inl e
           | Inr (a, j, rest) \<Rightarrow> Inr (\<lparr>negated = True, atom_of = a\<rparr>, j, rest))
      else case parse_atom limits i cs of
          Inl e \<Rightarrow> Inl e
        | Inr (a, j, rest) \<Rightarrow> Inr (\<lparr>negated = False, atom_of = a\<rparr>, j, rest))"

lemma group_loop_length:
  "group_loop i cs ms cur = (ms', cur', j, after) \<Longrightarrow> length after \<le> length cs"
  by (induction i cs ms cur rule: group_loop.induct) (fastforce split: if_splits)+

lemma parse_atom_shrinks:
  assumes "parse_atom limits i cs = Inr (a, j, rest)" "cs \<noteq> []" "\<not> is_whitespace (hd cs)"
  shows "length rest < length cs"
proof -
  obtain c cs' where cs: "cs = c # cs'" using assms(2) by (cases cs) auto
  consider "c = ch_open" | "c = ch_quote" | "c \<noteq> ch_open" "c \<noteq> ch_quote" by blast
  then show ?thesis
  proof cases
    case 1
    then show ?thesis using assms(1) cs
      by (auto simp: parse_atom_def Let_def dest!: group_loop_length
          split: prod.splits if_splits list.splits)
  next
    case 2
    have "length (dropWhile (\<lambda>d. d \<noteq> ch_quote) cs') \<le> length cs'"
      by (rule length_dropWhile_le)
    with 2 show ?thesis using assms(1) cs
      by (auto simp: parse_atom_def Let_def split: if_splits)
  next
    case 3
    then have "is_word_char c" using assms(3) cs by (simp add: is_word_char_def)
    moreover have "length (dropWhile is_word_char cs') \<le> length cs'"
      by (rule length_dropWhile_le)
    ultimately show ?thesis using assms(1) cs 3
      by (auto simp: parse_atom_def Let_def)
  qed
qed

lemma parse_clause_shrinks:
  assumes "parse_clause limits i cs = Inr (cl, j, rest)" "cs \<noteq> []" "\<not> is_whitespace (hd cs)"
  shows "length rest < length cs"
  using assms
  by (cases cs)
     (auto simp: parse_clause_def dest!: parse_atom_shrinks split: if_splits sum.splits)

text \<open>The clause loop: skips whitespace, stops at the end of the input.\<close>

function parse_loop ::
  "parse_limits \<Rightarrow> nat \<Rightarrow> rstring \<Rightarrow> clause list \<Rightarrow> parse_error + clause list" where
  "parse_loop limits i cs acc =
     (let ws = takeWhile is_whitespace cs;
          cs' = dropWhile is_whitespace cs
      in if cs' = [] then Inr acc
         else case parse_clause limits (i + length ws) cs' of
             Inl e \<Rightarrow> Inl e
           | Inr (cl, j, rest) \<Rightarrow> parse_loop limits j rest (acc @ [cl]))"
  by pat_completeness auto
termination
proof (relation "measure (\<lambda>(limits, i, cs, acc). length cs)", goal_cases)
  case prems: (2 limits i cs acc)
  then have "\<not> is_whitespace (hd (dropWhile is_whitespace cs))"
    by (metis hd_dropWhile)
  then have "length rest < length (dropWhile is_whitespace cs)"
    if "parse_clause limits (i + length (takeWhile is_whitespace cs)) (dropWhile is_whitespace cs)
          = Inr (cl, j, rest)" for cl j rest
    using that prems by (auto intro: parse_clause_shrinks)
  then show ?case using prems
    by (auto intro: less_le_trans [OF _ length_dropWhile_le])
qed simp

declare parse_loop.simps [simp del]

lemma parse_loop_end:
  "dropWhile is_whitespace cs = [] \<Longrightarrow> parse_loop limits i cs acc = Inr acc"
  unfolding parse_loop.simps [of limits i cs acc] Let_def by simp

lemma parse_loop_step:
  "dropWhile is_whitespace cs \<noteq> [] \<Longrightarrow> parse_loop limits i cs acc =
     (case parse_clause limits (i + length (takeWhile is_whitespace cs))
             (dropWhile is_whitespace cs) of
        Inl e \<Rightarrow> Inl e
      | Inr (cl, j, rest) \<Rightarrow> parse_loop limits j rest (acc @ [cl]))"
  unfolding parse_loop.simps [of limits i cs acc] Let_def by (simp only: if_False)

definition parse_with_limits :: "rstring \<Rightarrow> parse_limits \<Rightarrow> parse_error + ast" where
  "parse_with_limits input limits =
     (if str_len input > max_query_length limits then Inl (perr QueryTooLong 0)
      else case parse_loop limits 0 input [] of
          Inl e \<Rightarrow> Inl e
        | Inr cls \<Rightarrow>
            if length cls > max_clauses limits then Inl (perr TooManyClauses 0)
            else Inr \<lparr>clauses = cls\<rparr>)"

definition parse :: "rstring \<Rightarrow> parse_error + ast" where
  "parse input = parse_with_limits input default_limits"

definition parse_for_recovery :: "rstring \<Rightarrow> parse_error + ast" where
  "parse_for_recovery input = parse_with_limits input recovery_parse_limits"

section \<open>Well-formed syntax trees\<close>

text \<open>
  What a tree read from a query satisfies: terms are non-empty words that a positive
  clause does not start with a dash, phrases are trimmed and hold no quote, groups have
  between one and \<open>max_any_of_size\<close> members, which are trimmed, non-empty and hold no
  separator, their inner whitespace being plain spaces.
\<close>

definition wf_member :: "rstring \<Rightarrow> bool" where
  "wf_member m \<longleftrightarrow> m \<noteq> [] \<and> trim m = m \<and>
     list_all (\<lambda>c. c \<noteq> ch_close \<and> c \<noteq> ch_comma \<and> (is_whitespace c \<longrightarrow> c = ch_space)) m"

fun wf_atom :: "parse_limits \<Rightarrow> atom \<Rightarrow> bool" where
  "wf_atom limits (Term t) \<longleftrightarrow> t \<noteq> [] \<and> list_all is_word_char t"
| "wf_atom limits (Phrase p) \<longleftrightarrow> trim p = p \<and> list_all (\<lambda>c. c \<noteq> ch_quote) p"
| "wf_atom limits (AnyOf ms) \<longleftrightarrow>
     ms \<noteq> [] \<and> length ms \<le> max_any_of_size limits \<and> list_all wf_member ms"

definition wf_clause :: "parse_limits \<Rightarrow> clause \<Rightarrow> bool" where
  "wf_clause limits cl \<longleftrightarrow> wf_atom limits (atom_of cl) \<and>
     (\<not> negated cl \<longrightarrow> (case atom_of cl of Term t \<Rightarrow> hd t \<noteq> ch_dash | _ \<Rightarrow> True))"

definition wf_ast :: "parse_limits \<Rightarrow> ast \<Rightarrow> bool" where
  "wf_ast limits a \<longleftrightarrow>
     length (clauses a) \<le> max_clauses limits \<and> list_all (wf_clause limits) (clauses a)"

subsection \<open>Trimming\<close>

lemma set_dropWhile_subset: "set (dropWhile P xs) \<subseteq> set xs"
  by (metis set_dropWhileD subsetI)

lemma set_trim: "set (trim s) \<subseteq> set s"
  unfolding trim_def using set_dropWhile_subset
  by (metis set_rev subset_trans)

lemma dropWhile_rev_dropWhile_id:
  "\<not> P (hd xs) \<Longrightarrow> rev (dropWhile P (rev xs)) \<noteq> [] \<Longrightarrow> hd (rev (dropWhile P (rev xs))) = hd xs"
proof -
  assume ne: "rev (dropWhile P (rev xs)) \<noteq> []"
  have "xs = rev (dropWhile P (rev xs)) @ rev (takeWhile P (rev xs))"
    by (metis rev_append rev_rev_ident takeWhile_dropWhile_id)
  then show ?thesis using ne by (metis hd_append2)
qed

lemma trim_idem [simp]: "trim (trim s) = trim s"
proof -
  let ?l = "dropWhile is_whitespace s"
  have *: "dropWhile is_whitespace (trim s) = trim s"
  proof (cases "trim s = []")
    case False
    then have "?l \<noteq> []" by (metis dropWhile.simps(1) rev.simps(1) trim_def)
    then have "\<not> is_whitespace (hd ?l)" by (rule hd_dropWhile)
    with False show ?thesis
      unfolding dropWhile_eq_self_iff trim_def by (metis dropWhile_rev_dropWhile_id)
  qed simp
  show ?thesis
    by (subst trim_def, subst *) (simp add: trim_def)
qed

lemma trim_Nil [simp]: "trim [] = []"
  by (simp add: trim_def)

subsection \<open>Every parsed tree is well formed\<close>

definition group_chars :: "rstring \<Rightarrow> bool" where
  "group_chars = list_all (\<lambda>c. c \<noteq> ch_close \<and> c \<noteq> ch_comma \<and> (is_whitespace c \<longrightarrow> c = ch_space))"

lemma wf_member_trim: "group_chars cur \<Longrightarrow> trim cur \<noteq> [] \<Longrightarrow> wf_member (trim cur)"
  using set_trim [of cur] by (auto simp: wf_member_def group_chars_def list_all_iff)

lemma push_member_wf:
  "list_all wf_member ms \<Longrightarrow> group_chars cur \<Longrightarrow> list_all wf_member (push_member ms cur)"
  by (simp add: push_member_def Let_def wf_member_trim)

lemma group_loop_wf:
  assumes "group_loop i cs ms cur = (ms', cur', j, after)"
    and "list_all wf_member ms" "group_chars cur"
  shows "list_all wf_member ms' \<and> group_chars cur'"
  using assms
  by (induction i cs ms cur rule: group_loop.induct)
     (auto simp: push_member_wf group_chars_def is_whitespace_def split: if_splits)

lemma takeWhile_list_all: "list_all P (takeWhile P xs)"
  by (auto simp: list_all_iff dest: set_takeWhileD)

lemma parse_atom_wf:
  assumes "parse_atom limits i cs = Inr (a, j, rest)" "cs \<noteq> []" "\<not> is_whitespace (hd cs)"
  shows "wf_atom limits a \<and> (case a of Term t \<Rightarrow> hd t = hd cs | _ \<Rightarrow> True)"
proof -
  obtain c cs' where cs: "cs = c # cs'" using assms(2) by (cases cs) auto
  consider "c = ch_open" | "c = ch_quote" | "c \<noteq> ch_open" "c \<noteq> ch_quote" by blast
  then show ?thesis
  proof cases
    case 1
    obtain ms cur k after where g: "group_loop (Suc i) cs' [] [] = (ms, cur, k, after)"
      by (metis prod_cases4)
    then have "list_all wf_member (push_member ms cur)"
      using group_loop_wf [OF g] by (simp add: push_member_wf group_chars_def)
    with 1 g show ?thesis using assms(1) cs
      by (auto simp: parse_atom_def Let_def split: if_splits)
  next
    case 2
    have "list_all (\<lambda>d. d \<noteq> ch_quote) (trim (takeWhile (\<lambda>d. d \<noteq> ch_quote) cs'))"
      by (metis (no_types, lifting) list_all_iff set_takeWhileD set_trim subsetD)
    with 2 show ?thesis using assms(1) cs
      by (auto simp: parse_atom_def Let_def split: if_splits)
  next
    case 3
    then have "is_word_char c" using assms(3) cs by (simp add: is_word_char_def)
    then show ?thesis using assms(1) cs 3
      by (auto simp: parse_atom_def Let_def takeWhile_list_all)
  qed
qed

lemma parse_clause_wf:
  assumes "parse_clause limits i cs = Inr (cl, j, rest)" "cs \<noteq> []" "\<not> is_whitespace (hd cs)"
  shows "wf_clause limits cl"
proof (cases "hd cs = ch_dash")
  case True
  then show ?thesis using assms
    by (auto simp: parse_clause_def wf_clause_def dest: parse_atom_wf
        split: if_splits sum.splits)
next
  case False
  then show ?thesis using assms
    by (auto simp: parse_clause_def wf_clause_def dest!: parse_atom_wf
        split: if_splits sum.splits atom.splits)
qed

lemma parse_loop_wf:
  assumes "parse_loop limits i cs acc = Inr cls" "list_all (wf_clause limits) acc"
  shows "list_all (wf_clause limits) cls"
  using assms
proof (induction limits i cs acc rule: parse_loop.induct)
  case (1 limits i cs acc)
  show ?case
  proof (cases "dropWhile is_whitespace cs = []")
    case True
    then show ?thesis using 1(2,3) by (simp add: parse_loop_end)
  next
    case False
    then obtain cl j rest where
      cl: "parse_clause limits (i + length (takeWhile is_whitespace cs))
             (dropWhile is_whitespace cs) = Inr (cl, j, rest)"
      and rest: "parse_loop limits j rest (acc @ [cl]) = Inr cls"
      using 1(2) unfolding parse_loop_step [OF False] by (auto split: sum.splits)
    have "wf_clause limits cl"
      using parse_clause_wf [OF cl False] hd_dropWhile [OF False] by simp
    then show ?thesis using 1(1) [OF refl refl False cl refl refl rest] 1(3) by simp
  qed
qed

section \<open>Printing and reading back\<close>

text \<open>A printer for trees: every clause is followed by one space.\<close>

fun join_members :: "rstring list \<Rightarrow> rstring" where
  "join_members [] = []"
| "join_members [m] = m"
| "join_members (m # ms) = m @ ch_comma # join_members ms"

fun render_atom :: "atom \<Rightarrow> rstring" where
  "render_atom (Term t) = t"
| "render_atom (Phrase p) = ch_quote # p @ [ch_quote]"
| "render_atom (AnyOf ms) = ch_open # join_members ms @ [ch_close]"

definition render_clause :: "clause \<Rightarrow> rstring" where
  "render_clause cl = (if negated cl then [ch_dash] else []) @ render_atom (atom_of cl)"

definition render :: "ast \<Rightarrow> rstring" where
  "render a = concat (map (\<lambda>cl. render_clause cl @ [ch_space]) (clauses a))"

lemma group_loop_member:
  assumes "group_chars m"
  shows "group_loop i (m @ cs) ms cur = group_loop (i + length m) cs ms (cur @ m)"
  using assms
proof (induction m arbitrary: i cur)
  case (Cons c m)
  then have "is_whitespace c \<Longrightarrow> c = ch_space" "c \<noteq> ch_close" "c \<noteq> ch_comma" "group_chars m"
    by (auto simp: group_chars_def)
  then show ?case using Cons.IH by (cases "is_whitespace c") auto
qed simp

lemma wf_member_group_chars: "wf_member m \<Longrightarrow> group_chars m"
  by (simp add: wf_member_def group_chars_def)

lemma push_member_wf_member: "wf_member m \<Longrightarrow> push_member ms m = ms @ [m]"
  by (simp add: push_member_def wf_member_def Let_def)

lemma group_loop_join:
  assumes "list_all wf_member ms" "ms \<noteq> []"
  shows "\<exists>cur acc'. group_loop i (join_members ms @ ch_close # rest) acc [] =
           (acc', cur, i + length (join_members ms), ch_close # rest) \<and>
           push_member acc' cur = acc @ ms"
  using assms
proof (induction ms arbitrary: i acc rule: join_members.induct)
  case (2 m)
  then show ?case
    by (simp add: group_loop_member wf_member_group_chars push_member_wf_member)
next
  case (3 m m' ms)
  then have "group_loop i (join_members (m # m' # ms) @ ch_close # rest) acc [] =
      group_loop (Suc (i + length m)) (join_members (m' # ms) @ ch_close # rest) (acc @ [m]) []"
    by (simp add: group_loop_member wf_member_group_chars push_member_wf_member)
  then show ?case using 3(1) [of "Suc (i + length m)" "acc @ [m]"] 3(2) by (simp add: add.assoc)
qed simp

lemma takeWhile_stop: "list_all P xs \<Longrightarrow> \<not> P y \<Longrightarrow> takeWhile P (xs @ y # ys) = xs"
  by (induction xs) auto

lemma dropWhile_stop: "list_all P xs \<Longrightarrow> \<not> P y \<Longrightarrow> dropWhile P (xs @ y # ys) = y # ys"
  by (induction xs) auto

lemma whitespace_space [simp]: "is_whitespace ch_space" "\<not> is_word_char ch_space"
  by (simp_all add: is_whitespace_def is_word_char_def)

lemma whitespace_specials [simp]:
  "\<not> is_whitespace ch_open" "\<not> is_whitespace ch_quote" "\<not> is_whitespace ch_dash"
  by (simp_all add: is_whitespace_def)

lemma parse_atom_render:
  assumes "wf_atom limits a"
  shows "parse_atom limits i (render_atom a @ ch_space # rest) =
           Inr (a, i + length (render_atom a), ch_space # rest)"
proof (cases a)
  case (Term t)
  then show ?thesis using assms
    by (cases t) (auto simp: parse_atom_def Let_def is_word_char_def takeWhile_stop dropWhile_stop)
next
  case (Phrase p)
  then show ?thesis using assms
    by (simp add: parse_atom_def Let_def takeWhile_stop dropWhile_stop)
next
  case (AnyOf ms)
  then obtain cur acc' where
    "group_loop (Suc i) (join_members ms @ ch_close # ch_space # rest) [] [] =
       (acc', cur, Suc i + length (join_members ms), ch_close # ch_space # rest)"
    "push_member acc' cur = ms"
    using assms group_loop_join [of ms "Suc i" "ch_space # rest" "[]"] by auto
  then show ?thesis using assms AnyOf by (simp add: parse_atom_def Let_def)
qed

lemma render_atom_hd:
  "wf_atom limits a \<Longrightarrow> render_atom a \<noteq> [] \<and> \<not> is_whitespace (hd (render_atom a))"
  by (cases a; cases "render_atom a") (auto simp: is_word_char_def list_all_iff)

lemma parse_clause_render:
  assumes "wf_clause limits cl"
  shows "parse_clause limits i (render_clause cl @ ch_space # rest) =
           Inr (cl, i + length (render_clause cl), ch_space # rest)"
proof -
  have wf: "wf_atom limits (atom_of cl)" using assms by (simp add: wf_clause_def)
  have "hd (render_atom (atom_of cl)) \<noteq> ch_dash" if "\<not> negated cl"
    using assms that by (cases "atom_of cl") (auto simp: wf_clause_def)
  then show ?thesis
    using wf render_atom_hd [OF wf]
    by (cases cl) (auto simp: parse_clause_def render_clause_def parse_atom_render)
qed

lemma render_clause_hd:
  "wf_clause limits cl \<Longrightarrow> render_clause cl \<noteq> [] \<and> \<not> is_whitespace (hd (render_clause cl))"
  using render_atom_hd by (auto simp: render_clause_def wf_clause_def)

lemma parse_loop_render:
  assumes "list_all (wf_clause limits) cls" "list_all is_whitespace ws"
  shows "parse_loop limits i (ws @ concat (map (\<lambda>cl. render_clause cl @ [ch_space]) cls)) acc =
           Inr (acc @ cls)"
  using assms
proof (induction cls arbitrary: i ws acc)
  case Nil
  then have "dropWhile is_whitespace ws = []" by (simp add: list_all_iff)
  then show ?case by (simp add: parse_loop_end)
next
  case (Cons cl cls)
  let ?rest = "concat (map (\<lambda>cl. render_clause cl @ [ch_space]) cls)"
  obtain c cs where rc: "render_clause cl = c # cs" "\<not> is_whitespace c"
    using render_clause_hd [of limits cl] Cons.prems(1) by (cases "render_clause cl") auto
  have dw: "dropWhile is_whitespace (ws @ render_clause cl @ ch_space # ?rest) =
              render_clause cl @ ch_space # ?rest"
    using Cons.prems(2) rc by (simp add: dropWhile_stop)
  have ih: "parse_loop limits j (ch_space # ?rest) (acc @ [cl]) = Inr (acc @ cl # cls)" for j
    using Cons.IH [of "[ch_space]" j "acc @ [cl]"] Cons.prems(1) by simp
  have "dropWhile is_whitespace (ws @ render_clause cl @ ch_space # ?rest) \<noteq> []"
    unfolding dw by simp
  note step = parse_loop_step [OF this]
  have "parse_loop limits i (ws @ render_clause cl @ ch_space # ?rest) acc = Inr (acc @ cl # cls)"
    unfolding step dw using Cons.prems(1) ih by (simp add: parse_clause_render)
  then show ?case by simp
qed

section \<open>Error positions\<close>











section \<open>Properties\<close>

lemmas dsl_eval = rstr_def is_whitespace_def is_word_char_def str_len_def len_utf8_def trim_def
  default_limits_def parse_with_limits_def parse_loop.simps parse_clause_def parse_atom_def Let_def

definition sample_ast :: ast where
  "sample_ast = \<lparr>clauses = [\<lparr>negated = True, atom_of = AnyOf [rstr ''a b'', rstr ''c'']\<rparr>,
                            \<lparr>negated = False, atom_of = Term (rstr ''d'')\<rparr>]\<rparr>"

lemma sample_ast_text: "render sample_ast = rstr ''-(a b,c) d ''"
  by (simp add: render_def sample_ast_def render_clause_def rstr_def)

lemma sample_ast_wf: "wf_ast default_limits sample_ast"
  by (simp add: wf_ast_def sample_ast_def wf_clause_def wf_member_def dsl_eval)

lemma sample_text_len: "str_len (rstr ''-(a b,c) d '') = 11"
  by (simp add: dsl_eval)

text \<open>C29: a query is accepted only within the limits, and the tree it is read into is
  well formed: no empty term, no empty or oversized group, no empty or untrimmed member,
  and a positive term never starts with a dash.\<close>

theorem parse_accepts_wf:
  assumes "parse_with_limits input limits = Inr a"
  shows "str_len input \<le> max_query_length limits \<and> wf_ast limits a"
  using assms parse_loop_wf [of limits 0 input "[]"]
  by (auto simp: parse_with_limits_def wf_ast_def split: if_splits sum.splits)

theorem parse_accepts_wf_witness:
  "parse_with_limits (rstr ''-(a b,c) d '') default_limits = Inr sample_ast \<and>
   wf_ast default_limits sample_ast"
proof -
  have "parse_with_limits (rstr ''-(a b,c) d '') default_limits = Inr sample_ast"
    using parse_loop_render [of default_limits "clauses sample_ast" "[]" 0 "[]"]
      sample_ast_wf sample_ast_text
    by (simp add: parse_with_limits_def wf_ast_def render_def sample_ast_def default_limits_def
        sample_text_len)
  then show ?thesis using parse_accepts_wf by blast
qed

text \<open>C30: printing a well-formed tree and parsing the text gives the same tree back.\<close>

theorem parse_render:
  assumes "wf_ast limits a" "str_len (render a) \<le> max_query_length limits"
  shows "parse_with_limits (render a) limits = Inr a"
  using assms parse_loop_render [of limits "clauses a" "[]" 0 "[]"]
  by (cases a) (simp add: parse_with_limits_def wf_ast_def render_def)

theorem parse_render_witness:
  "parse_with_limits (render sample_ast) default_limits = Inr sample_ast"
  using parse_render [OF sample_ast_wf]
  by (simp add: sample_ast_text sample_text_len default_limits_def)



end
