(* ===== verification/Feature_Dict.thy ===== *)
theory Feature_Dict
  imports Hashing Dsl "HOL-Library.Multiset"
begin

text \<open>
  The feature dictionary of \<open>engine/src/dict.rs\<close>: dense ids for interned names, synthetic
  ids for names outside the frozen dictionary, query frequencies, the 64 common-mask bits
  and the fingerprint. The unstable sort that ranks the features is an argument, of which
  only the documented behaviour is used.
\<close>

section \<open>Synthetic ids\<close>

definition NO_MASK_BIT :: nat where
  "NO_MASK_BIT = 64"

definition SYNTHETIC_BASE :: feature_id where
  "SYNTHETIC_BASE = 0x80000000"

definition is_synthetic :: "feature_id \<Rightarrow> bool" where
  "is_synthetic i \<longleftrightarrow> i \<ge> SYNTHETIC_BASE"

text \<open>The UTF-8 bytes of a string (\<open>str::as_bytes\<close>).\<close>

definition utf8_char :: "rchar \<Rightarrow> u8 list" where
  "utf8_char c =
     (if c < 128 then [of_nat c]
      else if c < 2048 then [of_nat (192 + c div 64), of_nat (128 + c mod 64)]
      else if c < 65536 then
        [of_nat (224 + c div 4096), of_nat (128 + c div 64 mod 64), of_nat (128 + c mod 64)]
      else
        [of_nat (240 + c div 262144), of_nat (128 + c div 4096 mod 64),
         of_nat (128 + c div 64 mod 64), of_nat (128 + c mod 64)])"

definition as_bytes :: "rstring \<Rightarrow> u8 list" where
  "as_bytes s = concat (map utf8_char s)"

lemma length_as_bytes: "length (as_bytes s) = str_len s"
  by (induction s) (auto simp: as_bytes_def str_len_def utf8_char_def len_utf8_def)

definition synthetic_id :: "rstring \<Rightarrow> feature_id" where
  "synthetic_id name =
     (let h = fnv1a64 (as_bytes name);
          folded = ucast (h XOR drop_bit 32 h) :: feature_id
      in SYNTHETIC_BASE OR (folded AND (SYNTHETIC_BASE - 1)))"

definition name_hash :: "rstring \<Rightarrow> u64" where
  "name_hash name = fnv1a64 (as_bytes name)"

lemma is_synthetic_synthetic_id [simp]: "is_synthetic (synthetic_id name)"
proof -
  have "SYNTHETIC_BASE \<le> SYNTHETIC_BASE OR x" for x
    by (simp add: word_le_nat_alt or_greater_eq flip: unsigned_or_eq)
       (metis le_word_or2 or.commute word_le_nat_alt)
  then show ?thesis by (simp add: is_synthetic_def synthetic_id_def Let_def)
qed

section \<open>Kinds\<close>

datatype feature_kind = Year | Brand | Entity | Category | Flag | Generic

fun kind_tag :: "feature_kind \<Rightarrow> u8" where
  "kind_tag Year = 0"
| "kind_tag Brand = 1"
| "kind_tag Entity = 2"
| "kind_tag Category = 3"
| "kind_tag Flag = 7"
| "kind_tag Generic = 8"

definition kind_from_tag :: "u8 \<Rightarrow> feature_kind option" where
  "kind_from_tag t =
     (if t = 0 then Some Year
      else if t = 1 then Some Brand
      else if t = 2 then Some Entity
      else if t = 3 then Some Category
      else if t = 7 then Some Flag
      else if t = 8 then Some Generic
      else None)"

lemma kind_from_tag_Some_iff: "kind_from_tag t = Some k \<longleftrightarrow> t = kind_tag k"
  by (cases k) (auto simp: kind_from_tag_def)

section \<open>The dictionary\<close>

text \<open>The hash maps of the equivalences are association lists, read with \<open>map_of\<close>.\<close>

type_synonym equiv_map = "(feature_id \<times> feature_id list) list"

record equivalences =
  by_feature :: equiv_map
  by_name :: "(u64 \<times> u64 list) list"

record dict =
  id_map :: "rstring \<rightharpoonup> feature_id"
  names :: "rstring list"
  kinds :: "feature_kind list"
  freqs :: "u32 list"
  mask_bits :: "nat list"
  finalized :: bool
  equivs :: equivalences

definition dict_new :: dict where
  "dict_new = \<lparr>id_map = Map.empty, names = [], kinds = [], freqs = [], mask_bits = [],
     finalized = False, equivs = \<lparr>by_feature = [], by_name = []\<rparr>\<rparr>"

definition set_equivalences :: "equivalences \<Rightarrow> dict \<Rightarrow> dict" where
  "set_equivalences e d = d\<lparr>equivs := e\<rparr>"

definition dict_equivalences :: "dict \<Rightarrow> equiv_map" where
  "dict_equivalences d = by_feature (equivs d)"

definition equivalent_names :: "dict \<Rightarrow> u64 \<Rightarrow> u64 list option" where
  "equivalent_names d n = map_of (by_name (equivs d)) n"

definition has_equivalent_names :: "dict \<Rightarrow> bool" where
  "has_equivalent_names d \<longleftrightarrow> by_name (equivs d) \<noteq> []"

definition intern :: "rstring \<Rightarrow> feature_kind \<Rightarrow> dict \<Rightarrow> feature_id \<times> dict" where
  "intern name k d = (case id_map d name of
     Some i \<Rightarrow> (i, d)
   | None \<Rightarrow>
      let i = of_nat (length (names d)) in
      (i, d\<lparr>id_map := (id_map d)(name \<mapsto> i), names := names d @ [name], kinds := kinds d @ [k],
            freqs := freqs d @ [0], mask_bits := mask_bits d @ [NO_MASK_BIT]\<rparr>))"

definition dict_get :: "dict \<Rightarrow> rstring \<Rightarrow> feature_id option" where
  "dict_get d name = id_map d name"

definition get_or_synthetic :: "dict \<Rightarrow> rstring \<Rightarrow> feature_id" where
  "get_or_synthetic d name = (case id_map d name of Some i \<Rightarrow> i | None \<Rightarrow> synthetic_id name)"

definition dict_name :: "dict \<Rightarrow> feature_id \<Rightarrow> rstring" where
  "dict_name d i = (if unat i < length (names d) then names d ! unat i else rstr ''<oov>'')"

definition dict_kind :: "dict \<Rightarrow> feature_id \<Rightarrow> feature_kind" where
  "dict_kind d i = (if unat i < length (kinds d) then kinds d ! unat i else Generic)"

definition freq :: "dict \<Rightarrow> feature_id \<Rightarrow> u32" where
  "freq d i = (if unat i < length (freqs d) then freqs d ! unat i else 0)"

definition mask_bit :: "dict \<Rightarrow> feature_id \<Rightarrow> nat" where
  "mask_bit d i = (if unat i < length (mask_bits d) then mask_bits d ! unat i else NO_MASK_BIT)"

text \<open>\<open>bump_freq\<close> indexes the vector and panics out of range: the result is then None.\<close>

definition bump_freq :: "feature_id \<Rightarrow> dict \<Rightarrow> dict option" where
  "bump_freq i d =
     (if unat i < length (freqs d)
      then Some (d\<lparr>freqs := (freqs d)[unat i := saturating_add (freqs d ! unat i) 1]\<rparr>)
      else None)"

text \<open>
  \<open>finalize_mask\<close>: \<open>srt key ids\<close> stands for \<open>sort_unstable_by_key\<close> with the reversed key.
\<close>

type_synonym desc_sort = "(feature_id \<Rightarrow> u32) \<Rightarrow> feature_id list \<Rightarrow> feature_id list"

definition finalize_mask :: "desc_sort \<Rightarrow> dict \<Rightarrow> dict" where
  "finalize_mask srt d =
     (if finalized d then d
      else let idx = srt (freq d) (map of_nat [0..<length (names d)]);
               cleared = map (\<lambda>_. NO_MASK_BIT) (mask_bits d)
        in d\<lparr>mask_bits := write_all (map (\<lambda>(bit, i). (unat i, bit)) (enumerate 0 (take 64 idx))) cleared,
             finalized := True\<rparr>)"

definition mask_inverse :: "dict \<Rightarrow> feature_id option list" where
  "mask_inverse d =
     write_all
       (map (\<lambda>(i, b). (b, Some (of_nat i)))
         (filter (\<lambda>(i, b). b \<noteq> NO_MASK_BIT) (enumerate 0 (mask_bits d))))
       (replicate 64 None)"

definition set_freq_and_mask :: "feature_id \<Rightarrow> u32 \<Rightarrow> nat \<Rightarrow> dict \<Rightarrow> dict" where
  "set_freq_and_mask i f b d =
     d\<lparr>freqs := (if unat i < length (freqs d) then (freqs d)[unat i := f] else freqs d),
       mask_bits := (if unat i < length (mask_bits d) then (mask_bits d)[unat i := b]
                     else mask_bits d)\<rparr>"

definition mark_finalized :: "dict \<Rightarrow> dict" where
  "mark_finalized d = d\<lparr>finalized := True\<rparr>"

definition to_le_bytes :: "u32 \<Rightarrow> u8 list" where
  "to_le_bytes w = [ucast w, ucast (drop_bit 8 w), ucast (drop_bit 16 w), ucast (drop_bit 24 w)]"

definition fingerprint_bytes :: "dict \<Rightarrow> u8 list" where
  "fingerprint_bytes d =
     to_le_bytes (of_nat (length (names d))) @
     concat (map (\<lambda>((name, k), m).
       to_le_bytes (of_nat (str_len name)) @ as_bytes name @ [kind_tag k, of_nat m])
       (zip (zip (names d) (kinds d)) (mask_bits d))) @
     [if finalized d then 1 else 0]"

definition fingerprint :: "dict \<Rightarrow> u64" where
  "fingerprint d = fnv1a64 (fingerprint_bytes d)"

section \<open>The invariant\<close>

text \<open>
  The parallel vectors have one length, below the synthetic range; the map is the inverse
  of the name vector; mask bits are below 64 or the sentinel, and no two features share one.
\<close>

definition mask_bits_ok :: "nat list \<Rightarrow> bool" where
  "mask_bits_ok ms \<longleftrightarrow> list_all (\<lambda>b. b \<le> NO_MASK_BIT) ms \<and>
     distinct (filter (\<lambda>b. b \<noteq> NO_MASK_BIT) ms)"

definition dict_inv :: "dict \<Rightarrow> bool" where
  "dict_inv d \<longleftrightarrow>
     length (kinds d) = length (names d) \<and> length (freqs d) = length (names d) \<and>
     length (mask_bits d) = length (names d) \<and> length (names d) \<le> unat SYNTHETIC_BASE \<and>
     (\<forall>n i. id_map d n = Some i \<longleftrightarrow> unat i < length (names d) \<and> names d ! unat i = n) \<and>
     mask_bits_ok (mask_bits d)"

lemma unat_SYNTHETIC_BASE: "unat SYNTHETIC_BASE = 2 ^ 31"
  by (simp add: SYNTHETIC_BASE_def)

lemma dict_inv_lengths:
  assumes "dict_inv d"
  shows "length (kinds d) = length (names d)" "length (freqs d) = length (names d)"
    "length (mask_bits d) = length (names d)" "length (names d) \<le> 2 ^ 31"
  using assms by (auto simp: dict_inv_def unat_SYNTHETIC_BASE)

lemma id_map_iff:
  "dict_inv d \<Longrightarrow> id_map d n = Some i \<longleftrightarrow> unat i < length (names d) \<and> names d ! unat i = n"
  by (simp add: dict_inv_def)

lemma interned_not_synthetic:
  "dict_inv d \<Longrightarrow> id_map d n = Some i \<Longrightarrow> \<not> is_synthetic i"
  using dict_inv_lengths(4) [of d]
  by (auto simp: id_map_iff is_synthetic_def word_le_nat_alt unat_SYNTHETIC_BASE)

lemma dict_inv_new [simp]: "dict_inv dict_new"
  by (simp add: dict_inv_def dict_new_def mask_bits_ok_def)

lemma unat_of_nat_small: "n \<le> 2 ^ 31 \<Longrightarrow> unat (of_nat n :: u32) = n"
  by (simp add: unat_of_nat take_bit_nat_eq_self)

lemma intern_inv:
  assumes inv: "dict_inv d" and room: "length (names d) < 2 ^ 31"
    and "intern n k d = (i, d')"
  shows "dict_inv d'"
proof (cases "id_map d n")
  case None
  let ?i = "of_nat (length (names d)) :: feature_id"
  have i: "unat ?i = length (names d)" using room by (simp add: unat_of_nat_small)
  have fresh: "n \<notin> set (names d)"
  proof
    assume "n \<in> set (names d)"
    then obtain j where j: "j < length (names d)" "names d ! j = n" by (auto simp: in_set_conv_nth)
    then have "id_map d n = Some (of_nat j)"
      using inv room by (simp add: id_map_iff unat_of_nat_small)
    with None show False by simp
  qed
  have d': "d' = d\<lparr>id_map := (id_map d)(n \<mapsto> ?i), names := names d @ [n], kinds := kinds d @ [k],
            freqs := freqs d @ [0], mask_bits := mask_bits d @ [NO_MASK_BIT]\<rparr>"
    using assms(3) None by (auto simp: intern_def Let_def)
  have "(id_map d') m = Some j \<longleftrightarrow> unat j < length (names d') \<and> names d' ! unat j = m" for m j
  proof (cases "m = n")
    case True
    then show ?thesis using fresh i
      by (auto simp: d' nth_append less_Suc_eq dest: nth_mem) (metis i word_unat_eq_iff)
  next
    case False
    then show ?thesis using inv by (auto simp: d' nth_append id_map_iff less_Suc_eq)
  qed
  then show ?thesis
    using inv room by (auto simp: dict_inv_def d' mask_bits_ok_def unat_SYNTHETIC_BASE)
next
  case (Some i)
  then show ?thesis using assms by (simp add: intern_def)
qed

lemma intern_lookup: "intern n k d = (i, d') \<Longrightarrow> dict_get d' n = Some i"
  by (auto simp: intern_def dict_get_def Let_def split: option.splits)

lemma intern_stable:
  "intern n k d = (i, d') \<Longrightarrow> dict_get d m = Some j \<Longrightarrow> dict_get d' m = Some j"
  by (auto simp: intern_def dict_get_def Let_def split: option.splits)

lemma bump_freq_inv: "dict_inv d \<Longrightarrow> bump_freq i d = Some d' \<Longrightarrow> dict_inv d'"
  by (auto simp: bump_freq_def dict_inv_def split: if_splits)

lemma mark_finalized_inv: "dict_inv d \<Longrightarrow> dict_inv (mark_finalized d)"
  by (simp add: mark_finalized_def dict_inv_def)

section \<open>The common mask\<close>

text \<open>What the standard library documents of an unstable sort: a permutation, in key order.\<close>

definition sorts_descending :: "desc_sort \<Rightarrow> bool" where
  "sorts_descending srt \<longleftrightarrow>
     (\<forall>k xs. mset (srt k xs) = mset xs \<and> sorted_wrt (\<lambda>a b. k b \<le> k a) (srt k xs))"

definition stable_desc_sort :: desc_sort where
  "stable_desc_sort k xs = sort_key (\<lambda>x. - int (unat (k x))) xs"

lemma sorts_descending_stable: "sorts_descending stable_desc_sort"
proof -
  have "sorted_wrt (\<lambda>a b. k b \<le> k a) (stable_desc_sort k xs)" for k xs
    using sorted_sort_key [of "\<lambda>x. - int (unat (k x))" xs]
    by (simp add: stable_desc_sort_def sorted_map word_le_def)
  then show ?thesis by (simp add: sorts_descending_def stable_desc_sort_def)
qed

lemma ranked_ids:
  assumes "sorts_descending srt" "n \<le> 2 ^ 31"
    and idx_def: "idx = srt k (map of_nat [0..<n])"
  shows "distinct idx" "length idx = n" "set idx = {i. unat i < n}"
    "sorted_wrt (\<lambda>a b. k b \<le> k a) idx"
proof -
  have m: "mset idx = mset (map of_nat [0..<n])" and
    s: "sorted_wrt (\<lambda>a b. k b \<le> k a) idx"
    using assms(1) unfolding idx_def sorts_descending_def by blast+
  have inj: "inj_on (of_nat :: nat \<Rightarrow> u32) {0..<n}"
    by (rule inj_onI) (metis assms(2) atLeastLessThan_iff le_trans less_imp_le unat_of_nat_small)
  show "distinct idx"
    using m inj by (metis distinct_map distinct_upt mset_eq_imp_distinct_iff set_upt)
  show "length idx = n" using m by (metis diff_zero length_map length_upt mset_eq_length)
  have "set idx = of_nat ` {0..<n}" using m by (metis mset_eq_setD set_map set_upt)
  also have "\<dots> = {i. unat i < n}"
  proof (intro equalityI subsetI)
    fix x :: u32
    assume "x \<in> {i. unat i < n}"
    then show "x \<in> of_nat ` {0..<n}" by (intro image_eqI [of _ _ "unat x"]) auto
  qed (use assms(2) in \<open>auto simp: unat_of_nat_small\<close>)
  finally show "set idx = {i. unat i < n}" .
  show "sorted_wrt (\<lambda>a b. k b \<le> k a) idx" by (rule s)
qed

lemma mask_writes:
  assumes "distinct idx" "set idx = {i. unat i < n}" "length ms = n"
    and ms': "ms' = write_all (map (\<lambda>(bit, i). (unat i, bit)) (enumerate 0 (take 64 idx)))
                      (map (\<lambda>_. NO_MASK_BIT) ms)"
  shows "i \<in> set idx \<Longrightarrow> b < 64 \<Longrightarrow> ms' ! unat i = b \<longleftrightarrow> b < length idx \<and> idx ! b = i"
    "i \<in> set idx \<Longrightarrow> ms' ! unat i \<le> NO_MASK_BIT"
proof -
  let ?us = "map (\<lambda>(bit, i). (unat i, bit)) (enumerate 0 (take 64 idx))"
  have fsts: "map fst ?us = map unat (take 64 idx)"
    by (rule nth_equalityI) (auto simp: nth_enumerate_eq)
  have dist: "distinct (map fst ?us)"
    unfolding fsts using assms(1) by (simp add: distinct_map inj_on_def word_unat_eq_iff)
  have mem: "(unat i, b) \<in> set ?us \<longleftrightarrow> b < 64 \<and> b < length idx \<and> idx ! b = i" for i b
    by (auto simp: in_set_enumerate_eq image_iff word_unat_eq_iff intro!: bexI [of _ "(b, i)"])
  have unwritten: "unat i \<notin> fst ` set ?us" if "\<And>b. (unat i, b) \<notin> set ?us" for i
    using that by (rule not_in_fstI)
  show *: "ms' ! unat i = b \<longleftrightarrow> b < length idx \<and> idx ! b = i" if "i \<in> set idx" "b < 64" for i b
  proof (cases "\<exists>c. (unat i, c) \<in> set ?us")
    case True
    then obtain c where c: "(unat i, c) \<in> set ?us" by blast
    then have "ms' ! unat i = c" unfolding ms' using that assms(2,3)
      by (intro write_all_written [OF dist c]) simp
    then show ?thesis using c mem that(2) assms(1) by (metis distinct_conv_nth)
  next
    case False
    then have "ms' ! unat i = NO_MASK_BIT" unfolding ms'
      using that assms(2,3) by (subst write_all_untouched [OF unwritten]) auto
    then show ?thesis using False mem that(2) by (auto simp: NO_MASK_BIT_def)
  qed
  show "ms' ! unat i \<le> NO_MASK_BIT" if "i \<in> set idx" for i
  proof (cases "\<exists>c. (unat i, c) \<in> set ?us")
    case True
    then obtain c where c: "(unat i, c) \<in> set ?us" by blast
    then have "ms' ! unat i = c" unfolding ms' using that assms(2,3)
      by (intro write_all_written [OF dist c]) simp
    then show ?thesis using c mem by (simp add: NO_MASK_BIT_def)
  next
    case False
    then show ?thesis unfolding ms'
      using that assms(2,3) by (subst write_all_untouched [OF unwritten]) auto
  qed
qed

lemma mask_bits_okI:
  assumes "\<And>j. j < length ms \<Longrightarrow> ms ! j \<le> NO_MASK_BIT"
    and "\<And>j k. j < length ms \<Longrightarrow> k < length ms \<Longrightarrow> ms ! j = ms ! k \<Longrightarrow> ms ! j \<noteq> NO_MASK_BIT \<Longrightarrow> j = k"
  shows "mask_bits_ok ms"
  using assms
proof (induction ms)
  case Nil
  then show ?case by (simp add: mask_bits_ok_def)
next
  case (Cons m ms)
  have "mask_bits_ok ms"
    using Cons.prems(1) [of "Suc _"] Cons.prems(2) [of "Suc _" "Suc _"]
    by (intro Cons.IH) auto
  moreover have "m \<notin> set ms" if "m \<noteq> NO_MASK_BIT"
  proof
    assume "m \<in> set ms"
    then obtain j where "j < length ms" "ms ! j = m" by (auto simp: in_set_conv_nth)
    then show False using Cons.prems(2) [of 0 "Suc j"] that by simp
  qed
  ultimately show ?case using Cons.prems(1) [of 0] by (auto simp: mask_bits_ok_def)
qed

lemma mask_bits_ok_nth:
  assumes "mask_bits_ok ms" "j < length ms" "k < length ms" "ms ! j = ms ! k" "ms ! j \<noteq> NO_MASK_BIT"
  shows "j = k"
  using assms
proof (induction ms arbitrary: j k)
  case (Cons m ms)
  have ok: "mask_bits_ok ms" and notin: "m \<noteq> NO_MASK_BIT \<Longrightarrow> m \<notin> set ms"
    using Cons.prems(1) by (auto simp: mask_bits_ok_def split: if_splits)
  show ?case
    using Cons.IH [OF ok] Cons.prems notin by (cases j; cases k) (auto dest: nth_mem)
qed simp

lemma finalize_mask_bit:
  assumes inv: "dict_inv d" and srt: "sorts_descending srt" and "\<not> finalized d" "b < 64"
  shows "mask_bit (finalize_mask srt d) i = b \<longleftrightarrow>
           (let idx = srt (freq d) (map of_nat [0..<length (names d)])
            in b < length idx \<and> idx ! b = i)"
proof -
  define idx where "idx = srt (freq d) (map of_nat [0..<length (names d)])"
  note r = ranked_ids [OF srt dict_inv_lengths(4) [OF inv] idx_def]
  show ?thesis
  proof (cases "unat i < length (names d)")
    case True
    then have "i \<in> set idx" using r(3) by simp
    from mask_writes(1) [OF r(1) r(3) dict_inv_lengths(3) [OF inv] refl this assms(4)]
    show ?thesis using assms(3) True dict_inv_lengths(3) [OF inv]
      by (simp add: mask_bit_def finalize_mask_def Let_def flip: idx_def)
  next
    case False
    then have "i \<notin> set idx" using r(3) by simp
    then show ?thesis using False assms dict_inv_lengths(3) [OF inv]
      by (auto simp: mask_bit_def finalize_mask_def Let_def NO_MASK_BIT_def simp flip: idx_def dest: nth_mem)
  qed
qed

lemma finalize_mask_inv:
  assumes inv: "dict_inv d" and srt: "sorts_descending srt"
  shows "dict_inv (finalize_mask srt d)"
proof (cases "finalized d")
  case False
  define idx where "idx = srt (freq d) (map of_nat [0..<length (names d)])"
  note r = ranked_ids [OF srt dict_inv_lengths(4) [OF inv] idx_def]
  let ?ms = "mask_bits (finalize_mask srt d)"
  have ms: "?ms = write_all (map (\<lambda>(bit, i). (unat i, bit)) (enumerate 0 (take 64 idx)))
                    (map (\<lambda>_. NO_MASK_BIT) (mask_bits d))"
    using False by (simp add: finalize_mask_def Let_def idx_def)
  note w = mask_writes [OF r(1) r(3) dict_inv_lengths(3) [OF inv] ms]
  have len: "length ?ms = length (names d)"
    using dict_inv_lengths(3) [OF inv] by (simp add: ms)
  have at: "of_nat j \<in> set idx" "unat (of_nat j :: u32) = j" if "j < length ?ms" for j
    using that r(3) len dict_inv_lengths(4) [OF inv] by (simp_all add: unat_of_nat_small)
  have "mask_bits_ok ?ms"
  proof (rule mask_bits_okI)
    show "?ms ! j \<le> NO_MASK_BIT" if "j < length ?ms" for j
      using w(2) [OF at(1) [OF that]] at(2) [OF that] by simp
    show "j = k" if j: "j < length ?ms" and k: "k < length ?ms" and eq: "?ms ! j = ?ms ! k"
      and b: "?ms ! j \<noteq> NO_MASK_BIT" for j k
    proof -
      have "?ms ! j < 64"
        using w(2) [OF at(1) [OF j]] at(2) [OF j] b by (simp add: NO_MASK_BIT_def)
      note b64 = this
      have "idx ! (?ms ! j) = of_nat j" using w(1) [OF at(1) [OF j] b64] at(2) [OF j] by metis
      moreover have "idx ! (?ms ! j) = of_nat k"
        using w(1) [OF at(1) [OF k] b64] at(2) [OF k] eq by metis
      ultimately have "of_nat j = (of_nat k :: u32)" by simp
      then show ?thesis using at(2) [OF j] at(2) [OF k] by metis
    qed
  qed
  then show ?thesis using inv False len
    by (simp add: dict_inv_def finalize_mask_def Let_def)
qed (use inv in \<open>simp add: finalize_mask_def\<close>)

lemma mask_bit_inj:
  assumes "dict_inv d" "mask_bit d i = mask_bit d j" "mask_bit d i \<noteq> NO_MASK_BIT"
  shows "i = j"
proof -
  have "mask_bits_ok (mask_bits d)" using assms(1) by (simp add: dict_inv_def)
  moreover have range: "unat x < length (mask_bits d)" if "mask_bit d x \<noteq> NO_MASK_BIT" for x
    using that by (auto simp: mask_bit_def split: if_splits)
  moreover have "mask_bits d ! unat x = mask_bit d x" if "mask_bit d x \<noteq> NO_MASK_BIT" for x
    using range [OF that] by (simp add: mask_bit_def)
  ultimately have "unat i = unat j"
    by (metis assms(2,3) mask_bits_ok_nth)
  then show ?thesis by (simp add: word_unat_eq_iff)
qed

lemma mask_bit_le: "dict_inv d \<Longrightarrow> mask_bit d i \<le> NO_MASK_BIT"
  by (auto simp: mask_bit_def dict_inv_def mask_bits_ok_def list_all_length)

lemma map_snd_filter_enumerate:
  "map snd (filter (\<lambda>(i, b). P b) (enumerate n xs)) = filter P xs"
  by (induction xs arbitrary: n) auto

lemma mask_inverse_nth:
  assumes inv: "dict_inv d" and "b < 64"
  shows "mask_inverse d ! b = Some i \<longleftrightarrow> mask_bit d i = b"
proof -
  let ?ps = "filter (\<lambda>(i, b). b \<noteq> NO_MASK_BIT) (enumerate 0 (mask_bits d))"
  let ?us = "map (\<lambda>(i, b). (b, Some (of_nat i :: feature_id))) ?ps"
  have ok: "mask_bits_ok (mask_bits d)" using inv by (simp add: dict_inv_def)
  have "map fst ?us = map snd ?ps" by (simp add: case_prod_beta comp_def)
  also have "\<dots> = filter (\<lambda>b. b \<noteq> NO_MASK_BIT) (mask_bits d)"
    by (rule map_snd_filter_enumerate)
  finally have dist: "distinct (map fst ?us)" using ok by (simp add: mask_bits_ok_def)
  have us: "(b, v) \<in> set ?us \<longleftrightarrow>
      (\<exists>j < length (mask_bits d). mask_bits d ! j = b \<and> v = Some (of_nat j))" for v
    using assms(2) by (fastforce simp: in_set_enumerate_eq image_iff NO_MASK_BIT_def)
  have mem: "(b, v) \<in> set ?us \<longleftrightarrow> (\<exists>i. v = Some i \<and> mask_bit d i = b)" for v
  proof
    assume "(b, v) \<in> set ?us"
    then obtain j where "j < length (mask_bits d)" "mask_bits d ! j = b" "v = Some (of_nat j)"
      using us by blast
    then show "\<exists>i. v = Some i \<and> mask_bit d i = b"
      using dict_inv_lengths(3,4) [OF inv] by (simp add: mask_bit_def unat_of_nat_small)
  next
    assume "\<exists>i. v = Some i \<and> mask_bit d i = b"
    then obtain i where i: "v = Some i" "mask_bit d i = b" by blast
    then have "unat i < length (mask_bits d)" "mask_bits d ! unat i = b"
      using assms(2) by (auto simp: mask_bit_def NO_MASK_BIT_def split: if_splits)
    then show "(b, v) \<in> set ?us" unfolding us using i(1) by (intro exI [of _ "unat i"]) simp
  qed
  show ?thesis
  proof (cases "\<exists>v. (b, v) \<in> set ?us")
    case True
    then obtain v where v: "(b, v) \<in> set ?us" by blast
    then have "mask_inverse d ! b = v" unfolding mask_inverse_def
      using assms(2) by (intro write_all_written [OF dist]) simp_all
    moreover obtain i' where i': "v = Some i'" "mask_bit d i' = b" using v mem by blast
    moreover have "i = i'" if "mask_bit d i = b"
      using mask_bit_inj [OF inv, of i i'] that i'(2) assms(2) by (simp add: NO_MASK_BIT_def)
    ultimately show ?thesis by auto
  next
    case False
    then have "b \<notin> fst ` set ?us" by (intro not_in_fstI) blast
    then have "mask_inverse d ! b = None" unfolding mask_inverse_def
      using assms(2) by (subst write_all_untouched) auto
    then show ?thesis using False mem by auto
  qed
qed

section \<open>Properties\<close>

text \<open>C34: interning keeps the dictionary invariant, the name it interns resolves to the id it
  returns, ids given earlier never move, and a name outside the dictionary gets an id in the
  synthetic range, which no interned name has.\<close>

theorem intern_correct:
  assumes "dict_inv d" "length (names d) < 2 ^ 31" "intern n k d = (i, d')"
  shows "dict_inv d' \<and> dict_get d' n = Some i \<and> get_or_synthetic d' n = i \<and> \<not> is_synthetic i \<and>
         (\<forall>m j. dict_get d m = Some j \<longrightarrow> dict_get d' m = Some j) \<and>
         (\<forall>m. dict_get d' m = None \<longrightarrow> is_synthetic (get_or_synthetic d' m))"
proof -
  have inv: "dict_inv d'" using assms by (rule intern_inv)
  have look: "dict_get d' n = Some i" using assms(3) by (rule intern_lookup)
  then have "\<not> is_synthetic i" using inv interned_not_synthetic by (simp add: dict_get_def)
  moreover have "get_or_synthetic d' n = i" using look by (simp add: get_or_synthetic_def dict_get_def)
  moreover have "is_synthetic (get_or_synthetic d' m)" if "dict_get d' m = None" for m
    using that by (simp add: get_or_synthetic_def dict_get_def)
  ultimately show ?thesis using inv look intern_stable [OF assms(3)] by blast
qed

theorem intern_correct_witness:
  "dict_inv (snd (intern (rstr ''nike'') Brand dict_new)) \<and>
   dict_get (snd (intern (rstr ''nike'') Brand dict_new)) (rstr ''nike'') = Some 0"
proof -
  have "intern (rstr ''nike'') Brand dict_new = (0, snd (intern (rstr ''nike'') Brand dict_new))"
    by (simp add: intern_def dict_new_def Let_def)
  moreover have "length (names dict_new) < 2 ^ 31" by (simp add: dict_new_def)
  ultimately show ?thesis using intern_correct [OF dict_inv_new] by blast
qed

text \<open>C35: finalizing the mask of an open dictionary, whatever order the unstable sort gives
  to ties, keeps the invariant (so no two features share a bit), gives the bits below 64 to
  features at least as frequent as every feature left without one, gives \<open>min 64 n\<close> bits, and
  is undone by \<open>mask_inverse\<close>; on a finalized dictionary it changes nothing.\<close>

theorem finalize_mask_correct:
  assumes inv: "dict_inv d" and srt: "sorts_descending srt"
  defines "d' \<equiv> finalize_mask srt d"
  shows "dict_inv d' \<and> finalize_mask srt d' = d' \<and>
         (finalized d \<longrightarrow> d' = d) \<and>
         (\<not> finalized d \<longrightarrow>
            (\<forall>i j. mask_bit d' i \<noteq> NO_MASK_BIT \<and> mask_bit d' j = NO_MASK_BIT \<longrightarrow> freq d j \<le> freq d i) \<and>
            (\<forall>b < 64. (\<exists>i. mask_bit d' i = b) \<longleftrightarrow> b < length (names d))) \<and>
         (\<forall>b < 64. \<forall>i. mask_inverse d' ! b = Some i \<longleftrightarrow> mask_bit d' i = b)"
proof -
  have inv': "dict_inv d'" unfolding d'_def using inv srt by (rule finalize_mask_inv)
  have fin: "finalized d'" by (simp add: d'_def finalize_mask_def Let_def)
  define idx where "idx = srt (freq d) (map of_nat [0..<length (names d)])"
  note r = ranked_ids [OF srt dict_inv_lengths(4) [OF inv] idx_def]
  have bit: "mask_bit d' i = b \<longleftrightarrow> b < length idx \<and> idx ! b = i"
    if "\<not> finalized d" "b < 64" for i b
    using finalize_mask_bit [OF inv srt that] by (simp add: d'_def Let_def idx_def)
  have top: "freq d j \<le> freq d i"
    if open_dict: "\<not> finalized d" and bits: "mask_bit d' i \<noteq> NO_MASK_BIT" "mask_bit d' j = NO_MASK_BIT" for i j
  proof (cases "j \<in> set idx")
    case True
    then obtain p where p: "p < length idx" "idx ! p = j" by (auto simp: in_set_conv_nth)
    with bit [OF open_dict, of p j] bits(2) have "64 \<le> p" by (cases "p < 64") (auto simp: NO_MASK_BIT_def)
    moreover have "mask_bit d' i < 64" using mask_bit_le [OF inv', of i] bits(1) by (simp add: NO_MASK_BIT_def)
    moreover from this have "idx ! mask_bit d' i = i" using bit [OF open_dict, of "mask_bit d' i" i] by simp
    ultimately show ?thesis using r(4) p by (metis less_le_trans sorted_wrt_nth_less)
  next
    case False
    then show ?thesis using r(3) dict_inv_lengths(2) [OF inv] by (simp add: freq_def)
  qed
  have count: "(\<exists>i. mask_bit d' i = b) \<longleftrightarrow> b < length (names d)" if "\<not> finalized d" "b < 64" for b
    using bit [OF that] r(2) by simp
  have idem: "finalize_mask srt d' = d'" using fin by (simp add: finalize_mask_def)
  have same: "d' = d" if "finalized d" using that by (simp add: d'_def finalize_mask_def)
  show ?thesis
    by (intro conjI impI allI)
       (rule inv' idem same top count mask_inverse_nth [OF inv'] | assumption | erule conjunct1 conjunct2)+
qed

theorem finalize_mask_correct_witness:
  "\<not> finalized (snd (intern (rstr ''nike'') Brand dict_new)) \<and>
   dict_inv (finalize_mask stable_desc_sort (snd (intern (rstr ''nike'') Brand dict_new)))"
proof -
  let ?d = "snd (intern (rstr ''nike'') Brand dict_new)"
  have "dict_inv ?d"
    by (rule intern_inv [OF dict_inv_new, of "rstr ''nike''" Brand "fst (intern (rstr ''nike'') Brand dict_new)"])
       (simp_all add: dict_new_def)
  note c = finalize_mask_correct [OF this sorts_descending_stable]
  have "\<not> finalized ?d" by (simp add: intern_def dict_new_def Let_def)
  then show ?thesis using c [THEN conjunct1] by simp
qed

text \<open>The byte tag of a kind decodes to that kind and no other byte decodes to it.\<close>

theorem kind_tag_roundtrip: "kind_from_tag t = Some k \<longleftrightarrow> t = kind_tag k"
  by (rule kind_from_tag_Some_iff)

end
