(* ===== verification/Phrase_Graph.thy ===== *)
theory Phrase_Graph
  imports Feature_Dict
begin

text \<open>
  Quoted phrases as token graphs (\<open>engine/src/normalize.rs\<close> and
  \<open>engine/src/normalize/core/phrase.rs\<close>): the edge types with their derived order, the
  grouping of analyzed edges into a query graph, the unbounded search and the bounded search
  whose exhausted budget is reported as None. Both searches are related to the existence of
  a common path in the query graph and the title graph.
\<close>

section \<open>Graphs\<close>

datatype position_arc = PositionArc (pa_feature: feature_id) (pa_start: u32) (pa_end: u32)

datatype phrase_arc =
  PhraseArc (arc_start: u32) (arc_end: u32) (alternatives: "feature_id list")

datatype phrase_graph = PhraseGraph (positions: u32) (arcs: "phrase_arc list")

text \<open>The derived orders compare the fields lexicographically.\<close>

instantiation phrase_arc :: linorder
begin

definition less_eq_phrase_arc :: "phrase_arc \<Rightarrow> phrase_arc \<Rightarrow> bool" where
  "less_eq_phrase_arc a b \<longleftrightarrow>
     (arc_start a, arc_end a, alternatives a) \<le> (arc_start b, arc_end b, alternatives b)"

definition less_phrase_arc :: "phrase_arc \<Rightarrow> phrase_arc \<Rightarrow> bool" where
  "less_phrase_arc a b \<longleftrightarrow>
     (arc_start a, arc_end a, alternatives a) < (arc_start b, arc_end b, alternatives b)"

instance
proof
  fix a b :: phrase_arc
  show "(a < b) = (a \<le> b \<and> \<not> b \<le> a)"
    by (simp add: less_phrase_arc_def less_eq_phrase_arc_def less_le_not_le)
  show "a \<le> b \<Longrightarrow> b \<le> a \<Longrightarrow> a = b"
    unfolding less_eq_phrase_arc_def by (drule (1) antisym) (simp add: phrase_arc.expand)
qed (auto simp: less_eq_phrase_arc_def intro: order_trans)

end

instantiation phrase_graph :: linorder
begin

definition less_eq_phrase_graph :: "phrase_graph \<Rightarrow> phrase_graph \<Rightarrow> bool" where
  "less_eq_phrase_graph a b \<longleftrightarrow> (positions a, arcs a) \<le> (positions b, arcs b)"

definition less_phrase_graph :: "phrase_graph \<Rightarrow> phrase_graph \<Rightarrow> bool" where
  "less_phrase_graph a b \<longleftrightarrow> (positions a, arcs a) < (positions b, arcs b)"

instance
proof
  fix a b :: phrase_graph
  show "(a < b) = (a \<le> b \<and> \<not> b \<le> a)"
    by (simp add: less_phrase_graph_def less_eq_phrase_graph_def less_le_not_le)
  show "a \<le> b \<Longrightarrow> b \<le> a \<Longrightarrow> a = b"
    unfolding less_eq_phrase_graph_def by (drule (1) antisym) (simp add: phrase_graph.expand)
qed (auto simp: less_eq_phrase_graph_def intro: order_trans)

end

definition PHRASE_GRAPH_MAX_STATES :: nat where
  "PHRASE_GRAPH_MAX_STATES = 65536"

definition PHRASE_GRAPH_MAX_WORK :: nat where
  "PHRASE_GRAPH_MAX_WORK = 65536"

section \<open>Grouping analyzed edges\<close>

definition arc_key :: "position_arc \<Rightarrow> u32 \<times> u32 \<times> feature_id" where
  "arc_key a = (pa_start a, pa_end a, pa_feature a)"

definition push_grouped :: "phrase_arc list \<Rightarrow> position_arc \<Rightarrow> phrase_arc list" where
  "push_grouped grouped arc =
     (if grouped \<noteq> [] \<and> arc_start (last grouped) = pa_start arc \<and> arc_end (last grouped) = pa_end arc
      then butlast grouped @
        [PhraseArc (pa_start arc) (pa_end arc) (alternatives (last grouped) @ [pa_feature arc])]
      else grouped @ [PhraseArc (pa_start arc) (pa_end arc) [pa_feature arc]])"

definition canonical_arcs :: "position_arc list \<Rightarrow> position_arc list" where
  "canonical_arcs as = remdups_adj (sort_key arc_key as)"

definition phrase_graph_of :: "u32 \<Rightarrow> position_arc list \<Rightarrow> phrase_graph" where
  "phrase_graph_of n as = PhraseGraph n (foldl push_grouped [] (canonical_arcs as))"

definition span :: "phrase_arc \<Rightarrow> u32 \<times> u32" where
  "span a = (arc_start a, arc_end a)"

definition edges :: "phrase_arc list \<Rightarrow> (u32 \<times> u32 \<times> feature_id) set" where
  "edges as = {(arc_start a, arc_end a, f) | a f. a \<in> set as \<and> f \<in> set (alternatives a)}"

lemma edges_append: "edges (as @ bs) = edges as \<union> edges bs"
  by (auto simp: edges_def)

lemma edges_single: "edges [a] = (\<lambda>f. (arc_start a, arc_end a, f)) ` set (alternatives a)"
  by (auto simp: edges_def)

text \<open>Canonical graphs: one edge per span, in span order, with sorted labels.\<close>

definition canonical_graph :: "phrase_graph \<Rightarrow> bool" where
  "canonical_graph q \<longleftrightarrow> strict_sorted (map span (arcs q)) \<and>
     list_all (\<lambda>a. alternatives a \<noteq> [] \<and> strict_sorted (alternatives a)) (arcs q)"

lemma inj_arc_key: "inj arc_key"
  by (auto simp: inj_def arc_key_def position_arc.expand)

lemma canonical_arcs_sorted: "strict_sorted (map arc_key (canonical_arcs as))"
proof -
  have "map arc_key (canonical_arcs as) = sort_dedup (map arc_key as)"
    unfolding canonical_arcs_def sort_dedup_def
    using inj_arc_key properties_for_sort [of "map arc_key (sort_key arc_key as)" "map arc_key as"]
    by (simp add: remdups_adj_map_injective)
  then show ?thesis by simp
qed

lemma set_canonical_arcs [simp]: "set (canonical_arcs as) = set as"
  by (simp add: canonical_arcs_def)

lemma strict_sorted_snoc:
  "strict_sorted xs \<Longrightarrow> xs \<noteq> [] \<Longrightarrow> last xs < x \<Longrightarrow> strict_sorted (xs @ [x])"
  for x :: "'a::linorder"
  by (induction xs) (auto simp: sorted_wrt_append split: if_splits intro: less_trans dest: last_in_set)

lemma push_grouped_canonical:
  assumes "strict_sorted (map arc_key as)" and g: "g = foldl push_grouped [] as"
  shows "canonical_graph (PhraseGraph n g) \<and> edges g = arc_key ` set as \<and> (g = [] \<longleftrightarrow> as = []) \<and>
    (as \<noteq> [] \<longrightarrow> span (last g) = (pa_start (last as), pa_end (last as)) \<and>
       last (alternatives (last g)) = pa_feature (last as))"
  using assms
proof (induction as arbitrary: g rule: rev_induct)
  case Nil
  then show ?case by (simp add: canonical_graph_def edges_def)
next
  case (snoc x as)
  define g' where "g' = foldl push_grouped [] as"
  have g: "g = push_grouped g' x" using snoc.prems(2) by (simp add: g'_def)
  have srt: "strict_sorted (map arc_key as)" using snoc.prems(1) by (simp add: sorted_wrt_append)
  note ih = snoc.IH [OF srt g'_def]
  show ?case
  proof (cases "as = []")
    case True
    then show ?thesis
      by (simp add: g g'_def push_grouped_def canonical_graph_def edges_def span_def arc_key_def)
  next
    case False
    define l where "l = last g'"
    have split: "g' = butlast g' @ [l]" "g' \<noteq> []" using ih False by (simp_all add: l_def)
    have l: "span l = (pa_start (last as), pa_end (last as))"
        "last (alternatives l) = pa_feature (last as)" and e: "edges g' = arc_key ` set as"
      using ih False by (simp_all add: l_def)
    have can: "strict_sorted (map span g')" "alternatives l \<noteq> []" "strict_sorted (alternatives l)"
        "list_all (\<lambda>a. alternatives a \<noteq> [] \<and> strict_sorted (alternatives a)) g'"
      using ih split(2) by (auto simp: canonical_graph_def list_all_iff l_def)
    have "arc_key (last as) < arc_key x"
      using snoc.prems(1) False by (simp add: sorted_wrt_append)
    then have lt: "(pa_start (last as), pa_end (last as), pa_feature (last as)) <
        (pa_start x, pa_end x, pa_feature x)" by (simp add: arc_key_def)
    show ?thesis
    proof (cases "span l = (pa_start x, pa_end x)")
      case True
      have gx: "g = butlast g' @ [PhraseArc (pa_start x) (pa_end x) (alternatives l @ [pa_feature x])]"
        using split True by (simp add: g push_grouped_def l_def span_def)
      have "pa_feature (last as) < pa_feature x" using lt l(1) True by auto
      then have "strict_sorted (alternatives l @ [pa_feature x])"
        using strict_sorted_snoc [OF can(3,2)] l(2) by simp
      moreover have "map span g = map span g'"
        using True by (subst split(1)) (simp add: gx span_def)
      moreover have "list_all (\<lambda>a. alternatives a \<noteq> [] \<and> strict_sorted (alternatives a)) (butlast g')"
        using can(4) by (auto simp: list_all_iff dest: in_set_butlastD)
      moreover have "edges g = insert (arc_key x) (edges g')"
      proof -
        have "edges g' = edges (butlast g') \<union> edges [l]"
          by (subst split(1)) (rule edges_append)
        then show ?thesis using True
          by (simp add: gx edges_append edges_single arc_key_def span_def)
      qed
      ultimately show ?thesis using can(1) e
        by (simp add: canonical_graph_def gx span_def)
    next
      case False
      have gx: "g = g' @ [PhraseArc (pa_start x) (pa_end x) [pa_feature x]]"
        using split(2) False by (auto simp: g push_grouped_def l_def span_def)
      have "span l < (pa_start x, pa_end x)" using lt l(1) False by auto
      then have "strict_sorted (map span g' @ [(pa_start x, pa_end x)])"
        using strict_sorted_snoc [OF can(1)] split(2) by (simp add: l_def last_map)
      moreover have "edges g = insert (arc_key x) (edges g')"
        by (simp add: gx edges_append edges_single arc_key_def)
      ultimately show ?thesis using can(4) e
        by (simp add: canonical_graph_def gx span_def)
    qed
  qed
qed

lemma phrase_graph_of_canonical: "canonical_graph (phrase_graph_of n as)"
  using push_grouped_canonical [OF canonical_arcs_sorted refl] by (simp add: phrase_graph_of_def)

lemma edges_phrase_graph_of: "edges (arcs (phrase_graph_of n as)) = arc_key ` set as"
  using push_grouped_canonical [OF canonical_arcs_sorted refl, of n as] by (simp add: phrase_graph_of_def)

section \<open>The unbounded search\<close>

type_synonym search_state = "u32 \<times> u32"

text \<open>
  The stack of the source grows at its end; the model's stack has its top at the head. The
  vector \<open>seen\<close> is kept sorted by binary search insertion.
\<close>

fun visit_title :: "phrase_arc \<Rightarrow> position_arc list \<Rightarrow> search_state list \<times> search_state list \<Rightarrow>
    search_state list \<times> search_state list" where
  "visit_title qa [] (seen, stack) = (seen, stack)"
| "visit_title qa (ta # tas) (seen, stack) =
     (if \<not> search_ok (alternatives qa) (pa_feature ta) then visit_title qa tas (seen, stack)
      else let next = (arc_end qa, pa_end ta) in
        case binary_search seen next of
          Inr _ \<Rightarrow> visit_title qa tas (seen, stack)
        | Inl at \<Rightarrow> visit_title qa tas (take at seen @ next # drop at seen, next # stack))"

definition arcs_at :: "('a \<Rightarrow> u32) \<Rightarrow> u32 \<Rightarrow> 'a list \<Rightarrow> 'a list" where
  "arcs_at f n as = takeWhile (\<lambda>a. f a = n) (dropWhile (\<lambda>a. f a < n) as)"

definition visit_query :: "phrase_arc list \<Rightarrow> position_arc list \<Rightarrow>
    search_state list \<times> search_state list \<Rightarrow> search_state list \<times> search_state list" where
  "visit_query qas tas st = fold (\<lambda>qa. visit_title qa tas) qas st"

partial_function (option) search_loop ::
  "phrase_graph \<Rightarrow> position_arc list \<Rightarrow> search_state list \<Rightarrow> search_state list \<Rightarrow> bool option" where
  "search_loop q t seen stack =
     (if stack = [] then Some False
      else if fst (hd stack) = positions q then Some True
      else let st = visit_query (arcs_at arc_start (fst (hd stack)) (arcs q))
                      (arcs_at pa_start (snd (hd stack)) t) (seen, tl stack)
        in search_loop q t (fst st) (snd st))"

fun search_starts :: "phrase_graph \<Rightarrow> position_arc list \<Rightarrow> u32 list \<Rightarrow> bool option" where
  "search_starts q t [] = Some False"
| "search_starts q t (n # ns) = (case search_loop q t [(0, n)] [(0, n)] of
     None \<Rightarrow> None
   | Some True \<Rightarrow> Some True
   | Some False \<Rightarrow> search_starts q t ns)"

definition u32_range :: "u32 \<Rightarrow> u32 list" where
  "u32_range n = map of_nat [0..<unat n]"

definition phrase_graph_matches :: "phrase_graph \<Rightarrow> u32 \<Rightarrow> position_arc list \<Rightarrow> bool option" where
  "phrase_graph_matches q title_positions t =
     (if positions q = 0 \<or> arcs q = [] then Some False
      else search_starts q t (u32_range title_positions))"

section \<open>The bounded search\<close>

text \<open>
  The state is the spent work, the set of seen states and the stack. The result None is the
  early \<open>return None\<close> of the source.
\<close>

type_synonym bounded_state = "nat \<times> search_state set \<times> search_state list"

fun title_loop ::
  "u32 \<Rightarrow> feature_id list \<Rightarrow> position_arc list \<Rightarrow> bounded_state \<Rightarrow> bounded_state option" where
  "title_loop qe alts [] st = Some st"
| "title_loop qe alts (ta # tas) (work, seen, stack) =
     (if work \<ge> PHRASE_GRAPH_MAX_WORK then None
      else if \<not> search_ok alts (pa_feature ta) then title_loop qe alts tas (Suc work, seen, stack)
      else let next = (qe, pa_end ta) in
        if next \<in> seen then title_loop qe alts tas (Suc work, seen, stack)
        else if card seen \<ge> PHRASE_GRAPH_MAX_STATES then None
        else title_loop qe alts tas (Suc work, insert next seen, next # stack))"

fun query_loop ::
  "u32 \<Rightarrow> position_arc list \<Rightarrow> phrase_arc list \<Rightarrow> bounded_state \<Rightarrow> bounded_state option" where
  "query_loop qn tas [] st = Some st"
| "query_loop qn tas (qa # qas) (work, seen, stack) =
     (if work \<ge> PHRASE_GRAPH_MAX_WORK then None
      else if arc_start qa < qn then query_loop qn tas qas (Suc work, seen, stack)
      else if arc_start qa > qn then Some (Suc work, seen, stack)
      else case title_loop (arc_end qa) (alternatives qa) tas (Suc work, seen, stack) of
          None \<Rightarrow> None
        | Some st \<Rightarrow> query_loop qn tas qas st)"

definition title_slice :: "u32 \<Rightarrow> position_arc list \<Rightarrow> position_arc list" where
  "title_slice tn t =
     (let start = partition_point (\<lambda>a. pa_start a < tn) t;
          n = partition_point (\<lambda>a. pa_start a = tn) (drop start t)
      in take n (drop start t))"

lemma title_loop_work:
  "title_loop qe alts tas (w, seen, stack) = Some (w', seen', stack') \<Longrightarrow>
     w \<le> w' \<and> (w \<le> PHRASE_GRAPH_MAX_WORK \<longrightarrow> w' \<le> PHRASE_GRAPH_MAX_WORK)"
  by (induction qe alts tas "(w, seen, stack)" arbitrary: w seen stack rule: title_loop.induct)
     (fastforce simp: Let_def split: if_splits)+

lemma query_loop_work:
  "query_loop qn tas qas (w, seen, stack) = Some (w', seen', stack') \<Longrightarrow>
     w \<le> w' \<and> (w \<le> PHRASE_GRAPH_MAX_WORK \<longrightarrow> w' \<le> PHRASE_GRAPH_MAX_WORK) \<and>
     (qas \<noteq> [] \<longrightarrow> w < w' \<and> w' \<le> PHRASE_GRAPH_MAX_WORK)"
proof (induction qn tas qas "(w, seen, stack)" arbitrary: w seen stack rule: query_loop.induct)
  case (2 qn tas qa qas w seen stack)
  show ?case
  proof (cases "title_loop (arc_end qa) (alternatives qa) tas (Suc w, seen, stack)")
    case None
    then show ?thesis using 2(1,3) by (fastforce split: if_splits)
  next
    case (Some st)
    obtain w1 seen1 stack1 where st: "st = (w1, seen1, stack1)" by (metis prod_cases3)
    show ?thesis
      using 2(1,3) 2(2) [OF _ _ _ Some [unfolded st]] title_loop_work [OF Some [unfolded st]] Some st
      by (fastforce split: if_splits)
  qed
qed simp

function bounded_loop :: "phrase_graph \<Rightarrow> position_arc list \<Rightarrow> bounded_state \<Rightarrow> bool option" where
  "bounded_loop q t (work, seen, []) = Some False"
| "bounded_loop q t (work, seen, (qn, tn) # rest) =
     (if qn = positions q then Some True
      else case query_loop qn (title_slice tn t) (arcs q) (work, seen, rest) of
          None \<Rightarrow> None
        | Some st \<Rightarrow> bounded_loop q t st)"
  by pat_completeness auto
termination
proof (relation "measures [\<lambda>(q, t, w, seen, stack). PHRASE_GRAPH_MAX_WORK - w,
                           \<lambda>(q, t, w, seen, stack). length stack]", goal_cases)
  case (2 q t w seen qn tn rest st)
  obtain w' seen' stack' where st: "st = (w', seen', stack')" by (metis prod_cases3)
  show ?case
  proof (cases "arcs q = []")
    case True
    then show ?thesis using 2 by auto
  next
    case False
    then have "w < w'" "w' \<le> PHRASE_GRAPH_MAX_WORK" using query_loop_work [OF 2(2) [unfolded st]] by auto
    then have "PHRASE_GRAPH_MAX_WORK - w' < PHRASE_GRAPH_MAX_WORK - w" by linarith
    then show ?thesis by (simp add: st)
  qed
qed simp

definition initial_states :: "u32 \<Rightarrow> search_state list" where
  "initial_states title_positions = rev (map (Pair 0) (u32_range title_positions))"

definition phrase_graph_matches_bounded ::
  "phrase_graph \<Rightarrow> u32 \<Rightarrow> position_arc list \<Rightarrow> bool \<Rightarrow> bool option" where
  "phrase_graph_matches_bounded q title_positions t complete =
     (if \<not> complete then None
      else if positions q = 0 \<or> arcs q = [] then Some False
      else if unat title_positions > PHRASE_GRAPH_MAX_STATES then None
      else bounded_loop q t
             (0, set (initial_states title_positions), initial_states title_positions))"

section \<open>Common paths\<close>

definition product_step ::
  "phrase_graph \<Rightarrow> position_arc list \<Rightarrow> search_state \<Rightarrow> search_state \<Rightarrow> bool" where
  "product_step q t x y \<longleftrightarrow> (\<exists>qa \<in> set (arcs q). \<exists>ta \<in> set t.
     arc_start qa = fst x \<and> pa_start ta = snd x \<and> pa_feature ta \<in> set (alternatives qa) \<and>
     y = (arc_end qa, pa_end ta))"

text \<open>A phrase occurs in a title when some path of the query graph from 0 to its last position
  is also a path of the title graph.\<close>

definition phrase_occurs :: "phrase_graph \<Rightarrow> u32 \<Rightarrow> position_arc list \<Rightarrow> bool" where
  "phrase_occurs q title_positions t \<longleftrightarrow> positions q \<noteq> 0 \<and>
     (\<exists>s e. s < title_positions \<and> (product_step q t)\<^sup>*\<^sup>* (0, s) (positions q, e))"

definition graph_sorted :: "phrase_graph \<Rightarrow> bool" where
  "graph_sorted q \<longleftrightarrow> sorted (map arc_start (arcs q)) \<and> list_all (\<lambda>a. sorted (alternatives a)) (arcs q)"

definition title_sorted :: "position_arc list \<Rightarrow> bool" where
  "title_sorted t \<longleftrightarrow> sorted (map pa_start t)"

lemma set_arcs_at:
  assumes "sorted (map f as)"
  shows "set (arcs_at f n as) = {a \<in> set as. f a = n}"
proof -
  have "arcs_at f n as = filter (\<lambda>a. f a = n) as"
    using assms
  proof (induction as)
    case (Cons a as)
    consider "f a < n" | "f a = n" | "n < f a" by fastforce
    then show ?case
    proof cases
      case 3
      then have "\<forall>b \<in> set as. f b \<noteq> n" using Cons.prems by auto
      with 3 show ?thesis by (auto simp: arcs_at_def filter_empty_conv)
    next
      case 2
      have "dropWhile (\<lambda>a. f a < n) as = as"
        using Cons.prems 2 by (cases as) auto
      with 2 show ?thesis using Cons by (simp add: arcs_at_def)
    qed (use Cons in \<open>simp add: arcs_at_def\<close>)
  qed (simp add: arcs_at_def)
  then show ?thesis by simp
qed

lemma title_slice_eq: "title_slice tn t = arcs_at pa_start tn t"
  by (simp add: title_slice_def arcs_at_def partition_point_def Let_def
      flip: takeWhile_eq_take dropWhile_eq_drop)

section \<open>Search invariants\<close>

text \<open>
  A search has seen the starts and only states reachable from them; a seen state that has
  left the stack is not a goal and all its successors are seen.
\<close>

definition search_inv ::
  "('s \<Rightarrow> 's \<Rightarrow> bool) \<Rightarrow> 's set \<Rightarrow> ('s \<Rightarrow> bool) \<Rightarrow> 's set \<Rightarrow> 's list \<Rightarrow> bool" where
  "search_inv step starts goal seen stack \<longleftrightarrow>
     set stack \<subseteq> seen \<and> starts \<subseteq> seen \<and> (\<forall>x \<in> seen. \<exists>s \<in> starts. step\<^sup>*\<^sup>* s x) \<and>
     (\<forall>x \<in> seen - set stack. \<not> goal x \<and> (\<forall>y. step x y \<longrightarrow> y \<in> seen))"

text \<open>\<open>extends S\<close>: the states of \<open>S\<close> not seen yet were marked and pushed.\<close>

definition extends :: "'s set \<Rightarrow> 's set \<Rightarrow> 's list \<Rightarrow> 's set \<Rightarrow> 's list \<Rightarrow> bool" where
  "extends S seen stack seen' stack' \<longleftrightarrow> (\<exists>news. distinct news \<and> set news \<inter> seen = {} \<and>
     seen' = seen \<union> set news \<and> stack' = news @ stack \<and> set news \<subseteq> S \<and> S \<subseteq> seen')"

lemma extends_refl: "S \<subseteq> seen \<Longrightarrow> extends S seen stack seen stack"
  by (auto simp: extends_def)

lemma extends_trans:
  assumes "extends S1 a as b bs" "extends S2 b bs c cs"
  shows "extends (S1 \<union> S2) a as c cs"
proof -
  obtain n1 n2 where
    "distinct n1" "set n1 \<inter> a = {}" "b = a \<union> set n1" "bs = n1 @ as" "set n1 \<subseteq> S1" "S1 \<subseteq> b"
    "distinct n2" "set n2 \<inter> b = {}" "c = b \<union> set n2" "cs = n2 @ bs" "set n2 \<subseteq> S2" "S2 \<subseteq> c"
    using assms unfolding extends_def by blast
  then show ?thesis unfolding extends_def
    by (intro exI [of _ "n2 @ n1"]) auto
qed

lemma extends_push: "x \<notin> seen \<Longrightarrow> extends {x} seen stack (insert x seen) (x # stack)"
  unfolding extends_def by (intro exI [of _ "[x]"]) auto

lemma extends_measure:
  fixes seen :: "'s::finite set"
  assumes "extends S seen stack seen' stack'"
  shows "card (- seen') < card (- seen) \<or> seen' = seen \<and> stack' = stack"
proof -
  obtain news where "set news \<inter> seen = {}" "seen' = seen \<union> set news" "stack' = news @ stack"
    using assms unfolding extends_def by blast
  then show ?thesis by (cases news) (auto intro!: psubset_card_mono)
qed

lemma search_inv_init: "search_inv step (set stack) goal (set stack) stack"
  by (auto simp: search_inv_def)

lemma search_inv_step:
  assumes "search_inv step starts goal seen (x # stack)" "\<not> goal x"
    and "extends {y. step x y} seen stack seen' stack'"
  shows "search_inv step starts goal seen' stack'"
proof -
  obtain news where news: "seen' = seen \<union> set news" "stack' = news @ stack"
    "set news \<subseteq> {y. step x y}" "{y. step x y} \<subseteq> seen'"
    using assms(3) unfolding extends_def by blast
  have x: "x \<in> seen" using assms(1) by (simp add: search_inv_def)
  have "\<exists>s \<in> starts. step\<^sup>*\<^sup>* s y" if "y \<in> seen'" for y
  proof (cases "y \<in> seen")
    case False
    then have "step x y" using that news by auto
    moreover obtain s where "s \<in> starts" "step\<^sup>*\<^sup>* s x"
      using assms(1) x unfolding search_inv_def by blast
    ultimately show ?thesis by (blast intro: rtranclp.rtrancl_into_rtrancl)
  qed (use assms(1) in \<open>unfold search_inv_def, blast\<close>)
  moreover have "\<not> goal y \<and> (\<forall>z. step y z \<longrightarrow> z \<in> seen')" if "y \<in> seen' - set stack'" for y
  proof (cases "y = x")
    case True
    then show ?thesis using assms(2) news(4) by blast
  next
    case False
    then have "y \<in> seen - set (x # stack)" using that news by auto
    then show ?thesis using assms(1) news(1) unfolding search_inv_def by blast
  qed
  moreover have "set stack' \<subseteq> seen'" "starts \<subseteq> seen'"
    using assms(1) news by (auto simp: search_inv_def)
  ultimately show ?thesis unfolding search_inv_def by blast
qed

lemma search_inv_found:
  assumes "search_inv step starts goal seen (x # stack)" "goal x"
  shows "\<exists>s \<in> starts. \<exists>g. step\<^sup>*\<^sup>* s g \<and> goal g"
proof -
  have "x \<in> seen" using assms(1) by (simp add: search_inv_def)
  then show ?thesis using assms unfolding search_inv_def by blast
qed

lemma search_inv_exhausted:
  assumes "search_inv step starts goal seen []"
  shows "\<not> (\<exists>s \<in> starts. \<exists>g. step\<^sup>*\<^sup>* s g \<and> goal g)"
proof -
  have sub: "starts \<subseteq> seen" and closed: "\<And>x y. x \<in> seen \<Longrightarrow> step x y \<Longrightarrow> y \<in> seen"
    and no: "\<And>x. x \<in> seen \<Longrightarrow> \<not> goal x"
    using assms by (simp_all add: search_inv_def)
  have "y \<in> seen" if "step\<^sup>*\<^sup>* s y" "s \<in> starts" for s y
    using that(1) by (induction rule: rtranclp_induct) (use that(2) sub closed in auto)
  then show ?thesis using no by blast
qed

section \<open>Both searches decide common paths\<close>

definition arc_succs :: "u32 \<Rightarrow> feature_id list \<Rightarrow> position_arc list \<Rightarrow> search_state set" where
  "arc_succs qe alts tas = {(qe, pa_end ta) | ta. ta \<in> set tas \<and> search_ok alts (pa_feature ta)}"

lemma arc_succs_Cons:
  "arc_succs qe alts (ta # tas) =
     (if search_ok alts (pa_feature ta) then {(qe, pa_end ta)} else {}) \<union> arc_succs qe alts tas"
  by (auto simp: arc_succs_def)

lemma title_loop_extends:
  "title_loop qe alts tas (w, seen, stack) = Some (w', seen', stack') \<Longrightarrow>
     extends (arc_succs qe alts tas) seen stack seen' stack'"
proof (induction qe alts tas "(w, seen, stack)" arbitrary: w seen stack rule: title_loop.induct)
  case (2 qe alts ta tas w seen stack)
  let ?n = "(qe, pa_end ta)"
  show ?case
  proof (cases "search_ok alts (pa_feature ta) \<and> ?n \<notin> seen")
    case True
    then have "extends (arc_succs qe alts tas) (insert ?n seen) (?n # stack) seen' stack'"
      using 2 by (simp add: Let_def split: if_splits)
    then show ?thesis
      using True extends_trans [OF extends_push [of ?n seen stack]] by (simp add: arc_succs_Cons)
  next
    case False
    then have "extends (arc_succs qe alts tas) seen stack seen' stack'"
      using 2 by (auto simp: Let_def split: if_splits)
    moreover have "extends (if search_ok alts (pa_feature ta) then {?n} else {}) seen stack seen stack"
      using False by (intro extends_refl) auto
    ultimately show ?thesis using extends_trans unfolding arc_succs_Cons by blast
  qed
qed (simp add: extends_refl arc_succs_def)

definition node_succs :: "u32 \<Rightarrow> position_arc list \<Rightarrow> phrase_arc list \<Rightarrow> search_state set" where
  "node_succs qn tas qas =
     (\<Union>qa \<in> {qa \<in> set qas. arc_start qa = qn}. arc_succs (arc_end qa) (alternatives qa) tas)"

lemma query_loop_extends:
  assumes "query_loop qn tas qas (w, seen, stack) = Some (w', seen', stack')"
    and "sorted (map arc_start qas)"
  shows "extends (node_succs qn tas qas) seen stack seen' stack'"
  using assms
proof (induction qn tas qas "(w, seen, stack)" arbitrary: w seen stack rule: query_loop.induct)
  case (2 qn tas qa qas w seen stack)
  have cons: "node_succs qn tas (qa # qas) =
      (if arc_start qa = qn then arc_succs (arc_end qa) (alternatives qa) tas else {}) \<union>
      node_succs qn tas qas"
    by (auto simp: node_succs_def)
  consider "arc_start qa < qn" | "arc_start qa > qn" | "arc_start qa = qn" by fastforce
  then show ?case
  proof cases
    case 1
    then have "extends (node_succs qn tas qas) seen stack seen' stack'"
      using 2(1) 2(3,4) by (simp split: if_splits)
    then show ?thesis using 1 by (auto simp: cons)
  next
    case 2: 2
    then have "node_succs qn tas (qa # qas) = {}"
      using \<open>sorted (map arc_start (qa # qas))\<close> by (fastforce simp: node_succs_def)
    then show ?thesis
      using 2 \<open>query_loop qn tas (qa # qas) (w, seen, stack) = Some (w', seen', stack')\<close>
      by (simp add: extends_refl split: if_splits)
  next
    case 3
    then obtain st where t: "title_loop (arc_end qa) (alternatives qa) tas (Suc w, seen, stack) = Some st"
      and work: "\<not> PHRASE_GRAPH_MAX_WORK \<le> w" and q: "query_loop qn tas qas st = Some (w', seen', stack')"
      using 2(3) by (auto split: if_splits option.splits)
    obtain w1 seen1 stack1 where st: "st = (w1, seen1, stack1)" by (metis prod_cases3)
    have "extends (node_succs qn tas qas) seen1 stack1 seen' stack'"
      using 2(2) [OF work _ _ t [unfolded st] q [unfolded st]] 2(4) 3 by simp
    then show ?thesis
      using extends_trans [OF title_loop_extends [OF t [unfolded st]]] 3 by (simp add: cons)
  qed
qed (simp add: extends_refl node_succs_def)

lemma node_succs_product:
  assumes "graph_sorted q" "title_sorted t"
  shows "node_succs qn (arcs_at pa_start tn t) (arcs q) = {y. product_step q t (qn, tn) y}"
proof -
  have ok: "search_ok (alternatives qa) f \<longleftrightarrow> f \<in> set (alternatives qa)" if "qa \<in> set (arcs q)" for qa f
    using assms(1) that by (intro search_ok_iff) (auto simp: graph_sorted_def list_all_iff)
  have "y \<in> node_succs qn (arcs_at pa_start tn t) (arcs q) \<longleftrightarrow>
      (\<exists>qa \<in> set (arcs q). arc_start qa = qn \<and> (\<exists>ta \<in> set t. pa_start ta = tn \<and>
         search_ok (alternatives qa) (pa_feature ta) \<and> y = (arc_end qa, pa_end ta)))" for y
    using assms(2) by (auto simp: node_succs_def arc_succs_def set_arcs_at title_sorted_def)
  then show ?thesis using ok by (auto simp: product_step_def)
qed

abbreviation at_end :: "phrase_graph \<Rightarrow> search_state \<Rightarrow> bool" where
  "at_end q x \<equiv> fst x = positions q"

abbreviation path_from :: "phrase_graph \<Rightarrow> position_arc list \<Rightarrow> search_state set \<Rightarrow> bool" where
  "path_from q t starts \<equiv> (\<exists>s \<in> starts. \<exists>g. (product_step q t)\<^sup>*\<^sup>* s g \<and> at_end q g)"

lemma bounded_loop_sound:
  assumes "graph_sorted q" "title_sorted t"
    and "search_inv (product_step q t) starts (at_end q) seen stack"
    and "bounded_loop q t (w, seen, stack) = Some b"
  shows "b \<longleftrightarrow> path_from q t starts"
  using assms
proof (induction q t "(w, seen, stack)" arbitrary: w seen stack rule: bounded_loop.induct)
  case (1 q t w seen)
  then show ?case using search_inv_exhausted [OF 1(3)] by simp
next
  case (2 q t w seen qn tn rest)
  show ?case
  proof (cases "qn = positions q")
    case True
    then show ?thesis using 2(5) search_inv_found [OF 2(4)] by simp
  next
    case False
    then obtain st where ql: "query_loop qn (title_slice tn t) (arcs q) (w, seen, rest) = Some st"
      and b: "bounded_loop q t st = Some b"
      using 2(5) by (auto split: option.splits)
    obtain w' seen' stack' where st: "st = (w', seen', stack')" by (metis prod_cases3)
    have "extends {y. product_step q t (qn, tn) y} seen rest seen' stack'"
      using query_loop_extends [OF ql [unfolded st]] 2(2,3)
      by (simp add: title_slice_eq node_succs_product graph_sorted_def)
    then have "search_inv (product_step q t) starts (at_end q) seen' stack'"
      using search_inv_step [OF 2(4)] False by simp
    then show ?thesis using 2(1) [OF False ql [unfolded st] 2(2,3)] b st by simp
  qed
qed

lemma binary_insert:
  assumes "strict_sorted seen" "binary_search seen x = Inl at"
  shows "strict_sorted (take at seen @ x # drop at seen)" "x \<notin> set seen"
proof -
  have r: "at \<le> length seen" "\<forall>j < at. seen ! j < x" "\<forall>j. at \<le> j \<and> j < length seen \<longrightarrow> x < seen ! j"
    using assms binary_search_correct [of seen x]
    by (simp_all add: strict_sorted_sorted search_result_def)
  have low: "\<forall>y \<in> set (take at seen). y < x"
    using r(1,2) by (auto simp: in_set_conv_nth)
  have high: "\<forall>y \<in> set (drop at seen). x < y"
    using r(1,3) by (auto simp: in_set_conv_nth)
  have split: "seen = take at seen @ drop at seen" by simp
  show "x \<notin> set seen"
    using low high by (subst split, unfold set_append) fastforce
  have "strict_sorted (take at seen)" "strict_sorted (drop at seen)"
    using assms(1) by (simp_all add: sorted_wrt_take sorted_wrt_drop)
  moreover have "y < z" if "y \<in> set (take at seen)" "z \<in> set (drop at seen)" for y z
    using low high that by (meson less_trans)
  ultimately show "strict_sorted (take at seen @ x # drop at seen)"
    using low high by (simp add: sorted_wrt_append)
qed

lemma visit_title_extends:
  assumes "visit_title qa tas (seen, stack) = (seen', stack')" "strict_sorted seen"
  shows "strict_sorted seen' \<and>
    extends (arc_succs (arc_end qa) (alternatives qa) tas) (set seen) stack (set seen') stack'"
  using assms
proof (induction qa tas "(seen, stack)" arbitrary: seen stack rule: visit_title.induct)
  case (2 qa ta tas seen stack)
  let ?n = "(arc_end qa, pa_end ta)"
  let ?S = "if search_ok (alternatives qa) (pa_feature ta) then {?n} else {}"
  show ?case
  proof (cases "search_ok (alternatives qa) (pa_feature ta)")
    case False
    then show ?thesis using 2(1) 2(4,5) by (simp add: arc_succs_Cons)
  next
    case ok: True
    show ?thesis
    proof (cases "binary_search seen ?n")
      case (Inr i)
      then have "search_ok seen ?n" by (simp add: search_ok_def)
      then have "?n \<in> set seen" using 2(5) by (simp add: search_ok_iff strict_sorted_sorted)
      then have "extends {?n} (set seen) stack (set seen) stack" by (intro extends_refl) simp
      then show ?thesis using 2(3) [OF _ refl Inr] 2(4,5) ok Inr extends_trans
        by (fastforce simp: arc_succs_Cons)
    next
      case (Inl at)
      note ins = binary_insert [OF 2(5) Inl]
      have set_ins: "set (take at seen @ ?n # drop at seen) = insert ?n (set seen)"
        by (metis append_take_drop_id list.simps(15) set_append Un_insert_right)
      have push: "extends {?n} (set seen) stack (insert ?n (set seen)) (?n # stack)"
        using ins(2) by (rule extends_push)
      have "visit_title qa tas (take at seen @ ?n # drop at seen, ?n # stack) = (seen', stack')"
        using 2(4) ok Inl by (simp add: Let_def)
      from 2(2) [OF _ refl Inl this ins(1)] ok
      have "strict_sorted seen'" "extends (arc_succs (arc_end qa) (alternatives qa) tas)
          (insert ?n (set seen)) (?n # stack) (set seen') stack'"
        unfolding set_ins by auto
      then show ?thesis using extends_trans [OF push] ok by (simp add: arc_succs_Cons)
    qed
  qed
qed (simp add: extends_refl arc_succs_def)

lemma visit_query_extends:
  assumes "visit_query qas tas (seen, stack) = (seen', stack')" "strict_sorted seen"
  shows "strict_sorted seen' \<and>
    extends (\<Union>qa \<in> set qas. arc_succs (arc_end qa) (alternatives qa) tas) (set seen) stack (set seen') stack'"
  using assms
proof (induction qas arbitrary: seen stack)
  case Nil
  then show ?case by (simp add: visit_query_def extends_refl)
next
  case (Cons qa qas)
  obtain seen1 stack1 where v: "visit_title qa tas (seen, stack) = (seen1, stack1)" by fastforce
  then have "visit_query qas tas (seen1, stack1) = (seen', stack')"
    using Cons.prems(1) by (simp add: visit_query_def)
  then show ?case
    using Cons.IH [of seen1 stack1] visit_title_extends [OF v Cons.prems(2)] extends_trans
    by fastforce
qed

lemma search_loop_total:
  assumes "graph_sorted q" "title_sorted t" "strict_sorted seen"
    and "search_inv (product_step q t) starts (at_end q) (set seen) stack"
  shows "search_loop q t seen stack = Some (path_from q t starts)"
  using assms(3,4)
proof (induction "(seen, stack)" arbitrary: seen stack
    rule: wf_induct_rule [OF wf_measures [of "[\<lambda>(seen :: search_state list, stack). card (- set seen),
      \<lambda>(seen, stack :: search_state list). length stack]"]])
  case (1 seen stack)
  show ?case
  proof (cases stack)
    case Nil
    then show ?thesis using search_inv_exhausted [OF 1(3) [unfolded Nil]]
      by (subst search_loop.simps) simp
  next
    case (Cons x rest)
    obtain qn tn where x: "x = (qn, tn)" by fastforce
    show ?thesis
    proof (cases "qn = positions q")
      case True
      then show ?thesis using Cons x search_inv_found [OF 1(3) [unfolded Cons]]
        by (subst search_loop.simps) simp
    next
      case False
      obtain seen' stack' where v:
        "visit_query (arcs_at arc_start qn (arcs q)) (arcs_at pa_start tn t) (seen, rest) = (seen', stack')"
        by fastforce
      have "(\<Union>qa \<in> set (arcs_at arc_start qn (arcs q)).
               arc_succs (arc_end qa) (alternatives qa) (arcs_at pa_start tn t)) =
            {y. product_step q t (qn, tn) y}"
        using assms(1,2) by (simp add: set_arcs_at graph_sorted_def flip: node_succs_product)
           (simp add: node_succs_def)
      then have ext: "strict_sorted seen'" "extends {y. product_step q t (qn, tn) y} (set seen) rest (set seen') stack'"
        using visit_query_extends [OF v 1(2)] by simp_all
      then have inv: "search_inv (product_step q t) starts (at_end q) (set seen') stack'"
        using search_inv_step 1(3) Cons x False by fastforce
      have "((seen', stack'), (seen, stack)) \<in> measures
          [\<lambda>(seen :: search_state list, stack). card (- set seen), \<lambda>(seen, stack). length stack]"
        using extends_measure [OF ext(2)] Cons by auto
      from 1(1) [OF this ext(1) inv] show ?thesis
        using False Cons x v by (subst search_loop.simps) simp
    qed
  qed
qed

lemma set_u32_range: "set (u32_range n) = {x. x < n}"
proof (intro equalityI subsetI)
  fix x
  assume "x \<in> {x. x < n}"
  then show "x \<in> set (u32_range n)" unfolding u32_range_def
    by (auto simp: word_less_nat_alt intro!: image_eqI [of _ _ "unat x"])
qed (auto simp: u32_range_def word_less_nat_alt unat_of_nat
      intro: le_less_trans [OF take_bit_nat_less_eq_self])

lemma length_u32_range: "length (u32_range n) = unat n"
  by (simp add: u32_range_def)

lemma distinct_u32_range: "distinct (u32_range n)"
proof -
  have "unat n < 2 ^ 32" using unsigned_less [of n] by simp
  then have "unat (of_nat x :: u32) = x" if "x < unat n" for x
    using that by (simp add: unat_of_nat take_bit_nat_eq_self)
  then show ?thesis unfolding u32_range_def distinct_map by (auto intro!: inj_onI) metis
qed

lemma search_starts_total:
  assumes "graph_sorted q" "title_sorted t"
  shows "search_starts q t ns = Some (path_from q t (Pair 0 ` set ns))"
proof (induction ns)
  case (Cons n ns)
  have "search_loop q t [(0, n)] [(0, n)] = Some (path_from q t {(0, n)})"
    using search_loop_total [OF assms, of "[(0, n)]" "{(0, n)}" "[(0, n)]"]
      search_inv_init [of "product_step q t" "[(0, n)]" "at_end q"] by simp
  then show ?case using Cons by (cases "path_from q t {(0, n)}") auto
qed simp

lemma phrase_occurs_path:
  assumes "positions q \<noteq> 0"
  shows "phrase_occurs q n t \<longleftrightarrow> path_from q t (Pair 0 ` {x. x < n})"
  using assms by (auto simp: phrase_occurs_def)

lemma phrase_occurs_no_arcs:
  assumes "positions q = 0 \<or> arcs q = []"
  shows "\<not> phrase_occurs q n t"
proof
  assume "phrase_occurs q n t"
  then obtain s e where "positions q \<noteq> 0" "(product_step q t)\<^sup>*\<^sup>* (0, s) (positions q, e)"
    unfolding phrase_occurs_def by blast
  with assms show False by (auto simp: product_step_def elim: converse_rtranclpE)
qed

lemma bounded_matches_sound:
  assumes "graph_sorted q" "title_sorted t"
    and "phrase_graph_matches_bounded q n t complete = Some b"
  shows "b \<longleftrightarrow> phrase_occurs q n t"
proof (cases "positions q = 0 \<or> arcs q = []")
  case True
  then show ?thesis using assms(3) phrase_occurs_no_arcs [OF True]
    by (auto simp: phrase_graph_matches_bounded_def split: if_splits)
next
  case False
  have "bounded_loop q t (0, set (initial_states n), initial_states n) = Some b"
    using assms(3) False by (auto simp: phrase_graph_matches_bounded_def split: if_splits)
  from bounded_loop_sound [OF assms(1,2) search_inv_init this] False show ?thesis
    by (simp add: phrase_occurs_path initial_states_def set_u32_range)
qed

section \<open>The budget suffices for small graphs\<close>

text \<open>
  Every product state is popped at most once and costs at most one unit per query edge and
  per pair of edges, so the fail-open None needs many states times edges.
\<close>

lemma title_loop_returns:
  assumes "finite U" "card U \<le> PHRASE_GRAPH_MAX_STATES" "seen \<subseteq> U" "arc_succs qe alts tas \<subseteq> U"
    and "w + length tas \<le> PHRASE_GRAPH_MAX_WORK"
  shows "\<exists>seen' stack'. title_loop qe alts tas (w, seen, stack) = Some (w + length tas, seen', stack') \<and> seen' \<subseteq> U"
  using assms(3-)
proof (induction qe alts tas "(w, seen, stack)" arbitrary: w seen stack rule: title_loop.induct)
  case (2 qe alts ta tas w seen stack)
  let ?n = "(qe, pa_end ta)"
  have w: "\<not> PHRASE_GRAPH_MAX_WORK \<le> w" using 2(6) by simp
  show ?case
  proof (cases "search_ok alts (pa_feature ta) \<and> ?n \<notin> seen")
    case True
    then have "insert ?n seen \<subseteq> U" using 2(4,5) by (simp add: arc_succs_Cons)
    then have "card (insert ?n seen) \<le> card U" using assms(1) by (simp add: card_mono)
    moreover have "finite seen" using 2(4) assms(1) finite_subset by blast
    ultimately have "\<not> PHRASE_GRAPH_MAX_STATES \<le> card seen" using True assms(2) by simp
    with True w show ?thesis
      using 2(3) [of ?n] \<open>insert ?n seen \<subseteq> U\<close> 2(5,6) by (simp add: arc_succs_Cons Let_def)
  next
    case False
    then show ?thesis using w 2(1,2) 2(4,5,6)
      by (cases "search_ok alts (pa_feature ta)") (simp_all add: arc_succs_Cons Let_def)
  qed
qed simp

lemma query_loop_returns:
  assumes "finite U" "card U \<le> PHRASE_GRAPH_MAX_STATES" "seen \<subseteq> U"
    and "\<forall>qa \<in> set qas. arc_succs (arc_end qa) (alternatives qa) tas \<subseteq> U"
    and "w + length qas * Suc (length tas) \<le> PHRASE_GRAPH_MAX_WORK"
  shows "\<exists>w' seen' stack'. query_loop qn tas qas (w, seen, stack) = Some (w', seen', stack') \<and>
           w' \<le> w + length qas * Suc (length tas) \<and> seen' \<subseteq> U"
  using assms(3-)
proof (induction qas arbitrary: w seen stack)
  case (Cons qa qas)
  have w: "\<not> PHRASE_GRAPH_MAX_WORK \<le> w" using Cons.prems(3) by simp
  consider "arc_start qa < qn" | "arc_start qa > qn" | "arc_start qa = qn" by fastforce
  then show ?case
  proof cases
    case 1
    then show ?thesis using w Cons.IH [of seen "Suc w" stack] Cons.prems by fastforce
  next
    case 2
    then show ?thesis using w Cons.prems by auto
  next
    case 3
    obtain seen1 stack1 where t: "title_loop (arc_end qa) (alternatives qa) tas (Suc w, seen, stack) =
        Some (Suc w + length tas, seen1, stack1)" "seen1 \<subseteq> U"
      using title_loop_returns [OF assms(1,2) Cons.prems(1), of "arc_end qa" "alternatives qa" tas "Suc w" stack]
        Cons.prems(2,3) by auto
    show ?thesis
      using 3 w t Cons.IH [OF t(2), of "Suc w + length tas" stack1] Cons.prems(2,3) by fastforce
  qed
qed simp

lemma bounded_loop_returns:
  assumes "sorted (map arc_start (arcs q))"
    and U: "finite U" "card U \<le> PHRASE_GRAPH_MAX_STATES"
      "\<forall>qa \<in> set (arcs q). arc_succs (arc_end qa) (alternatives qa) t \<subseteq> U"
    and K: "K = length (arcs q) * Suc (length t)" "K * card U \<le> PHRASE_GRAPH_MAX_WORK"
    and "seen \<subseteq> U" "distinct stack" "set stack \<subseteq> seen" "w \<le> K * (card seen - length stack)"
  shows "\<exists>b. bounded_loop q t (w, seen, stack) = Some b"
  using assms
proof (induction q t "(w, seen, stack)" arbitrary: w seen stack rule: bounded_loop.induct)
  case (2 q t w seen qn tn rest)
  have fin: "finite seen" using 2(3,8) finite_subset by blast
  have len: "length ((qn, tn) # rest) \<le> card seen"
    using 2(9,10) fin by (metis card_mono distinct_card)
  have card_U: "card seen \<le> card U" using 2(3,8) by (simp add: card_mono)
  have step: "K * (card seen - length ((qn, tn) # rest)) + K = K * (card seen - length rest)"
    using len by (metis Suc_diff_Suc Suc_le_lessD add.commute length_Cons mult_Suc_right)
  have "K * (card seen - length rest) \<le> K * card U" using card_U by (intro mult_le_mono2) simp
  then have budget: "w + K \<le> PHRASE_GRAPH_MAX_WORK" using step 2(7,11) by linarith
  have slice: "length (title_slice tn t) \<le> length t" "set (title_slice tn t) \<subseteq> set t"
    by (auto simp: title_slice_def Let_def dest: in_set_takeD in_set_dropD)
  have le: "length (arcs q) * Suc (length (title_slice tn t)) \<le> K" using 2(6) slice(1) by simp
  have sub: "\<forall>qa \<in> set (arcs q). arc_succs (arc_end qa) (alternatives qa) (title_slice tn t) \<subseteq> U"
    using 2(5) slice(2) unfolding arc_succs_def by blast
  have le': "w + length (arcs q) * Suc (length (title_slice tn t)) \<le> PHRASE_GRAPH_MAX_WORK"
    using le budget by linarith
  obtain w' seen' stack' where ql:
    "query_loop qn (title_slice tn t) (arcs q) (w, seen, rest) = Some (w', seen', stack')"
    "w' \<le> w + length (arcs q) * Suc (length (title_slice tn t))" "seen' \<subseteq> U"
    using query_loop_returns [OF 2(3,4,8) sub le', of qn rest] by blast
  obtain news where news: "distinct news" "set news \<inter> seen = {}" "seen' = seen \<union> set news" "stack' = news @ rest"
    using query_loop_extends [OF ql(1) 2(2)] unfolding extends_def by blast
  have "card seen' = card seen + length news" using news fin
    by (simp add: card_Un_disjoint distinct_card Int_commute)
  then have "card seen' - length stack' = card seen - length rest" using news(4) by simp
  then have "w' \<le> K * (card seen' - length stack')"
    using ql(2) le 2(11) by (simp only: flip: step)
  moreover have "distinct stack'" "set stack' \<subseteq> seen'" using news 2(9,10) by auto
  ultimately show ?case using 2(1) [OF _ ql(1) 2(2-7) ql(3)] ql(1) by (cases "qn = positions q") auto
qed auto

text \<open>The states a search can see, and the work it can spend.\<close>

definition search_bound :: "phrase_graph \<Rightarrow> u32 \<Rightarrow> position_arc list \<Rightarrow> nat" where
  "search_bound q n t =
     (unat n + length (arcs q) * length t) * (length (arcs q) * Suc (length t))"

lemma bounded_matches_returns:
  assumes "sorted (map arc_start (arcs q))" "search_bound q n t \<le> PHRASE_GRAPH_MAX_WORK"
  shows "\<exists>b. phrase_graph_matches_bounded q n t True = Some b"
proof (cases "positions q = 0 \<or> arcs q = []")
  case True
  then show ?thesis by (auto simp: phrase_graph_matches_bounded_def)
next
  case False
  define starts where "starts = set (initial_states n)"
  define ends where "ends = (\<lambda>(qa, ta). (arc_end qa, pa_end ta)) ` (set (arcs q) \<times> set t)"
  define K where "K = length (arcs q) * Suc (length t)"
  have "1 \<le> K" using False by (cases "arcs q") (auto simp: K_def)
  have "card starts \<le> unat n"
    unfolding starts_def by (rule order_trans [OF card_length]) (simp add: initial_states_def length_u32_range)
  moreover have "card ends \<le> card (set (arcs q)) * card (set t)"
    unfolding ends_def by (rule order_trans [OF card_image_le]) (simp_all add: card_cartesian_product)
  moreover have "\<dots> \<le> length (arcs q) * length t" by (intro mult_le_mono card_length)
  ultimately have card_U: "card (starts \<union> ends) \<le> unat n + length (arcs q) * length t"
    using card_Un_le [of starts ends] by linarith
  have bound: "search_bound q n t = K * (unat n + length (arcs q) * length t)"
    by (simp add: search_bound_def K_def mult.commute)
  have work: "K * card (starts \<union> ends) \<le> PHRASE_GRAPH_MAX_WORK"
    using assms(2) bound mult_le_mono2 [OF card_U, of K] by linarith
  have n: "unat n + length (arcs q) * length t \<le> PHRASE_GRAPH_MAX_STATES"
    using assms(2) bound mult_le_mono1 [OF \<open>1 \<le> K\<close>, of "unat n + length (arcs q) * length t"]
    unfolding PHRASE_GRAPH_MAX_STATES_def PHRASE_GRAPH_MAX_WORK_def by (metis mult_1 order_trans)
  have "\<exists>b. bounded_loop q t (0, starts, initial_states n) = Some b"
  proof (rule bounded_loop_returns [OF assms(1) _ _ _ K_def work])
    show "card (starts \<union> ends) \<le> PHRASE_GRAPH_MAX_STATES" using card_U n by linarith
    show "\<forall>qa \<in> set (arcs q). arc_succs (arc_end qa) (alternatives qa) t \<subseteq> starts \<union> ends"
      by (auto simp: arc_succs_def ends_def)
    show "distinct (initial_states n)"
      by (simp add: initial_states_def distinct_map distinct_u32_range inj_on_def)
  qed (auto simp: starts_def ends_def)
  then show ?thesis
    using False n by (simp add: phrase_graph_matches_bounded_def starts_def)
qed

section \<open>Properties\<close>

text \<open>C27: the reference search always returns, and decides whether a path of the query graph
  is a path of the title graph.\<close>

theorem phrase_graph_matches_correct:
  assumes "graph_sorted q" "title_sorted t"
  shows "phrase_graph_matches q n t = Some (phrase_occurs q n t)"
  using search_starts_total [OF assms, of "u32_range n"] phrase_occurs_no_arcs [of q n t]
  by (auto simp: phrase_graph_matches_def phrase_occurs_path set_u32_range)

definition sample_graph :: phrase_graph where
  "sample_graph = PhraseGraph 2 [PhraseArc 0 1 [3, 5], PhraseArc 1 2 [7]]"

definition sample_title :: "position_arc list" where
  "sample_title = [PositionArc 9 0 1, PositionArc 5 1 2, PositionArc 7 2 3]"

lemma sample_sorted: "graph_sorted sample_graph" "title_sorted sample_title"
  by (simp_all add: graph_sorted_def title_sorted_def sample_graph_def sample_title_def)

lemma sample_occurs: "phrase_occurs sample_graph 3 sample_title"
proof -
  have "product_step sample_graph sample_title (0, 1) (1, 2)"
    by (simp add: product_step_def sample_graph_def sample_title_def)
  moreover have "product_step sample_graph sample_title (1, 2) (2, 3)"
    by (simp add: product_step_def sample_graph_def sample_title_def)
  ultimately have "(product_step sample_graph sample_title)\<^sup>*\<^sup>* (0, 1) (positions sample_graph, 3)"
    by (simp add: sample_graph_def)
  then show ?thesis unfolding phrase_occurs_def
    by (intro conjI exI [of _ 1] exI [of _ 3]) (simp_all add: sample_graph_def)
qed

theorem phrase_graph_matches_correct_witness:
  "phrase_graph_matches sample_graph 3 sample_title = Some True"
  using phrase_graph_matches_correct [OF sample_sorted, of 3] sample_occurs by simp

text \<open>Whenever the bounded search of the explain path gives an answer, it is the answer of
  the reference search; the only other outcome is the fail-open None.\<close>

theorem phrase_graph_matches_bounded_agrees:
  assumes "graph_sorted q" "title_sorted t"
    and "phrase_graph_matches_bounded q n t complete = Some b"
  shows "phrase_graph_matches q n t = Some b"
  using bounded_matches_sound [OF assms] search_starts_total [OF assms(1,2), of "u32_range n"]
    phrase_occurs_no_arcs [of q n t]
  by (auto simp: phrase_graph_matches_def phrase_occurs_path set_u32_range)

theorem phrase_graph_matches_bounded_agrees_witness:
  "phrase_graph_matches sample_graph 1 [PositionArc 3 0 1] = Some False"
proof (rule phrase_graph_matches_bounded_agrees)
  show "graph_sorted sample_graph" by (rule sample_sorted)
  show "title_sorted [PositionArc 3 0 1]" by (simp add: title_sorted_def)
  show "phrase_graph_matches_bounded sample_graph 1 [PositionArc 3 0 1] True = Some False"
    by (simp add: phrase_graph_matches_bounded_def sample_graph_def initial_states_def
        u32_range_def PHRASE_GRAPH_MAX_STATES_def PHRASE_GRAPH_MAX_WORK_def title_slice_def
        partition_point_def search_ok_def binary_search_def bsearch.simps Let_def)
qed

text \<open>C28: the bounded search is exact on every complete title graph whose product with the
  phrase is small: if the possible states times the cost of one state fit the work budget,
  it returns an answer, and the answer is whether the phrase occurs.\<close>

theorem phrase_graph_matches_bounded_decides:
  assumes "graph_sorted q" "title_sorted t" "search_bound q n t \<le> PHRASE_GRAPH_MAX_WORK"
  shows "phrase_graph_matches_bounded q n t True = Some (phrase_occurs q n t)"
proof -
  obtain b where b: "phrase_graph_matches_bounded q n t True = Some b"
    using bounded_matches_returns assms(1,3) graph_sorted_def by blast
  then show ?thesis using bounded_matches_sound [OF assms(1,2) b] by simp
qed

theorem phrase_graph_matches_bounded_decides_witness:
  "phrase_graph_matches_bounded sample_graph 3 sample_title True = Some True"
proof -
  have "search_bound sample_graph 3 sample_title \<le> PHRASE_GRAPH_MAX_WORK"
    by (simp add: search_bound_def sample_graph_def sample_title_def PHRASE_GRAPH_MAX_WORK_def)
  from phrase_graph_matches_bounded_decides [OF sample_sorted this] sample_occurs show ?thesis
    by simp
qed

text \<open>Grouping the analyzed edges of a quoted clause gives a canonical graph (spans strictly
  increasing, labels sorted and never empty) with exactly the analyzed edges.\<close>

theorem phrase_graph_of_correct:
  "canonical_graph (phrase_graph_of n as) \<and> edges (arcs (phrase_graph_of n as)) = arc_key ` set as"
  by (simp add: phrase_graph_of_canonical edges_phrase_graph_of)

end
