(* ===== verification/Query_Extraction.thy ===== *)
theory Query_Extraction
  imports Phrase_Graph
begin

text \<open>
  The compiled integer form of a query (\<open>engine/src/compile.rs\<close>) and its extraction from a
  syntax tree (\<open>engine/src/compile/extract.rs\<close>): canonical form, equivalence expansion, the
  direct semantic predicate, the column guard, and the two extraction passes. The text
  normalizer is an argument of the extraction, as it is in the source.
\<close>

section \<open>Data\<close>

datatype cost_class = ClassA | ClassB | ClassC | ClassD | ClassH

fun is_opt_in :: "cost_class \<Rightarrow> bool" where
  "is_opt_in ClassC \<longleftrightarrow> True"
| "is_opt_in ClassD \<longleftrightarrow> True"
| "is_opt_in _ \<longleftrightarrow> False"

datatype anyof_member = AnyOfMember (requirements: "feature_id list list")

datatype anyof_predicate = AnyOfPredicate (members: "anyof_member list")

instantiation anyof_member :: linorder
begin

definition less_eq_anyof_member :: "anyof_member \<Rightarrow> anyof_member \<Rightarrow> bool" where
  "less_eq_anyof_member a b \<longleftrightarrow> requirements a \<le> requirements b"

definition less_anyof_member :: "anyof_member \<Rightarrow> anyof_member \<Rightarrow> bool" where
  "less_anyof_member a b \<longleftrightarrow> requirements a < requirements b"

instance
  by standard (auto simp: less_eq_anyof_member_def less_anyof_member_def anyof_member.expand)

end

instantiation anyof_predicate :: linorder
begin

definition less_eq_anyof_predicate :: "anyof_predicate \<Rightarrow> anyof_predicate \<Rightarrow> bool" where
  "less_eq_anyof_predicate a b \<longleftrightarrow> members a \<le> members b"

definition less_anyof_predicate :: "anyof_predicate \<Rightarrow> anyof_predicate \<Rightarrow> bool" where
  "less_anyof_predicate a b \<longleftrightarrow> members a < members b"

instance
  by standard (auto simp: less_eq_anyof_predicate_def less_anyof_predicate_def anyof_predicate.expand)

end

definition from_features :: "feature_id list \<Rightarrow> anyof_member option" where
  "from_features fs =
     (let s = sort_dedup fs in if s = [] then None else Some (AnyOfMember (map (\<lambda>f. [f]) s)))"

definition canonicalize_member :: "anyof_member \<Rightarrow> anyof_member" where
  "canonicalize_member m =
     AnyOfMember (sort_dedup (filter (\<lambda>r. r \<noteq> []) (map sort_dedup (requirements m))))"

definition canonicalize_predicate :: "anyof_predicate \<Rightarrow> anyof_predicate" where
  "canonicalize_predicate p =
     AnyOfPredicate
       (sort_dedup (filter (\<lambda>m. requirements m \<noteq> []) (map canonicalize_member (members p))))"

record extracted =
  required :: "feature_id list"
  forbidden :: "feature_id list"
  anyof :: "feature_id list list"
  semantic_anyof_groups :: u32
  semantic_anyof_terms :: u32
  anyof_predicates :: "anyof_predicate list"
  forbidden_conjunctions :: "feature_id list list"
  required_phrases :: "phrase_graph list"
  forbidden_phrases :: "phrase_graph list"

definition has_negative_predicate :: "extracted \<Rightarrow> bool" where
  "has_negative_predicate ex \<longleftrightarrow>
     forbidden ex \<noteq> [] \<or> forbidden_conjunctions ex \<noteq> [] \<or> forbidden_phrases ex \<noteq> []"

definition is_semantically_empty :: "extracted \<Rightarrow> bool" where
  "is_semantically_empty ex \<longleftrightarrow>
     required ex = [] \<and> anyof ex = [] \<and> anyof_predicates ex = [] \<and> required_phrases ex = [] \<and>
     \<not> has_negative_predicate ex"

section \<open>The direct semantic predicate\<close>

definition matches_flat_features :: "extracted \<Rightarrow> feature_id list \<Rightarrow> feature_id list \<Rightarrow> bool" where
  "matches_flat_features ex pos neg \<longleftrightarrow>
     list_all (search_ok pos) (required ex) \<and>
     \<not> list_ex (search_ok neg) (forbidden ex) \<and>
     list_all (list_ex (search_ok pos)) (anyof ex) \<and>
     list_all (\<lambda>p. list_ex (\<lambda>m. list_all (list_ex (search_ok pos)) (requirements m)) (members p))
       (anyof_predicates ex) \<and>
     \<not> list_ex (list_all (search_ok neg)) (forbidden_conjunctions ex)"

definition matches_features :: "extracted \<Rightarrow> feature_id list \<Rightarrow> feature_id list \<Rightarrow> bool" where
  "matches_features ex pos neg \<longleftrightarrow>
     required_phrases ex = [] \<and> forbidden_phrases ex = [] \<and> matches_flat_features ex pos neg"

definition matches_positioned ::
  "extracted \<Rightarrow> feature_id list \<Rightarrow> feature_id list \<Rightarrow> u32 \<Rightarrow> position_arc list \<Rightarrow> bool \<Rightarrow>
   u32 \<Rightarrow> position_arc list \<Rightarrow> bool" where
  "matches_positioned ex pos neg pos_positions pos_arcs pos_graph_complete neg_positions neg_arcs \<longleftrightarrow>
     matches_flat_features ex pos neg \<and>
     list_all (\<lambda>p. phrase_graph_matches_bounded p pos_positions pos_arcs pos_graph_complete \<noteq> Some False)
       (required_phrases ex) \<and>
     \<not> list_ex (\<lambda>p. phrase_graph_matches_bounded p neg_positions neg_arcs True = Some True)
       (forbidden_phrases ex)"

section \<open>Canonical form and equivalence expansion\<close>

definition canonicalize_phrase :: "phrase_graph \<Rightarrow> phrase_graph" where
  "canonicalize_phrase p =
     PhraseGraph (positions p)
       (sort_dedup
         (filter (\<lambda>a. arc_start a < arc_end a \<and> arc_end a \<le> positions p \<and> alternatives a \<noteq> [])
           (map (\<lambda>a. PhraseArc (arc_start a) (arc_end a) (sort_dedup (alternatives a))) (arcs p))))"

definition canonicalize_phrases :: "phrase_graph list \<Rightarrow> phrase_graph list" where
  "canonicalize_phrases ps =
     sort_dedup (filter (\<lambda>p. positions p \<noteq> 0 \<and> arcs p \<noteq> []) (map canonicalize_phrase ps))"

definition canonicalize :: "extracted \<Rightarrow> extracted" where
  "canonicalize ex = ex\<lparr>
     required := sort_dedup (required ex),
     forbidden := sort_dedup (forbidden ex),
     anyof := sort_dedup (anyof ex),
     anyof_predicates :=
       sort_dedup (filter (\<lambda>p. members p \<noteq> []) (map canonicalize_predicate (anyof_predicates ex))),
     forbidden_conjunctions :=
       sort_dedup (filter (\<lambda>c. c \<noteq> []) (map sort_dedup (forbidden_conjunctions ex))),
     required_phrases := canonicalize_phrases (required_phrases ex),
     forbidden_phrases := canonicalize_phrases (forbidden_phrases ex)\<rparr>"

definition widen :: "equiv_map \<Rightarrow> feature_id list \<Rightarrow> feature_id list" where
  "widen eqv fs =
     sort_dedup (concat (map (\<lambda>f. case map_of eqv f of Some grp \<Rightarrow> grp | None \<Rightarrow> [f]) fs))"

definition widen_predicate :: "equiv_map \<Rightarrow> anyof_predicate \<Rightarrow> anyof_predicate" where
  "widen_predicate eqv p =
     AnyOfPredicate (map (\<lambda>m. AnyOfMember (map (widen eqv) (requirements m))) (members p))"

definition widen_phrase :: "equiv_map \<Rightarrow> phrase_graph \<Rightarrow> phrase_graph" where
  "widen_phrase eqv p =
     PhraseGraph (positions p)
       (map (\<lambda>a. PhraseArc (arc_start a) (arc_end a) (widen eqv (alternatives a))) (arcs p))"

definition expand_equivalences :: "equiv_map \<Rightarrow> extracted \<Rightarrow> extracted" where
  "expand_equivalences eqv ex =
     (if eqv = [] then canonicalize ex
      else let added = List.map_filter (map_of eqv) (required ex);
               n = foldl (\<lambda>k _. saturating_add k 1) (0 :: u32) added
        in canonicalize (ex\<lparr>
             required := filter (\<lambda>f. map_of eqv f = None) (required ex),
             anyof := map (widen eqv) (anyof ex @ added),
             semantic_anyof_groups := saturating_add (semantic_anyof_groups ex) n,
             semantic_anyof_terms := saturating_add (semantic_anyof_terms ex) n,
             anyof_predicates := map (widen_predicate eqv) (anyof_predicates ex),
             required_phrases := map (widen_phrase eqv) (required_phrases ex)\<rparr>))"

section \<open>The column guard\<close>

text \<open>
  The counting part returns early with an overflow (\<open>Inl\<close>) or goes on with the word count
  (\<open>Inr\<close>), which starts at 3.
\<close>

definition u32_ceiling :: nat where
  "u32_ceiling = 2 ^ 32 - 1"

definition u16_ceiling :: nat where
  "u16_ceiling = 2 ^ 16 - 1"

definition add_words :: "nat \<Rightarrow> nat \<Rightarrow> nat + nat" where
  "add_words n w = (case usize_checked_add w n of Some w' \<Rightarrow> Inr w' | None \<Rightarrow> Inl (2 ^ 64 - 1))"

fun try_fold :: "('a \<Rightarrow> 's \<Rightarrow> 'e + 's) \<Rightarrow> 'a list \<Rightarrow> 's \<Rightarrow> 'e + 's" where
  "try_fold f [] s = Inr s"
| "try_fold f (x # xs) s = (case f x s of Inl e \<Rightarrow> Inl e | Inr s' \<Rightarrow> try_fold f xs s')"

definition then_count :: "nat + nat \<Rightarrow> (nat \<Rightarrow> nat + nat) \<Rightarrow> nat + nat" where
  "then_count r k = (case r of Inl e \<Rightarrow> Inl e | Inr w \<Rightarrow> k w)"

definition guarded :: "nat \<Rightarrow> (nat \<Rightarrow> nat + nat) \<Rightarrow> nat \<Rightarrow> nat + nat" where
  "guarded n k w = (if n > u32_ceiling then Inl n else k w)"

definition count_alternatives :: "feature_id list \<Rightarrow> nat \<Rightarrow> nat + nat" where
  "count_alternatives alts = guarded (length alts) (add_words (1 + length alts))"

definition count_member :: "anyof_member \<Rightarrow> nat \<Rightarrow> nat + nat" where
  "count_member m = guarded (length (requirements m))
     (\<lambda>w. then_count (add_words 1 w) (try_fold count_alternatives (requirements m)))"

definition count_predicate :: "anyof_predicate \<Rightarrow> nat \<Rightarrow> nat + nat" where
  "count_predicate p = guarded (length (members p))
     (\<lambda>w. then_count (add_words 1 w) (try_fold count_member (members p)))"

definition count_arc :: "phrase_arc \<Rightarrow> nat \<Rightarrow> nat + nat" where
  "count_arc a = guarded (length (alternatives a)) (add_words (3 + length (alternatives a)))"

definition count_phrase :: "phrase_graph \<Rightarrow> nat \<Rightarrow> nat + nat" where
  "count_phrase p = guarded (length (arcs p))
     (\<lambda>w. then_count (add_words 2 w) (try_fold count_arc (arcs p)))"

definition count_phrases :: "phrase_graph list \<Rightarrow> nat \<Rightarrow> nat + nat" where
  "count_phrases ps = guarded (length ps) (try_fold count_phrase ps)"

definition program_words :: "extracted \<Rightarrow> nat + nat" where
  "program_words ex =
     then_count (guarded (length (anyof_predicates ex)) (try_fold count_predicate (anyof_predicates ex)) 3)
       (\<lambda>w. then_count (guarded (length (forbidden_conjunctions ex))
                (try_fold count_alternatives (forbidden_conjunctions ex)) w)
       (\<lambda>w. if required_phrases ex = [] \<and> forbidden_phrases ex = [] then Inr w
            else then_count (add_words 2 w)
              (\<lambda>w. then_count (count_phrases (required_phrases ex) w) (count_phrases (forbidden_phrases ex)))))"

definition column_overflow :: "extracted \<Rightarrow> nat option" where
  "column_overflow ex =
     (if length (required ex) > u16_ceiling then Some (length (required ex))
      else if length (forbidden ex) > u16_ceiling then Some (length (forbidden ex))
      else if length (anyof ex) > u16_ceiling then Some (length (anyof ex))
      else case find (\<lambda>g. length g > u16_ceiling) (anyof ex) of
          Some g \<Rightarrow> Some (length g)
        | None \<Rightarrow> (case program_words ex of
              Inl n \<Rightarrow> Some n
            | Inr w \<Rightarrow> if w > u32_ceiling then Some w else None))"

section \<open>Extraction\<close>

text \<open>
  What the extraction calls of the normalizer: the features of a text and the analyzed edges
  of a quoted text, each in a variant that interns into the dictionary and in a read-only one.
\<close>

record normalizer =
  compile_features :: "rstring \<Rightarrow> dict \<Rightarrow> feature_id list \<times> dict"
  compile_features_readonly :: "rstring \<Rightarrow> dict \<Rightarrow> feature_id list"
  query_arcs :: "rstring \<Rightarrow> dict \<Rightarrow> (u32 \<times> position_arc list) \<times> dict"
  query_arcs_readonly :: "rstring \<Rightarrow> dict \<Rightarrow> u32 \<times> position_arc list"

definition compile_phrase :: "normalizer \<Rightarrow> rstring \<Rightarrow> dict \<Rightarrow> phrase_graph \<times> dict" where
  "compile_phrase norm text d =
     (case query_arcs norm text d of ((n, as), d') \<Rightarrow> (phrase_graph_of n as, d'))"

definition compile_phrase_readonly :: "normalizer \<Rightarrow> rstring \<Rightarrow> dict \<Rightarrow> phrase_graph" where
  "compile_phrase_readonly norm text d =
     (case query_arcs_readonly norm text d of (n, as) \<Rightarrow> phrase_graph_of n as)"

definition phrase_proxy :: "phrase_graph \<Rightarrow> feature_id list" where
  "phrase_proxy g = sort_dedup (concat (map alternatives (arcs g)))"

definition is_hot :: "dict \<Rightarrow> feature_id \<Rightarrow> bool" where
  "is_hot d f \<longleftrightarrow> mask_bit d f \<noteq> NO_MASK_BIT"

definition is_hot_anchor :: "dict \<Rightarrow> feature_id \<Rightarrow> u32 \<Rightarrow> bool" where
  "is_hot_anchor d f theta \<longleftrightarrow> is_hot d f \<or> theta \<noteq> 0 \<and> freq d f \<ge> theta"

fun join_words :: "rstring list \<Rightarrow> rstring" where
  "join_words [] = []"
| "join_words [w] = w"
| "join_words (w # ws) = w @ ch_space # join_words ws"

definition empty_extracted :: extracted where
  "empty_extracted = \<lparr>required = [], forbidden = [], anyof = [], semantic_anyof_groups = 0,
     semantic_anyof_terms = 0, anyof_predicates = [], forbidden_conjunctions = [],
     required_phrases = [], forbidden_phrases = []\<rparr>"

definition flush_positive_run ::
  "normalizer \<Rightarrow> rstring list \<Rightarrow> dict \<Rightarrow> feature_id list \<Rightarrow> feature_id list \<times> dict" where
  "flush_positive_run norm ws d req =
     (if ws = [] then (req, d)
      else case compile_features norm (join_words ws) d of (fs, d') \<Rightarrow> (req @ fs, d'))"

definition flush_positive_run_readonly ::
  "normalizer \<Rightarrow> rstring list \<Rightarrow> dict \<Rightarrow> feature_id list \<Rightarrow> feature_id list" where
  "flush_positive_run_readonly norm ws d req =
     (if ws = [] then req else req @ compile_features_readonly norm (join_words ws) d)"

definition push_forbidden_term :: "feature_id list \<Rightarrow> extracted \<Rightarrow> extracted" where
  "push_forbidden_term fs ex = (case sort_dedup fs of
     [f] \<Rightarrow> ex\<lparr>forbidden := forbidden ex @ [f]\<rparr>
   | [] \<Rightarrow> ex
   | s \<Rightarrow> ex\<lparr>forbidden_conjunctions := forbidden_conjunctions ex @ [s]\<rparr>)"

definition first_alternatives :: "anyof_member \<Rightarrow> feature_id list" where
  "first_alternatives m =
     List.map_filter (\<lambda>alts. case alts of [] \<Rightarrow> None | f # _ \<Rightarrow> Some f) (requirements m)"

definition shortest_width :: "anyof_member list \<Rightarrow> u32" where
  "shortest_width ms = (if ms = [] then 0 else Min (set (map (\<lambda>m. u32_of_len (length (requirements m))) ms)))"

text \<open>The lowering of a positive any-of group whose members are already analyzed.\<close>

definition lower_anyof :: "(feature_id \<Rightarrow> u32) \<Rightarrow> anyof_member list \<Rightarrow> extracted \<Rightarrow> extracted" where
  "lower_anyof frq ms ex =
     (let semantic_members = sort_dedup ms in
      if length semantic_members = 1 then
        ex\<lparr>required := required ex @ concat (requirements (hd semantic_members))\<rparr>
      else if semantic_members \<noteq> [] then
        let proxies = sort_dedup
              (List.map_filter (\<lambda>m. min_by_key frq (first_alternatives m)) semantic_members)
        in ex\<lparr>
          semantic_anyof_groups := saturating_add (semantic_anyof_groups ex) 1,
          semantic_anyof_terms :=
            saturating_add (semantic_anyof_terms ex) (shortest_width semantic_members),
          anyof := (if proxies \<noteq> [] then anyof ex @ [proxies] else anyof ex),
          anyof_predicates :=
            (if list_ex (\<lambda>m. length (requirements m) > 1) semantic_members
             then anyof_predicates ex @ [AnyOfPredicate semantic_members]
             else anyof_predicates ex)\<rparr>
      else ex)"

definition push_phrase :: "bool \<Rightarrow> phrase_graph \<Rightarrow> extracted \<Rightarrow> extracted" where
  "push_phrase neg p ex =
     (if arcs p = [] then ex
      else if neg then ex\<lparr>forbidden_phrases := forbidden_phrases ex @ [p]\<rparr>
      else ex\<lparr>required_phrases := required_phrases ex @ [p]\<rparr>)"

fun compile_members :: "normalizer \<Rightarrow> rstring list \<Rightarrow> dict \<Rightarrow> feature_id list list \<times> dict" where
  "compile_members norm [] d = ([], d)"
| "compile_members norm (m # ms) d =
     (case compile_features norm m d of (fs, d1) \<Rightarrow>
      case compile_members norm ms d1 of (rest, d2) \<Rightarrow> (fs # rest, d2))"

text \<open>The state of the clause loop: the pending positive words, the output and the dictionary.\<close>

type_synonym extract_state = "rstring list \<times> extracted \<times> dict"

definition extract_clause :: "normalizer \<Rightarrow> clause \<Rightarrow> extract_state \<Rightarrow> extract_state" where
  "extract_clause norm cl st = (case st of (ws, ex, d) \<Rightarrow>
     case (atom_of cl, negated cl) of
       (Term w, False) \<Rightarrow> (ws @ [w], ex, d)
     | _ \<Rightarrow>
        (case flush_positive_run norm ws d (required ex) of (req, d0) \<Rightarrow>
         let ex0 = ex\<lparr>required := req\<rparr> in
         case (atom_of cl, negated cl) of
           (Term w, _) \<Rightarrow>
             (case compile_features norm w d0 of (fs, d1) \<Rightarrow> ([], push_forbidden_term fs ex0, d1))
         | (Phrase w, neg) \<Rightarrow>
             (case compile_phrase norm w d0 of (p, d1) \<Rightarrow> ([], push_phrase neg p ex0, d1))
         | (AnyOf ms, neg) \<Rightarrow>
             (case compile_members norm ms d0 of (fss, d1) \<Rightarrow>
                if neg then ([], fold push_forbidden_term fss ex0, d1)
                else ([], lower_anyof (freq d1) (List.map_filter from_features fss) ex0, d1))))"

definition extract_clauses :: "normalizer \<Rightarrow> clause list \<Rightarrow> dict \<Rightarrow> extracted \<times> dict" where
  "extract_clauses norm cls d =
     (case fold (extract_clause norm) cls ([], empty_extracted, d) of (ws, ex, d1) \<Rightarrow>
      case flush_positive_run norm ws d1 (required ex) of (req, d2) \<Rightarrow>
        (ex\<lparr>required := sort_dedup req, forbidden := sort_dedup (forbidden ex)\<rparr>, d2))"

definition frequency_features :: "extracted \<Rightarrow> feature_id list" where
  "frequency_features ex =
     sort_dedup (required ex @ concat (anyof ex) @ concat (map phrase_proxy (required_phrases ex)))"

fun bump_all :: "feature_id list \<Rightarrow> dict \<Rightarrow> dict option" where
  "bump_all [] d = Some d"
| "bump_all (f # fs) d = (case bump_freq f d of None \<Rightarrow> None | Some d' \<Rightarrow> bump_all fs d')"

text \<open>\<open>extract\<close>: None is the panic of \<open>bump_freq\<close> on an id outside the dictionary.\<close>

definition extract_ast :: "ast \<Rightarrow> normalizer \<Rightarrow> dict \<Rightarrow> (extracted \<times> dict) option" where
  "extract_ast a norm d =
     (case extract_clauses norm (clauses a) d of (ex, d1) \<Rightarrow>
      case bump_all (frequency_features ex) d1 of
        None \<Rightarrow> None
      | Some d2 \<Rightarrow> Some (expand_equivalences (dict_equivalences d2) ex, d2))"

definition extract_clause_readonly ::
  "normalizer \<Rightarrow> dict \<Rightarrow> clause \<Rightarrow> rstring list \<times> extracted \<Rightarrow> rstring list \<times> extracted" where
  "extract_clause_readonly norm d cl st = (case st of (ws, ex) \<Rightarrow>
     case (atom_of cl, negated cl) of
       (Term w, False) \<Rightarrow> (ws @ [w], ex)
     | _ \<Rightarrow>
        (let ex0 = ex\<lparr>required := flush_positive_run_readonly norm ws d (required ex)\<rparr> in
         case (atom_of cl, negated cl) of
           (Term w, _) \<Rightarrow> ([], push_forbidden_term (compile_features_readonly norm w d) ex0)
         | (Phrase w, neg) \<Rightarrow> ([], push_phrase neg (compile_phrase_readonly norm w d) ex0)
         | (AnyOf ms, neg) \<Rightarrow>
             (let fss = map (\<lambda>m. compile_features_readonly norm m d) ms in
                if neg then ([], fold push_forbidden_term fss ex0)
                else ([], lower_anyof (freq d) (List.map_filter from_features fss) ex0))))"

definition extract_readonly :: "ast \<Rightarrow> normalizer \<Rightarrow> dict \<Rightarrow> extracted" where
  "extract_readonly a norm d =
     (case fold (extract_clause_readonly norm d) (clauses a) ([], empty_extracted) of (ws, ex) \<Rightarrow>
      expand_equivalences (dict_equivalences d)
        (ex\<lparr>required := sort_dedup (flush_positive_run_readonly norm ws d (required ex)),
            forbidden := sort_dedup (forbidden ex)\<rparr>))"

section \<open>Semantics over sets of features\<close>

text \<open>
  A positive feature holds when the title has it, or has a member of its equivalence class.
  \<open>sat\<close> reads an extracted query over the sets of positive and negative features and over two
  predicates for required and forbidden phrases.
\<close>

definition holds :: "equiv_map \<Rightarrow> feature_id set \<Rightarrow> feature_id \<Rightarrow> bool" where
  "holds eqv P f \<longleftrightarrow> (case map_of eqv f of Some grp \<Rightarrow> set grp \<inter> P \<noteq> {} | None \<Rightarrow> f \<in> P)"

definition member_holds :: "equiv_map \<Rightarrow> feature_id set \<Rightarrow> anyof_member \<Rightarrow> bool" where
  "member_holds eqv P m \<longleftrightarrow> (\<forall>r \<in> set (requirements m). \<exists>f \<in> set r. holds eqv P f)"

definition sat :: "equiv_map \<Rightarrow> feature_id set \<Rightarrow> feature_id set \<Rightarrow> (phrase_graph \<Rightarrow> bool) \<Rightarrow>
    (phrase_graph \<Rightarrow> bool) \<Rightarrow> extracted \<Rightarrow> bool" where
  "sat eqv P N rp fp ex \<longleftrightarrow>
     (\<forall>f \<in> set (required ex). holds eqv P f) \<and>
     set (forbidden ex) \<inter> N = {} \<and>
     (\<forall>g \<in> set (anyof ex). \<exists>f \<in> set g. holds eqv P f) \<and>
     (\<forall>p \<in> set (anyof_predicates ex). \<exists>m \<in> set (members p). member_holds eqv P m) \<and>
     (\<forall>c \<in> set (forbidden_conjunctions ex). \<not> set c \<subseteq> N) \<and>
     (\<forall>p \<in> set (required_phrases ex). rp (widen_phrase eqv p)) \<and>
     (\<forall>p \<in> set (forbidden_phrases ex). \<not> fp p)"

text \<open>Well-formed compiled queries: nothing empty that canonicalization would drop.\<close>

definition wf_graph :: "phrase_graph \<Rightarrow> bool" where
  "wf_graph q \<longleftrightarrow> positions q \<noteq> 0 \<and> arcs q \<noteq> [] \<and> canonical_graph q \<and>
     list_all (\<lambda>a. arc_start a < arc_end a \<and> arc_end a \<le> positions q) (arcs q)"

definition wf_member_req :: "anyof_member \<Rightarrow> bool" where
  "wf_member_req m \<longleftrightarrow> requirements m \<noteq> [] \<and> list_all (\<lambda>r. r \<noteq> []) (requirements m)"

definition wf_extracted :: "extracted \<Rightarrow> bool" where
  "wf_extracted ex \<longleftrightarrow>
     list_all (\<lambda>p. members p \<noteq> [] \<and> list_all wf_member_req (members p)) (anyof_predicates ex) \<and>
     list_all (\<lambda>c. c \<noteq> []) (forbidden_conjunctions ex) \<and>
     list_all wf_graph (required_phrases ex) \<and> list_all wf_graph (forbidden_phrases ex)"

definition eqv_ok :: "equiv_map \<Rightarrow> bool" where
  "eqv_ok eqv \<longleftrightarrow> (\<forall>(f, grp) \<in> set eqv. f \<in> set grp \<and> (\<forall>g \<in> set grp. map_of eqv g = Some grp))"

lemma eqv_okD: "eqv_ok eqv \<Longrightarrow> map_of eqv f = Some grp \<Longrightarrow> f \<in> set grp \<and> (\<forall>g \<in> set grp. map_of eqv g = Some grp)"
  by (auto simp: eqv_ok_def dest!: map_of_SomeD)

lemma holds_Nil [simp]: "holds [] P f \<longleftrightarrow> f \<in> P"
  by (simp add: holds_def)

lemma holds_mono: "eqv_ok eqv \<Longrightarrow> f \<in> P \<Longrightarrow> holds eqv P f"
  by (auto simp: holds_def dest: eqv_okD split: option.splits)

lemma set_widen: "set (widen eqv fs) = (\<Union>f \<in> set fs. case map_of eqv f of Some grp \<Rightarrow> set grp | None \<Rightarrow> {f})"
  by (auto simp: widen_def split: option.splits)

lemma widen_meets_iff: "(\<exists>f \<in> set (widen eqv fs). f \<in> P) \<longleftrightarrow> (\<exists>f \<in> set fs. holds eqv P f)"
proof -
  have "(\<exists>x \<in> (case map_of eqv f of Some grp \<Rightarrow> set grp | None \<Rightarrow> {f}). x \<in> P) \<longleftrightarrow> holds eqv P f" for f
    by (cases "map_of eqv f") (auto simp: holds_def)
  then show ?thesis by (simp add: set_widen)
qed

lemma widen_eq_Nil_iff:
  assumes "eqv_ok eqv" shows "widen eqv fs = [] \<longleftrightarrow> fs = []"
proof -
  have "holds eqv UNIV f" for f using assms by (rule holds_mono) simp
  then have "(\<exists>f \<in> set (widen eqv fs). f \<in> UNIV) \<longleftrightarrow> fs \<noteq> []"
    unfolding widen_meets_iff by (cases fs) auto
  then show ?thesis by (cases "widen eqv fs") auto
qed

lemma widen_strict_sorted [simp]: "strict_sorted (widen eqv fs)"
  by (simp add: widen_def)

lemma widen_Nil: "strict_sorted fs \<Longrightarrow> widen [] fs = fs"
  by (simp add: widen_def sort_dedup_id)

subsection \<open>Canonical phrases\<close>

lemma strict_sorted_arcs:
  assumes "strict_sorted (map span as)" shows "strict_sorted as"
proof -
  have "a < b" if "span a < span b" for a b
    using that by (auto simp: span_def less_phrase_arc_def)
  then show ?thesis
    using assms sorted_wrt_mono_rel [of as "\<lambda>a b. span a < span b" "(<)"] by (simp add: sorted_wrt_map)
qed

lemma canonicalize_phrase_id:
  assumes "wf_graph q" shows "canonicalize_phrase q = q"
proof -
  have "map (\<lambda>a. PhraseArc (arc_start a) (arc_end a) (sort_dedup (alternatives a))) (arcs q) = arcs q"
    using assms by (intro map_idI) (auto simp: wf_graph_def canonical_graph_def list_all_iff sort_dedup_id)
  moreover have "filter (\<lambda>a. arc_start a < arc_end a \<and> arc_end a \<le> positions q \<and> alternatives a \<noteq> []) (arcs q) = arcs q"
    using assms by (auto simp: wf_graph_def canonical_graph_def list_all_iff filter_id_conv)
  moreover have "sort_dedup (arcs q) = arcs q"
    using assms by (intro sort_dedup_id strict_sorted_arcs) (simp add: wf_graph_def canonical_graph_def)
  ultimately show ?thesis by (simp add: canonicalize_phrase_def)
qed

lemma set_canonicalize_phrases:
  assumes "list_all wf_graph ps" shows "set (canonicalize_phrases ps) = set ps"
proof -
  have "map canonicalize_phrase ps = ps"
    using assms by (intro map_idI) (simp add: canonicalize_phrase_id list_all_iff)
  then show ?thesis
    using assms by (auto simp: canonicalize_phrases_def wf_graph_def list_all_iff)
qed

lemma widen_phrase_wf:
  assumes "eqv_ok eqv" "wf_graph q" shows "wf_graph (widen_phrase eqv q)"
proof -
  have "span \<circ> (\<lambda>a. PhraseArc (arc_start a) (arc_end a) (widen eqv (alternatives a))) = span"
    by (auto simp: span_def)
  then show ?thesis using assms
    by (auto simp: wf_graph_def canonical_graph_def widen_phrase_def list_all_iff widen_eq_Nil_iff)
qed

lemma widen_phrase_Nil:
  assumes "wf_graph q" shows "widen_phrase [] q = q"
proof -
  have "map (\<lambda>a. PhraseArc (arc_start a) (arc_end a) (widen [] (alternatives a))) (arcs q) = arcs q"
    using assms by (intro map_idI) (auto simp: wf_graph_def canonical_graph_def list_all_iff widen_Nil)
  then show ?thesis by (simp add: widen_phrase_def)
qed

lemma canonical_graph_sorted:
  assumes "canonical_graph q" shows "graph_sorted q"
proof -
  have "arc_start a \<le> arc_start b" if "span a < span b" for a b
    using that by (auto simp: span_def)
  then have "sorted (map arc_start (arcs q))"
    using assms sorted_wrt_mono_rel [of "arcs q" "\<lambda>a b. span a < span b" "\<lambda>a b. arc_start a \<le> arc_start b"]
    by (simp add: canonical_graph_def sorted_wrt_map sorted_map)
  then show ?thesis using assms
    by (simp add: canonical_graph_def graph_sorted_def list_all_iff strict_sorted_sorted)
qed

subsection \<open>Canonicalization and expansion keep the semantics\<close>

lemma sat_canonicalize_flat:
  assumes "wf_extracted ex"
  shows "(\<forall>p \<in> set (anyof_predicates (canonicalize ex)). \<exists>m \<in> set (members p). member_holds eqv P m) \<longleftrightarrow>
         (\<forall>p \<in> set (anyof_predicates ex). \<exists>m \<in> set (members p). member_holds eqv P m)"
proof -
  have mem: "member_holds eqv P (canonicalize_member m) \<longleftrightarrow> member_holds eqv P m"
    "requirements (canonicalize_member m) \<noteq> []" if "wf_member_req m" for m
  proof -
    have "filter (\<lambda>r. r \<noteq> []) (map sort_dedup (requirements m)) = map sort_dedup (requirements m)"
      using that by (auto simp: wf_member_req_def list_all_iff filter_id_conv)
    then show "member_holds eqv P (canonicalize_member m) \<longleftrightarrow> member_holds eqv P m"
      "requirements (canonicalize_member m) \<noteq> []"
      using that by (simp_all add: canonicalize_member_def member_holds_def wf_member_req_def)
  qed
  have pr: "(\<exists>m \<in> set (members (canonicalize_predicate p)). member_holds eqv P m) \<longleftrightarrow>
      (\<exists>m \<in> set (members p). member_holds eqv P m)" "members (canonicalize_predicate p) \<noteq> []"
    if "p \<in> set (anyof_predicates ex)" for p
  proof -
    have wf: "\<forall>m \<in> set (members p). wf_member_req m" "members p \<noteq> []"
      using assms that by (auto simp: wf_extracted_def list_all_iff)
    then have "filter (\<lambda>m. requirements m \<noteq> []) (map canonicalize_member (members p)) =
        map canonicalize_member (members p)"
      using mem(2) by (auto simp: filter_id_conv)
    then show "(\<exists>m \<in> set (members (canonicalize_predicate p)). member_holds eqv P m) \<longleftrightarrow>
      (\<exists>m \<in> set (members p). member_holds eqv P m)" "members (canonicalize_predicate p) \<noteq> []"
      using wf mem(1) by (simp_all add: canonicalize_predicate_def)
  qed
  have "set (anyof_predicates (canonicalize ex)) = canonicalize_predicate ` set (anyof_predicates ex)"
    using pr(2) by (auto simp: canonicalize_def)
  then show ?thesis using pr(1) by simp
qed

lemma sat_canonicalize:
  assumes "wf_extracted ex"
  shows "sat eqv P N rp fp (canonicalize ex) \<longleftrightarrow> sat eqv P N rp fp ex"
proof -
  have conj: "set (forbidden_conjunctions (canonicalize ex)) = sort_dedup ` set (forbidden_conjunctions ex)"
    using assms by (auto simp: canonicalize_def wf_extracted_def list_all_iff)
  have "set (required_phrases (canonicalize ex)) = set (required_phrases ex)"
    "set (forbidden_phrases (canonicalize ex)) = set (forbidden_phrases ex)"
    using assms by (simp_all add: canonicalize_def wf_extracted_def set_canonicalize_phrases)
  moreover have "set (required (canonicalize ex)) = set (required ex)"
    "set (forbidden (canonicalize ex)) = set (forbidden ex)" "set (anyof (canonicalize ex)) = set (anyof ex)"
    by (simp_all add: canonicalize_def)
  ultimately show ?thesis
    unfolding sat_def sat_canonicalize_flat [OF assms] conj by simp
qed

lemma wf_canonicalize_predicate:
  assumes "members p \<noteq> []" "list_all wf_member_req (members p)"
  shows "members (canonicalize_predicate p) \<noteq> [] \<and> list_all wf_member_req (members (canonicalize_predicate p))"
proof -
  have "wf_member_req (canonicalize_member m)" if "wf_member_req m" for m
    using that by (cases "requirements m") (auto simp: wf_member_req_def canonicalize_member_def list_all_iff)
  then show ?thesis using assms
    by (cases "members p") (auto simp: canonicalize_predicate_def list_all_iff wf_member_req_def)
qed

lemma wf_canonicalize:
  assumes "wf_extracted ex" shows "wf_extracted (canonicalize ex)"
proof -
  have "list_all wf_graph (required_phrases (canonicalize ex)) \<and>
        list_all wf_graph (forbidden_phrases (canonicalize ex))"
    using assms by (simp add: canonicalize_def wf_extracted_def set_canonicalize_phrases list_all_iff)
  moreover have "list_all (\<lambda>p. members p \<noteq> [] \<and> list_all wf_member_req (members p))
      (anyof_predicates (canonicalize ex))"
    using assms wf_canonicalize_predicate by (auto simp: canonicalize_def wf_extracted_def list_all_iff)
  moreover have "list_all (\<lambda>c. c \<noteq> []) (forbidden_conjunctions (canonicalize ex))"
    by (auto simp: canonicalize_def list_all_iff)
  ultimately show ?thesis by (simp add: wf_extracted_def)
qed

definition widened :: "equiv_map \<Rightarrow> extracted \<Rightarrow> extracted" where
  "widened eqv ex =
     (let added = List.map_filter (map_of eqv) (required ex);
          n = foldl (\<lambda>k _. saturating_add k 1) (0 :: u32) added
      in ex\<lparr>required := filter (\<lambda>f. map_of eqv f = None) (required ex),
            anyof := map (widen eqv) (anyof ex @ added),
            semantic_anyof_groups := saturating_add (semantic_anyof_groups ex) n,
            semantic_anyof_terms := saturating_add (semantic_anyof_terms ex) n,
            anyof_predicates := map (widen_predicate eqv) (anyof_predicates ex),
            required_phrases := map (widen_phrase eqv) (required_phrases ex)\<rparr>)"

lemma expand_equivalences_eq:
  "expand_equivalences eqv ex = canonicalize (if eqv = [] then ex else widened eqv ex)"
  by (simp add: expand_equivalences_def widened_def Let_def)

lemma set_map_filter: "set (List.map_filter f xs) = {y. \<exists>x \<in> set xs. f x = Some y}"
  by (induction xs) (auto simp: map_filter_simps split: option.splits)

lemma widened_simps:
  "set (required (widened eqv ex)) = {f \<in> set (required ex). map_of eqv f = None}"
  "set (anyof (widened eqv ex)) = widen eqv ` (set (anyof ex) \<union> {grp. \<exists>f \<in> set (required ex). map_of eqv f = Some grp})"
  "anyof_predicates (widened eqv ex) = map (widen_predicate eqv) (anyof_predicates ex)"
  "required_phrases (widened eqv ex) = map (widen_phrase eqv) (required_phrases ex)"
  "forbidden (widened eqv ex) = forbidden ex"
  "forbidden_conjunctions (widened eqv ex) = forbidden_conjunctions ex"
  "forbidden_phrases (widened eqv ex) = forbidden_phrases ex"
  by (auto simp: widened_def Let_def set_map_filter)

lemma wf_widened:
  assumes "eqv_ok eqv" "wf_extracted ex" shows "wf_extracted (widened eqv ex)"
  using assms
  by (auto simp: wf_extracted_def widened_simps list_all_iff widen_predicate_def wf_member_req_def
      widen_phrase_wf widen_eq_Nil_iff)

lemma holds_class:
  assumes "eqv_ok eqv" "map_of eqv f = Some grp"
  shows "(\<exists>g \<in> set grp. holds eqv P g) \<longleftrightarrow> holds eqv P f"
  using eqv_okD [OF assms] assms(2) by (auto simp: holds_def)

lemma sat_widened:
  assumes ok: "eqv_ok eqv" and wf: "wf_extracted ex"
  shows "sat [] P N rp fp (widened eqv ex) \<longleftrightarrow> sat eqv P N rp fp ex"
proof -
  let ?req = "\<forall>f \<in> set (required ex). holds eqv P f"
  have req: "(\<forall>f \<in> set (required (widened eqv ex)). f \<in> P) \<and>
      (\<forall>f grp. f \<in> set (required ex) \<and> map_of eqv f = Some grp \<longrightarrow> (\<exists>g \<in> set grp. holds eqv P g)) \<longleftrightarrow> ?req"
  proof -
    have "(\<forall>f \<in> set (required ex). holds eqv P f) \<longleftrightarrow>
        (\<forall>f \<in> set (required ex). (map_of eqv f = None \<longrightarrow> f \<in> P) \<and>
           (\<forall>grp. map_of eqv f = Some grp \<longrightarrow> holds eqv P f))"
      by (rule ball_cong [OF refl]) (auto simp: holds_def split: option.splits)
    also have "\<dots> \<longleftrightarrow> (\<forall>f \<in> set (required ex). (map_of eqv f = None \<longrightarrow> f \<in> P) \<and>
           (\<forall>grp. map_of eqv f = Some grp \<longrightarrow> (\<exists>g \<in> set grp. holds eqv P g)))"
      using holds_class [OF ok] by simp
    finally show ?thesis by (auto simp: widened_simps)
  qed
  have any: "(\<forall>g \<in> set (anyof (widened eqv ex)). \<exists>f \<in> set g. f \<in> P) \<longleftrightarrow>
      (\<forall>g \<in> set (anyof ex). \<exists>f \<in> set g. holds eqv P f) \<and>
      (\<forall>f grp. f \<in> set (required ex) \<and> map_of eqv f = Some grp \<longrightarrow> (\<exists>g \<in> set grp. holds eqv P g))"
    by (auto simp: widened_simps widen_meets_iff)
  have mem: "member_holds [] P (AnyOfMember (map (widen eqv) (requirements m))) \<longleftrightarrow> member_holds eqv P m" for m
    by (simp add: member_holds_def widen_meets_iff)
  have preds: "(\<forall>p \<in> set (anyof_predicates (widened eqv ex)). \<exists>m \<in> set (members p). member_holds [] P m) \<longleftrightarrow>
      (\<forall>p \<in> set (anyof_predicates ex). \<exists>m \<in> set (members p). member_holds eqv P m)"
    by (simp add: widened_simps widen_predicate_def mem)
  have "widen_phrase [] (widen_phrase eqv p) = widen_phrase eqv p" if "p \<in> set (required_phrases ex)" for p
    using wf that ok by (intro widen_phrase_Nil widen_phrase_wf) (auto simp: wf_extracted_def list_all_iff)
  then have phr: "(\<forall>p \<in> set (required_phrases (widened eqv ex)). rp (widen_phrase [] p)) \<longleftrightarrow>
      (\<forall>p \<in> set (required_phrases ex). rp (widen_phrase eqv p))"
    by (simp add: widened_simps)
  show ?thesis
    unfolding sat_def holds_Nil preds any phr widened_simps(5-7) using req by blast
qed

lemma wf_expand:
  "eqv_ok eqv \<Longrightarrow> wf_extracted ex \<Longrightarrow> wf_extracted (expand_equivalences eqv ex)"
  by (simp add: expand_equivalences_eq wf_canonicalize wf_widened)

lemma sat_expand:
  "eqv_ok eqv \<Longrightarrow> wf_extracted ex \<Longrightarrow>
     sat [] P N rp fp (expand_equivalences eqv ex) \<longleftrightarrow> sat eqv P N rp fp ex"
  by (simp add: expand_equivalences_eq sat_canonicalize wf_widened sat_widened)

lemma matches_flat_iff:
  assumes "sorted pos" "sorted neg"
  shows "matches_flat_features ex pos neg \<longleftrightarrow>
    (\<forall>f \<in> set (required ex). f \<in> set pos) \<and> set (forbidden ex) \<inter> set neg = {} \<and>
    (\<forall>g \<in> set (anyof ex). \<exists>f \<in> set g. f \<in> set pos) \<and>
    (\<forall>p \<in> set (anyof_predicates ex). \<exists>m \<in> set (members p). member_holds [] (set pos) m) \<and>
    (\<forall>c \<in> set (forbidden_conjunctions ex). \<not> set c \<subseteq> set neg)"
  using assms
  by (simp add: matches_flat_features_def search_ok_iff list_all_iff list_ex_iff member_holds_def
      subset_iff disjoint_iff Ball_def Bex_def)

lemma matches_positioned_sat:
  assumes "sorted pos" "sorted neg" "wf_extracted ex"
  shows "matches_positioned ex pos neg pp pa pc np na \<longleftrightarrow>
    sat [] (set pos) (set neg) (\<lambda>p. phrase_graph_matches_bounded p pp pa pc \<noteq> Some False)
      (\<lambda>p. phrase_graph_matches_bounded p np na True = Some True) ex"
proof -
  have "widen_phrase [] p = p" if "p \<in> set (required_phrases ex)" for p
    using assms(3) that by (intro widen_phrase_Nil) (auto simp: wf_extracted_def list_all_iff)
  then show ?thesis
    unfolding matches_positioned_def matches_flat_iff [OF assms(1,2)] sat_def holds_Nil
    by (auto simp: list_all_iff list_ex_iff)
qed

section \<open>Semantics of a syntax tree\<close>

text \<open>
  The meaning of a query over the features \<open>F\<close> and phrase graphs \<open>G\<close> of its texts: each maximal
  run of positive bare words, joined, has all its features; a negated text is hit when it has
  features and all of them are in the negative view; an any-of group needs one member with
  features that all hold, unless no member has features.
\<close>

definition run_ok :: "(rstring \<Rightarrow> feature_id list) \<Rightarrow> (feature_id \<Rightarrow> bool) \<Rightarrow> rstring list \<Rightarrow> bool" where
  "run_ok F h ws \<longleftrightarrow> ws = [] \<or> (\<forall>f \<in> set (F (join_words ws)). h f)"

definition neg_hit :: "feature_id set \<Rightarrow> feature_id list \<Rightarrow> bool" where
  "neg_hit N fs \<longleftrightarrow> fs \<noteq> [] \<and> set fs \<subseteq> N"

definition group_ok :: "(feature_id \<Rightarrow> bool) \<Rightarrow> feature_id list list \<Rightarrow> bool" where
  "group_ok h fss \<longleftrightarrow> (\<forall>fs \<in> set fss. fs = []) \<or> (\<exists>fs \<in> set fss. fs \<noteq> [] \<and> (\<forall>f \<in> set fs. h f))"

definition clause_ok :: "(rstring \<Rightarrow> feature_id list) \<Rightarrow> (rstring \<Rightarrow> phrase_graph) \<Rightarrow> equiv_map \<Rightarrow>
    feature_id set \<Rightarrow> feature_id set \<Rightarrow> (phrase_graph \<Rightarrow> bool) \<Rightarrow> (phrase_graph \<Rightarrow> bool) \<Rightarrow> clause \<Rightarrow> bool" where
  "clause_ok F G eqv P N rp fp cl = (case atom_of cl of
     Term w \<Rightarrow> \<not> neg_hit N (F w)
   | Phrase w \<Rightarrow> arcs (G w) = [] \<or> (if negated cl then \<not> fp (G w) else rp (widen_phrase eqv (G w)))
   | AnyOf ms \<Rightarrow> if negated cl then \<forall>m \<in> set ms. \<not> neg_hit N (F m)
                  else group_ok (holds eqv P) (map F ms))"

fun clauses_ok :: "(rstring \<Rightarrow> feature_id list) \<Rightarrow> (rstring \<Rightarrow> phrase_graph) \<Rightarrow> equiv_map \<Rightarrow>
    feature_id set \<Rightarrow> feature_id set \<Rightarrow> (phrase_graph \<Rightarrow> bool) \<Rightarrow> (phrase_graph \<Rightarrow> bool) \<Rightarrow>
    rstring list \<Rightarrow> clause list \<Rightarrow> bool" where
  "clauses_ok F G eqv P N rp fp ws [] = run_ok F (holds eqv P) ws"
| "clauses_ok F G eqv P N rp fp ws (cl # cls) = (case (atom_of cl, negated cl) of
     (Term w, False) \<Rightarrow> clauses_ok F G eqv P N rp fp (ws @ [w]) cls
   | _ \<Rightarrow> run_ok F (holds eqv P) ws \<and> clause_ok F G eqv P N rp fp cl \<and>
          clauses_ok F G eqv P N rp fp [] cls)"

subsection \<open>Each lowering step adds its clause\<close>

lemma sat_required:
  "sat eqv P N rp fp (ex\<lparr>required := required ex @ fs\<rparr>) \<longleftrightarrow>
     sat eqv P N rp fp ex \<and> (\<forall>f \<in> set fs. holds eqv P f)"
  by (auto simp: sat_def)

lemma sat_push_forbidden:
  "sat eqv P N rp fp (push_forbidden_term fs ex) \<longleftrightarrow> sat eqv P N rp fp ex \<and> \<not> neg_hit N fs"
proof -
  have s: "set (sort_dedup fs) = set fs" "sort_dedup fs = [] \<longleftrightarrow> fs = []" by simp_all
  show ?thesis
  proof (cases "sort_dedup fs")
    case Nil
    then show ?thesis using s by (simp add: push_forbidden_term_def neg_hit_def)
  next
    case (Cons f rest)
    then have ne: "fs \<noteq> []" using s by auto
    have set_fs: "set fs = insert f (set rest)" using s(1) Cons by simp
    show ?thesis
    proof (cases rest)
      case Nil
      then show ?thesis using Cons ne set_fs
        by (auto simp: push_forbidden_term_def neg_hit_def sat_def)
    next
      case (Cons g rest')
      then show ?thesis using \<open>sort_dedup fs = f # rest\<close> ne set_fs
        by (auto simp: push_forbidden_term_def neg_hit_def sat_def)
    qed
  qed
qed

lemma sat_push_phrase:
  "sat eqv P N rp fp (push_phrase neg p ex) \<longleftrightarrow>
     sat eqv P N rp fp ex \<and> (arcs p = [] \<or> (if neg then \<not> fp p else rp (widen_phrase eqv p)))"
  by (auto simp: push_phrase_def sat_def)

lemma sat_fold_forbidden:
  "sat eqv P N rp fp (fold push_forbidden_term fss ex) \<longleftrightarrow>
     sat eqv P N rp fp ex \<and> (\<forall>fs \<in> set fss. \<not> neg_hit N fs)"
  by (induction fss arbitrary: ex) (auto simp: sat_push_forbidden)

lemma wf_push_forbidden: "wf_extracted ex \<Longrightarrow> wf_extracted (push_forbidden_term fs ex)"
  by (auto simp: push_forbidden_term_def wf_extracted_def split: list.splits)

lemma wf_fold_forbidden: "wf_extracted ex \<Longrightarrow> wf_extracted (fold push_forbidden_term fss ex)"
  by (induction fss arbitrary: ex) (auto simp: wf_push_forbidden)

lemma wf_push_phrase:
  "wf_extracted ex \<Longrightarrow> (arcs p \<noteq> [] \<Longrightarrow> wf_graph p) \<Longrightarrow> wf_extracted (push_phrase neg p ex)"
  by (auto simp: push_phrase_def wf_extracted_def)

lemma wf_required: "wf_extracted ex \<Longrightarrow> wf_extracted (ex\<lparr>required := req\<rparr>)"
  by (simp add: wf_extracted_def)

text \<open>The members of an any-of group, as singletons requirements over sorted features.\<close>

definition simple_member :: "feature_id list \<Rightarrow> anyof_member" where
  "simple_member fs = AnyOfMember (map (\<lambda>f. [f]) (sort_dedup fs))"

lemma set_members_from_features:
  "set (List.map_filter from_features fss) = simple_member ` {fs \<in> set fss. fs \<noteq> []}"
  by (auto simp: set_map_filter from_features_def simple_member_def Let_def split: if_splits)

lemma member_holds_simple: "member_holds eqv P (simple_member fs) \<longleftrightarrow> (\<forall>f \<in> set fs. holds eqv P f)"
  by (simp add: member_holds_def simple_member_def)

lemma first_alternatives_simple: "first_alternatives (simple_member fs) = sort_dedup fs"
  by (simp add: first_alternatives_def simple_member_def List.map_filter_def comp_def)

lemma wf_simple_member: "fs \<noteq> [] \<Longrightarrow> wf_member_req (simple_member fs)"
  by (auto simp: wf_member_req_def simple_member_def list_all_iff)

lemma simple_member_proxy:
  assumes "fs \<noteq> []"
  obtains p where "min_by_key frq (first_alternatives (simple_member fs)) = Some p" "p \<in> set fs"
proof -
  obtain p where p: "min_by_key frq (sort_dedup fs) = Some p"
    using assms by (cases "min_by_key frq (sort_dedup fs)") auto
  then have "p \<in> set fs" using min_by_key_in by fastforce
  with p show ?thesis using that by (simp add: first_alternatives_simple)
qed

lemma group_ok_members:
  assumes "ms = sort_dedup (List.map_filter from_features fss)"
  shows "group_ok (holds eqv P) fss \<longleftrightarrow> ms = [] \<or> (\<exists>m \<in> set ms. member_holds eqv P m)"
    "\<forall>m \<in> set ms. \<exists>fs. fs \<noteq> [] \<and> m = simple_member fs"
proof -
  have set_ms: "set ms = simple_member ` {fs \<in> set fss. fs \<noteq> []}"
    by (simp add: assms set_members_from_features)
  then show "\<forall>m \<in> set ms. \<exists>fs. fs \<noteq> [] \<and> m = simple_member fs" by auto
  have "ms = [] \<longleftrightarrow> (\<forall>fs \<in> set fss. fs = [])"
    using set_ms by (metis (mono_tags, lifting) Collect_empty_eq image_is_empty set_empty)
  moreover have "(\<exists>m \<in> set ms. member_holds eqv P m) \<longleftrightarrow>
      (\<exists>fs \<in> set fss. fs \<noteq> [] \<and> (\<forall>f \<in> set fs. holds eqv P f))"
    unfolding set_ms by (auto simp: member_holds_simple)
  ultimately show "group_ok (holds eqv P) fss \<longleftrightarrow> ms = [] \<or> (\<exists>m \<in> set ms. member_holds eqv P m)"
    by (simp add: group_ok_def)
qed

definition proxies_of :: "(feature_id \<Rightarrow> u32) \<Rightarrow> anyof_member list \<Rightarrow> feature_id list" where
  "proxies_of frq ms = sort_dedup (List.map_filter (\<lambda>m. min_by_key frq (first_alternatives m)) ms)"

lemma proxies_of_members:
  assumes "\<forall>m \<in> set ms. \<exists>fs. fs \<noteq> [] \<and> m = simple_member fs"
  shows "(\<exists>m \<in> set ms. member_holds eqv P m) \<Longrightarrow> \<exists>f \<in> set (proxies_of frq ms). holds eqv P f"
    "\<forall>m \<in> set ms. length (requirements m) \<le> 1 \<Longrightarrow> \<exists>f \<in> set (proxies_of frq ms). holds eqv P f \<Longrightarrow>
      \<exists>m \<in> set ms. member_holds eqv P m"
    "ms \<noteq> [] \<Longrightarrow> proxies_of frq ms \<noteq> []"
proof -
  have set_p: "set (proxies_of frq ms) = {p. \<exists>m \<in> set ms. min_by_key frq (first_alternatives m) = Some p}"
    by (simp add: proxies_of_def set_map_filter)
  have ex: "\<exists>p fs. min_by_key frq (first_alternatives m) = Some p \<and> p \<in> set fs \<and> m = simple_member fs"
    if "m \<in> set ms" for m
    using assms that simple_member_proxy by metis
  show "\<exists>f \<in> set (proxies_of frq ms). holds eqv P f" if hit: "\<exists>m \<in> set ms. member_holds eqv P m"
  proof -
    obtain m where m: "m \<in> set ms" "member_holds eqv P m" using hit by blast
    obtain p fs where "min_by_key frq (first_alternatives m) = Some p" "p \<in> set fs" "m = simple_member fs"
      using ex [OF m(1)] by blast
    then show ?thesis using m set_p by (auto simp: member_holds_simple)
  qed
  show "\<exists>m \<in> set ms. member_holds eqv P m"
    if single: "\<forall>m \<in> set ms. length (requirements m) \<le> 1"
      and hit: "\<exists>f \<in> set (proxies_of frq ms). holds eqv P f"
  proof -
    obtain f m where f: "m \<in> set ms" "min_by_key frq (first_alternatives m) = Some f" "holds eqv P f"
      using hit set_p by auto
    obtain fs where fs: "m = simple_member fs" using assms f(1) by blast
    have "f \<in> set (sort_dedup fs)"
      using f(2) by (intro min_by_key_in) (simp add: fs first_alternatives_simple)
    moreover have "length (sort_dedup fs) \<le> 1"
      using f(1) single by (auto simp: fs simple_member_def)
    ultimately have "sort_dedup fs = [f]" by (cases "sort_dedup fs") auto
    then have "set fs = {f}" by (metis list.set(1) list.set(2) set_sort_dedup)
    then show ?thesis using f(1,3) fs by (intro bexI [of _ m]) (auto simp: member_holds_simple)
  qed
  show "proxies_of frq ms \<noteq> []" if ne: "ms \<noteq> []"
  proof -
    obtain m where m: "m \<in> set ms" using ne by (cases ms) auto
    then obtain p where "min_by_key frq (first_alternatives m) = Some p" using ex by blast
    with m have "p \<in> set (proxies_of frq ms)" using set_p by blast
    then show ?thesis by auto
  qed
qed

lemma lower_anyof_cases:
  assumes "ms = sort_dedup M"
  shows "ms = [] \<Longrightarrow> lower_anyof frq M ex = ex"
    "ms = [m] \<Longrightarrow> lower_anyof frq M ex = ex\<lparr>required := required ex @ concat (requirements m)\<rparr>"
    "length ms > 1 \<Longrightarrow> \<exists>n k. lower_anyof frq M ex = ex\<lparr>semantic_anyof_groups := n, semantic_anyof_terms := k,
       anyof := (if proxies_of frq ms \<noteq> [] then anyof ex @ [proxies_of frq ms] else anyof ex),
       anyof_predicates := (if list_ex (\<lambda>m. length (requirements m) > 1) ms
         then anyof_predicates ex @ [AnyOfPredicate ms] else anyof_predicates ex)\<rparr>"
  unfolding lower_anyof_def Let_def proxies_of_def assms [symmetric] by auto

lemma sat_lower_anyof:
  "sat eqv P N rp fp (lower_anyof frq (List.map_filter from_features fss) ex) \<longleftrightarrow>
     sat eqv P N rp fp ex \<and> group_ok (holds eqv P) fss"
proof -
  define ms where "ms = sort_dedup (List.map_filter from_features fss)"
  note g = group_ok_members [OF ms_def]
  note low = lower_anyof_cases [OF ms_def, where frq = frq and ex = ex]
  consider "ms = []" | m where "ms = [m]" | "length ms > 1"
    by (cases ms; cases "tl ms") auto
  then show ?thesis
  proof cases
    case 1
    then show ?thesis using low(1) g(1) by simp
  next
    case 2
    then obtain fs where fs: "m = simple_member fs" using g(2) by auto
    have "group_ok (holds eqv P) fss \<longleftrightarrow> member_holds eqv P m" using g(1) 2 by simp
    moreover have "set (concat (requirements m)) = set fs" by (simp add: fs simple_member_def)
    ultimately show ?thesis
      using low(2) [OF 2] by (simp add: sat_required member_holds_simple fs)
  next
    case 3
    then have ne: "ms \<noteq> []" by auto
    note p = proxies_of_members [OF g(2)]
    obtain n k where l: "lower_anyof frq (List.map_filter from_features fss) ex =
       ex\<lparr>semantic_anyof_groups := n, semantic_anyof_terms := k,
          anyof := anyof ex @ [proxies_of frq ms],
          anyof_predicates := (if list_ex (\<lambda>m. length (requirements m) > 1) ms
            then anyof_predicates ex @ [AnyOfPredicate ms] else anyof_predicates ex)\<rparr>"
      using low(3) [OF 3] p(3) [OF ne, where frq = frq] by auto
    have ok: "group_ok (holds eqv P) fss \<longleftrightarrow> (\<exists>m \<in> set ms. member_holds eqv P m)"
      using g(1) ne by simp
    show ?thesis
    proof (cases "list_ex (\<lambda>m. length (requirements m) > 1) ms")
      case True
      then show ?thesis using p(1) [where eqv = eqv and P = P and frq = frq] unfolding l ok by (auto simp: sat_def)
    next
      case False
      then have "\<forall>m \<in> set ms. length (requirements m) \<le> 1" by (auto simp: list_ex_iff)
      then show ?thesis using p(1,2) [where eqv = eqv and P = P and frq = frq] False unfolding l ok by (auto simp: sat_def)
    qed
  qed
qed

lemma wf_lower_anyof:
  assumes "wf_extracted ex"
  shows "wf_extracted (lower_anyof frq (List.map_filter from_features fss) ex)"
proof -
  define ms where "ms = sort_dedup (List.map_filter from_features fss)"
  note low = lower_anyof_cases [OF ms_def, where frq = frq and ex = ex]
  have wf: "list_all wf_member_req ms"
    using group_ok_members(2) [OF ms_def] wf_simple_member by (auto simp: list_all_iff)
  consider "ms = []" | m where "ms = [m]" | "length ms > 1"
    by (cases ms; cases "tl ms") auto
  then show ?thesis
  proof cases
    case 3
    then have "ms \<noteq> []" by auto
    then show ?thesis using low(3) [OF 3] assms wf by (auto simp: wf_extracted_def)
  qed (use low assms in \<open>simp_all add: wf_required\<close>)
qed

section \<open>The read-only extraction\<close>

text \<open>
  What the analyzer promises of its edges: they go forward and stay within the positions.
\<close>

definition arcs_valid :: "u32 \<times> position_arc list \<Rightarrow> bool" where
  "arcs_valid r \<longleftrightarrow> (case r of (n, as) \<Rightarrow> list_all (\<lambda>a. pa_start a < pa_end a \<and> pa_end a \<le> n) as)"

lemma phrase_graph_of_wf:
  assumes "arcs_valid (n, as)" "arcs (phrase_graph_of n as) \<noteq> []"
  shows "wf_graph (phrase_graph_of n as)"
proof -
  have can: "canonical_graph (phrase_graph_of n as)" by (rule phrase_graph_of_canonical)
  have valid: "arc_start a < arc_end a \<and> arc_end a \<le> n" if a: "a \<in> set (arcs (phrase_graph_of n as))" for a
  proof -
    obtain f where "f \<in> set (alternatives a)"
      using can a by (cases "alternatives a") (auto simp: canonical_graph_def list_all_iff)
    then have "(arc_start a, arc_end a, f) \<in> edges (arcs (phrase_graph_of n as))"
      using a by (auto simp: edges_def)
    then show ?thesis unfolding edges_phrase_graph_of
      using assms(1) by (auto simp: arc_key_def arcs_valid_def list_all_iff)
  qed
  have pos: "positions (phrase_graph_of n as) = n" by (simp add: phrase_graph_of_def)
  obtain a where "a \<in> set (arcs (phrase_graph_of n as))" using assms(2) by (meson list.set_sel(1))
  then have "n \<noteq> 0" using valid by fastforce
  then show ?thesis using can valid assms(2) by (simp add: wf_graph_def pos list_all_iff)
qed

lemma sat_flush:
  "sat eqv P N rp fp (ex\<lparr>required := flush_positive_run_readonly norm ws d (required ex)\<rparr>) \<longleftrightarrow>
     sat eqv P N rp fp ex \<and> run_ok (\<lambda>t. compile_features_readonly norm t d) (holds eqv P) ws"
  by (auto simp: flush_positive_run_readonly_def sat_required run_ok_def)

lemma extract_clause_readonly_sat:
  assumes "extract_clause_readonly norm d cl (ws, ex) = (ws', ex')"
    and "\<not> (negated cl = False \<and> (\<exists>w. atom_of cl = Term w))"
  shows "ws' = [] \<and> (sat eqv P N rp fp ex' \<longleftrightarrow> sat eqv P N rp fp ex \<and>
     run_ok (\<lambda>t. compile_features_readonly norm t d) (holds eqv P) ws \<and>
     clause_ok (\<lambda>t. compile_features_readonly norm t d) (\<lambda>t. compile_phrase_readonly norm t d)
       eqv P N rp fp cl)"
proof (cases "atom_of cl")
  case (Term w)
  then have "negated cl" using assms(2) by auto
  then show ?thesis using assms(1) Term
    by (auto simp: extract_clause_readonly_def clause_ok_def sat_push_forbidden sat_flush)
next
  case (Phrase w)
  then show ?thesis using assms(1)
    by (auto simp: extract_clause_readonly_def clause_ok_def sat_push_phrase sat_flush Let_def)
next
  case (AnyOf ms)
  then show ?thesis using assms(1)
    by (cases "negated cl")
       (auto simp: extract_clause_readonly_def clause_ok_def sat_fold_forbidden sat_lower_anyof sat_flush Let_def)
qed

lemma extract_clause_readonly_wf:
  assumes "extract_clause_readonly norm d cl (ws, ex) = (ws', ex')" "wf_extracted ex"
    and "\<And>t. arcs_valid (query_arcs_readonly norm t d)"
  shows "wf_extracted ex'"
proof -
  have "wf_graph (compile_phrase_readonly norm t d)" if "arcs (compile_phrase_readonly norm t d) \<noteq> []" for t
    using that assms(3) [of t] phrase_graph_of_wf
    by (auto simp: compile_phrase_readonly_def split: prod.splits)
  then show ?thesis using assms(1,2)
    by (auto simp: extract_clause_readonly_def Let_def wf_push_forbidden wf_fold_forbidden
        wf_lower_anyof wf_push_phrase wf_required split: atom.splits bool.splits if_splits)
qed

lemma extract_clauses_readonly_sat:
  assumes "fold (extract_clause_readonly norm d) cls (ws, ex) = (ws', ex')" "wf_extracted ex"
    and "\<And>t. arcs_valid (query_arcs_readonly norm t d)"
  shows "wf_extracted ex' \<and> (sat eqv P N rp fp ex' \<and>
     run_ok (\<lambda>t. compile_features_readonly norm t d) (holds eqv P) ws' \<longleftrightarrow>
     sat eqv P N rp fp ex \<and> clauses_ok (\<lambda>t. compile_features_readonly norm t d)
       (\<lambda>t. compile_phrase_readonly norm t d) eqv P N rp fp ws cls)"
  using assms(1,2)
proof (induction cls arbitrary: ws ex)
  case (Cons cl cls)
  obtain ws1 ex1 where step: "extract_clause_readonly norm d cl (ws, ex) = (ws1, ex1)" by fastforce
  then have rest: "fold (extract_clause_readonly norm d) cls (ws1, ex1) = (ws', ex')"
    using Cons.prems(1) by simp
  have wf1: "wf_extracted ex1" using extract_clause_readonly_wf [OF step Cons.prems(2) assms(3)] .
  show ?case
  proof (cases "negated cl = False \<and> (\<exists>w. atom_of cl = Term w)")
    case True
    then obtain w where w: "atom_of cl = Term w" "\<not> negated cl" by blast
    then have "ws1 = ws @ [w]" "ex1 = ex" using step by (auto simp: extract_clause_readonly_def)
    then show ?thesis using Cons.IH [OF rest wf1] w by simp
  next
    case False
    note c = extract_clause_readonly_sat [OF step False]
    have "clauses_ok F G eqv P N rp fp ws (cl # cls) \<longleftrightarrow> run_ok F (holds eqv P) ws \<and>
        clause_ok F G eqv P N rp fp cl \<and> clauses_ok F G eqv P N rp fp [] cls" for F G
      using False by (auto split: atom.splits bool.splits)
    then show ?thesis using Cons.IH [OF rest wf1] c [of eqv P N rp fp] by auto
  qed
qed simp

lemma sat_empty [simp]: "sat eqv P N rp fp empty_extracted" "wf_extracted empty_extracted"
  by (simp_all add: sat_def empty_extracted_def wf_extracted_def)

lemma sat_sorted:
  "sat eqv P N rp fp (ex\<lparr>required := sort_dedup r, forbidden := sort_dedup (forbidden ex)\<rparr>) \<longleftrightarrow>
     sat eqv P N rp fp (ex\<lparr>required := r\<rparr>)"
  by (simp add: sat_def)

end
