(* ===== verification/Predicate_Program.thy ===== *)
theory Predicate_Program
  imports Query_Extraction
begin

text \<open>
  The compact word program that a row carries for compound any-of members,
  forbidden conjunctions and quoted phrases (\<open>exact/predicate.rs\<close>): its encoder,
  its validator, the scalar interpreter, the columnar interpreter and the
  ranking walk. A cursor \<open>at\<close> moves over the words as in the source. \<open>None\<close> is
  a panic (a read outside the program); \<open>Inl\<close> inside \<open>Some\<close> is an early
  \<open>return\<close>, \<open>Inr\<close> goes on.
\<close>

section \<open>The title view\<close>

record position_graph =
  graph_positions :: u32
  graph_arcs :: "position_arc list"
  graph_complete :: bool

text \<open>The work buffers are cleared before every use, so of the shared cell only
  whether it can be borrowed matters.\<close>

datatype scratch_cell = Free | Borrowed

record title_view =
  probe_labels :: "feature_id list"
  pos_mask :: u64
  view_pos :: "feature_id list"
  neg_mask :: u64
  view_neg :: "feature_id list"
  pos_graph :: "position_graph option"
  neg_graph :: "position_graph option"
  phrase_scratch :: "scratch_cell option"

definition view_single :: "u64 \<Rightarrow> feature_id list \<Rightarrow> title_view" where
  "view_single m feats =
     \<lparr>probe_labels = feats, pos_mask = m, view_pos = feats, neg_mask = m, view_neg = feats,
      pos_graph = None, neg_graph = None, phrase_scratch = None\<rparr>"

definition view_dual :: "u64 \<Rightarrow> feature_id list \<Rightarrow> u64 \<Rightarrow> feature_id list \<Rightarrow> title_view" where
  "view_dual pm pos nm neg =
     \<lparr>probe_labels = pos, pos_mask = pm, view_pos = pos, neg_mask = nm, view_neg = neg,
      pos_graph = None, neg_graph = None, phrase_scratch = None\<rparr>"

definition view_dual_positioned ::
  "feature_id list \<Rightarrow> u64 \<Rightarrow> feature_id list \<Rightarrow> u32 \<Rightarrow> position_arc list \<Rightarrow> bool \<Rightarrow>
   u64 \<Rightarrow> feature_id list \<Rightarrow> u32 \<Rightarrow> position_arc list \<Rightarrow> scratch_cell \<Rightarrow> title_view" where
  "view_dual_positioned probe pm pos pos_positions pos_arcs pos_complete nm neg neg_positions neg_arcs scratch =
     \<lparr>probe_labels = probe, pos_mask = pm, view_pos = pos, neg_mask = nm, view_neg = neg,
      pos_graph = Some \<lparr>graph_positions = pos_positions, graph_arcs = pos_arcs, graph_complete = pos_complete\<rparr>,
      neg_graph = Some \<lparr>graph_positions = neg_positions, graph_arcs = neg_arcs, graph_complete = True\<rparr>,
      phrase_scratch = Some scratch\<rparr>"

section \<open>The encoder\<close>

definition FEATURE_PROGRAM_VERSION :: u32 where
  "FEATURE_PROGRAM_VERSION = 1"

definition PHRASE_PROGRAM_VERSION :: u32 where
  "PHRASE_PROGRAM_VERSION = 2"

definition RANK_FEATURE_PROGRAM_VERSION :: u32 where
  "RANK_FEATURE_PROGRAM_VERSION = 3"

definition RANK_PHRASE_PROGRAM_VERSION :: u32 where
  "RANK_PHRASE_PROGRAM_VERSION = 4"

lemmas version_defs = FEATURE_PROGRAM_VERSION_def PHRASE_PROGRAM_VERSION_def
  RANK_FEATURE_PROGRAM_VERSION_def RANK_PHRASE_PROGRAM_VERSION_def

definition is_ranked :: "u32 \<Rightarrow> bool" where
  "is_ranked version \<longleftrightarrow> version = RANK_FEATURE_PROGRAM_VERSION \<or> version = RANK_PHRASE_PROGRAM_VERSION"

definition is_phrasal :: "u32 \<Rightarrow> bool" where
  "is_phrasal version \<longleftrightarrow> version = PHRASE_PROGRAM_VERSION \<or> version = RANK_PHRASE_PROGRAM_VERSION"

definition compound_extra_terms :: "anyof_predicate \<Rightarrow> u32" where
  "compound_extra_terms p = saturating_sub (shortest_width (members p)) 1"

definition rank_groups :: "extracted \<Rightarrow> u32" where
  "rank_groups ex =
     max (max (semantic_anyof_groups ex) (u32_of_len (length (anyof ex))))
       (u32_of_len (length (anyof_predicates ex)))"

definition rank_terms :: "extracted \<Rightarrow> u32" where
  "rank_terms ex =
     max (max (semantic_anyof_terms ex)
           (foldl (\<lambda>terms p. saturating_add terms (compound_extra_terms p)) (rank_groups ex) (anyof_predicates ex)))
       (rank_groups ex)"

definition encode_list :: "('a \<Rightarrow> u32 list) \<Rightarrow> 'a list \<Rightarrow> u32 list" where
  "encode_list enc xs = of_nat (length xs) # concat (map enc xs)"

definition encode_run :: "feature_id list \<Rightarrow> u32 list" where
  "encode_run fs = of_nat (length fs) # fs"

definition encode_member :: "anyof_member \<Rightarrow> u32 list" where
  "encode_member m = encode_list encode_run (requirements m)"

definition encode_group :: "anyof_predicate \<Rightarrow> u32 list" where
  "encode_group p = encode_list encode_member (members p)"

definition encode_arc :: "phrase_arc \<Rightarrow> u32 list" where
  "encode_arc a = arc_start a # arc_end a # encode_run (alternatives a)"

definition encode_phrase :: "phrase_graph \<Rightarrow> u32 list" where
  "encode_phrase p = positions p # encode_list encode_arc (arcs p)"

definition encode_phrases :: "phrase_graph list \<Rightarrow> u32 list" where
  "encode_phrases ps = encode_list encode_phrase ps"

definition encode_predicate :: "extracted \<Rightarrow> u32 list \<Rightarrow> (u32 \<times> u32) \<times> u32 list" where
  "encode_predicate ex blob =
     (let proxies = u32_of_len (length (anyof ex));
          offset = of_nat (length blob)
      in if anyof_predicates ex = [] \<and> forbidden_conjunctions ex = [] \<and> required_phrases ex = [] \<and>
            forbidden_phrases ex = [] \<and> rank_groups ex = proxies \<and> rank_terms ex = proxies
         then ((offset, 0), blob)
         else
           let version = (if required_phrases ex = [] \<and> forbidden_phrases ex = []
                 then RANK_FEATURE_PROGRAM_VERSION else RANK_PHRASE_PROGRAM_VERSION);
               blob' = blob @ [version, rank_groups ex, rank_terms ex] @
                 encode_list encode_group (anyof_predicates ex) @
                 encode_list encode_run (forbidden_conjunctions ex) @
                 (if version = RANK_PHRASE_PROGRAM_VERSION
                  then encode_phrases (required_phrases ex) @ encode_phrases (forbidden_phrases ex) else [])
           in ((offset, of_nat (length blob') - offset), blob'))"

fun predicate_has_phrases :: "u32 list \<Rightarrow> bool" where
  "predicate_has_phrases [] \<longleftrightarrow> False"
| "predicate_has_phrases (version # _) \<longleftrightarrow> is_phrasal version"

fun predicate_boolean_program :: "u32 list \<Rightarrow> (u32 \<times> u32 list) option" where
  "predicate_boolean_program [] = Some (0, [])"
| "predicate_boolean_program (version # words) =
     do {
       (boolean_version, body) \<leftarrow>
         (if version = RANK_FEATURE_PROGRAM_VERSION
          then map_option (Pair FEATURE_PROGRAM_VERSION) (slice words 2 (length words - 2))
          else if version = RANK_PHRASE_PROGRAM_VERSION
          then map_option (Pair PHRASE_PROGRAM_VERSION) (slice words 2 (length words - 2))
          else Some (version, words));
       Some (if boolean_version = FEATURE_PROGRAM_VERSION \<and> body = [0, 0] \<or>
                boolean_version = PHRASE_PROGRAM_VERSION \<and> body = [0, 0, 0, 0]
             then (0, []) else (boolean_version, body))
     }"

section \<open>Loops over a program\<close>

definition andthen :: "('r + 'a) option \<Rightarrow> ('a \<Rightarrow> ('r + 'b) option) \<Rightarrow> ('r + 'b) option" where
  "andthen m k = (case m of None \<Rightarrow> None | Some (Inl r) \<Rightarrow> Some (Inl r) | Some (Inr a) \<Rightarrow> k a)"

fun loop :: "nat \<Rightarrow> ('s \<Rightarrow> ('r + 's) option) \<Rightarrow> 's \<Rightarrow> ('r + 's) option" where
  "loop 0 body s = Some (Inr s)"
| "loop (Suc n) body s = andthen (body s) (loop n body)"

text \<open>\<open>let n = words[at]; at += 1; for _ in 0..n\<close>, and a counted run of features.\<close>

definition counted_loop ::
  "u32 list \<Rightarrow> (nat \<times> 's \<Rightarrow> ('r + nat \<times> 's) option) \<Rightarrow> nat \<times> 's \<Rightarrow> ('r + nat \<times> 's) option" where
  "counted_loop words body s =
     (case at_index words (fst s) of None \<Rightarrow> None | Some n \<Rightarrow> loop (unat n) body (Suc (fst s), snd s))"

definition take_run :: "u32 list \<Rightarrow> nat \<Rightarrow> (feature_id list \<times> nat) option" where
  "take_run words at =
     do { n \<leftarrow> at_index words at; fs \<leftarrow> slice words (Suc at) (unat n); Some (fs, Suc at + unat n) }"

fun skip_arcs :: "u32 list \<Rightarrow> nat \<Rightarrow> nat \<Rightarrow> nat option" where
  "skip_arcs words 0 at = Some at"
| "skip_arcs words (Suc n) at = do { c \<leftarrow> at_index words (at + 2); skip_arcs words n (at + 3 + unat c) }"

definition skip_graph :: "u32 list \<Rightarrow> nat \<Rightarrow> nat option" where
  "skip_graph words at = do { n \<leftarrow> at_index words (at + 1); skip_arcs words (unat n) (at + 2) }"

definition take_graph :: "u32 list \<Rightarrow> nat \<Rightarrow> (u32 list \<times> nat) option" where
  "take_graph words at = do { e \<leftarrow> skip_graph words at; g \<leftarrow> slice words at (e - at); Some (g, e) }"

section \<open>The graph search over an encoded phrase\<close>

fun query_words_loop ::
  "u32 list \<Rightarrow> u32 \<Rightarrow> position_arc list \<Rightarrow> nat \<Rightarrow> nat \<Rightarrow> bounded_state \<Rightarrow> bounded_state option option" where
  "query_words_loop query qn tas 0 at st = Some (Some st)"
| "query_words_loop query qn tas (Suc n) at (work, seen, stack) =
     (if work \<ge> PHRASE_GRAPH_MAX_WORK then Some None
      else do {
        start \<leftarrow> at_index query at;
        e \<leftarrow> at_index query (at + 1);
        c \<leftarrow> at_index query (at + 2);
        alts \<leftarrow> slice query (at + 3) (unat c);
        if start < qn then query_words_loop query qn tas n (at + 3 + unat c) (Suc work, seen, stack)
        else if start > qn then Some (Some (Suc work, seen, stack))
        else (case title_loop e alts tas (Suc work, seen, stack) of
            None \<Rightarrow> Some None
          | Some st \<Rightarrow> query_words_loop query qn tas n (at + 3 + unat c) st)
      })"

lemma query_words_loop_work:
  "query_words_loop query qn tas n at (w, seen, stack) = Some (Some (w', seen', stack')) \<Longrightarrow>
     w \<le> w' \<and> (w \<le> PHRASE_GRAPH_MAX_WORK \<longrightarrow> w' \<le> PHRASE_GRAPH_MAX_WORK) \<and>
     (n \<noteq> 0 \<longrightarrow> w < w' \<and> w' \<le> PHRASE_GRAPH_MAX_WORK) \<and> (n = 0 \<longrightarrow> stack' = stack)"
proof (induction query qn tas n at "(w, seen, stack)" arbitrary: w seen stack rule: query_words_loop.induct)
  case (2 query qn tas n at w seen stack)
  have small: "w < PHRASE_GRAPH_MAX_WORK" using 2(3) by (auto split: if_splits)
  obtain start e c alts where reads: "at_index query at = Some start" "at_index query (at + 1) = Some e"
    "at_index query (at + 2) = Some c" "slice query (at + 3) (unat c) = Some alts"
    using 2(3) small by (auto split: Option.bind_splits)
  show ?case
  proof (cases "start < qn \<or> start > qn")
    case True
    then show ?thesis using 2(1) [of start e c alts] 2(3) small reads by (auto split: if_splits)
  next
    case False
    then obtain w1 seen1 stack1 where
      t: "title_loop e alts tas (Suc w, seen, stack) = Some (w1, seen1, stack1)"
      and q: "query_words_loop query qn tas n (at + 3 + unat c) (w1, seen1, stack1) = Some (Some (w', seen', stack'))"
      using 2(3) small reads by (auto split: option.splits)
    show ?thesis
      using 2(2) [OF _ reads _ _ t q] False small title_loop_work [OF t] by fastforce
  qed
qed simp

function graph_words_loop :: "u32 list \<Rightarrow> u32 \<Rightarrow> position_arc list \<Rightarrow> bounded_state \<Rightarrow> bool option option" where
  "graph_words_loop query qp t (work, seen, []) = Some (Some False)"
| "graph_words_loop query qp t (work, seen, (qn, tn) # rest) =
     (if qn = qp then Some (Some True)
      else case at_index query 1 of
          None \<Rightarrow> None
        | Some n \<Rightarrow> (case query_words_loop query qn (title_slice tn t) (unat n) 2 (work, seen, rest) of
              None \<Rightarrow> None
            | Some None \<Rightarrow> Some None
            | Some (Some st) \<Rightarrow> graph_words_loop query qp t st))"
  by pat_completeness auto
termination
proof (relation "measures [\<lambda>(q, p, t, w, seen, stack). PHRASE_GRAPH_MAX_WORK - w,
                           \<lambda>(q, p, t, w, seen, stack). length stack]", goal_cases)
  case (2 query qp t w seen qn tn rest n r st)
  obtain w' seen' stack' where st: "st = (w', seen', stack')" by (metis prod_cases3)
  have "query_words_loop query qn (title_slice tn t) (unat n) 2 (w, seen, rest) = Some (Some (w', seen', stack'))"
    using 2 st by simp
  from query_words_loop_work [OF this] show ?case
    by (cases "unat n = 0") (auto simp: st)
qed simp

definition graph_matches :: "u32 list \<Rightarrow> position_graph \<Rightarrow> bool option option" where
  "graph_matches query title =
     (if \<not> graph_complete title then Some None
      else case at_index query 0 of
          None \<Rightarrow> None
        | Some query_positions \<Rightarrow>
            if unat (graph_positions title) > PHRASE_GRAPH_MAX_STATES then Some None
            else graph_words_loop query query_positions (graph_arcs title)
              (0, set (initial_states (graph_positions title)), initial_states (graph_positions title)))"

section \<open>The scalar interpreter\<close>

definition verify_requirement ::
  "u32 list \<Rightarrow> feature_id list \<Rightarrow> nat \<times> bool \<Rightarrow> (bool + nat \<times> bool) option" where
  "verify_requirement words pos s =
     (case take_run words (fst s) of
        None \<Rightarrow> None
      | Some (alts, at) \<Rightarrow>
          Some (Inr (at, if snd s \<and> \<not> list_ex (search_ok pos) alts then False else snd s)))"

definition verify_member :: "u32 list \<Rightarrow> feature_id list \<Rightarrow> nat \<times> bool \<Rightarrow> (bool + nat \<times> bool) option" where
  "verify_member words pos s =
     andthen (counted_loop words (verify_requirement words pos) (fst s, True))
       (\<lambda>(at, member_hit). Some (Inr (at, snd s \<or> member_hit)))"

definition verify_group :: "u32 list \<Rightarrow> feature_id list \<Rightarrow> nat \<times> unit \<Rightarrow> (bool + nat \<times> unit) option" where
  "verify_group words pos s =
     andthen (counted_loop words (verify_member words pos) (fst s, False))
       (\<lambda>(at, group_hit). Some (if group_hit then Inr (at, ()) else Inl False))"

definition verify_negative :: "u32 list \<Rightarrow> feature_id list \<Rightarrow> nat \<times> unit \<Rightarrow> (bool + nat \<times> unit) option" where
  "verify_negative words neg s =
     (case take_run words (fst s) of
        None \<Rightarrow> None
      | Some (fs, at) \<Rightarrow> Some (if list_all (search_ok neg) fs then Inl False else Inr (at, ())))"

definition skip_step :: "u32 list \<Rightarrow> nat \<times> unit \<Rightarrow> (bool + nat \<times> unit) option" where
  "skip_step words s = map_option (\<lambda>at. Inr (at, ())) (skip_graph words (fst s))"

text \<open>One quoted graph: the answer \<open>bad\<close> of the search rejects the title, the fail-open \<open>None\<close> does not.\<close>

definition verify_graph ::
  "bool \<Rightarrow> u32 list \<Rightarrow> position_graph \<Rightarrow> nat \<times> unit \<Rightarrow> (bool + nat \<times> unit) option" where
  "verify_graph bad words title s =
     (case take_graph words (fst s) of
        None \<Rightarrow> None
      | Some (graph, at) \<Rightarrow>
          (case graph_matches graph title of
             None \<Rightarrow> None
           | Some r \<Rightarrow> Some (if r = Some bad then Inl False else Inr (at, ()))))"

definition verify_phrases :: "u32 list \<Rightarrow> title_view \<Rightarrow> nat \<Rightarrow> (bool + nat \<times> unit) option" where
  "verify_phrases words view required_at =
     andthen (counted_loop words (skip_step words) (required_at, ()))
       (\<lambda>(forbidden_at, _).
         case at_index words forbidden_at of
           None \<Rightarrow> None
         | Some _ \<Rightarrow>
             (case (pos_graph view, neg_graph view, phrase_scratch view) of
                (Some pg, Some ng, Some Free) \<Rightarrow>
                  andthen (counted_loop words (verify_graph False words pg) (required_at, ()))
                    (\<lambda>_. counted_loop words (verify_graph True words ng) (forbidden_at, ()))
              | _ \<Rightarrow> Some (Inl True)))"

definition body_start :: "u32 \<Rightarrow> nat" where
  "body_start version = (if is_ranked version then 3 else 1)"

definition verify_predicate :: "u32 list \<Rightarrow> title_view \<Rightarrow> bool option" where
  "verify_predicate words view =
     (if words = [] then Some True
      else let version = hd words in
        map_option (case_sum (\<lambda>answer. answer) (\<lambda>_. True))
          (andthen (counted_loop words (verify_group words (view_pos view)) (body_start version, ()))
            (\<lambda>s. andthen (counted_loop words (verify_negative words (view_neg view)) s)
              (\<lambda>s. if is_phrasal version then verify_phrases words view (fst s) else Some (Inr s)))))"

section \<open>The ranking walk\<close>

text \<open>The walk has no early return.\<close>

definition rank_requirement :: "u32 list \<Rightarrow> nat \<times> unit \<Rightarrow> (unit + nat \<times> unit) option" where
  "rank_requirement words s = map_option (\<lambda>n. Inr (fst s + 1 + unat n, ())) (at_index words (fst s))"

definition rank_member :: "u32 list \<Rightarrow> nat \<times> u32 \<Rightarrow> (unit + nat \<times> u32) option" where
  "rank_member words s =
     (case at_index words (fst s) of
        None \<Rightarrow> None
      | Some requirement_count \<Rightarrow>
          andthen (counted_loop words (rank_requirement words) (fst s, ()))
            (\<lambda>(at, _). Some (Inr (at, min (snd s) requirement_count))))"

definition rank_group :: "u32 list \<Rightarrow> nat \<times> u32 \<Rightarrow> (unit + nat \<times> u32) option" where
  "rank_group words s =
     andthen (counted_loop words (rank_member words) (fst s, - 1))
       (\<lambda>(at, shortest). Some (Inr (at, saturating_add (snd s) (saturating_sub shortest 1))))"

definition rank_negative :: "u32 list \<Rightarrow> nat \<times> u32 \<Rightarrow> (unit + nat \<times> u32) option" where
  "rank_negative words s =
     map_option (\<lambda>n. Inr (fst s + 1 + unat n, saturating_add (snd s) n)) (at_index words (fst s))"

definition rank_phrase :: "u32 list \<Rightarrow> nat \<times> u32 \<Rightarrow> (unit + nat \<times> u32) option" where
  "rank_phrase words s =
     do {
       n \<leftarrow> at_index words (fst s);
       at \<leftarrow> skip_graph words (fst s);
       Some (Inr (at, saturating_add (snd s) n))
     }"

definition rank_phrases :: "u32 list \<Rightarrow> nat \<times> u32 \<Rightarrow> (unit + (u32 \<times> u32)) option" where
  "rank_phrases words s =
     andthen (counted_loop words (rank_phrase words) (fst s, 0))
       (\<lambda>(at, positive). andthen (counted_loop words (rank_phrase words) (at, snd s))
         (\<lambda>(_, negative). Some (Inr (positive, negative))))"

definition predicate_rank_term_counts :: "u32 list \<Rightarrow> u32 \<Rightarrow> (u32 \<times> u32 \<times> u32) option" where
  "predicate_rank_term_counts words proxies =
     (if words = [] then Some (proxies, 0, proxies)
      else let version = hd words in
        do {
          semantic \<leftarrow> (if is_ranked version
            then do { groups \<leftarrow> at_index words 1; terms \<leftarrow> at_index words 2; Some (Some (groups, terms)) }
            else Some None);
          positive_count \<leftarrow> at_index words (body_start version);
          r \<leftarrow> andthen (counted_loop words (rank_group words) (body_start version, 0))
            (\<lambda>(at, extra). andthen (counted_loop words (rank_negative words) (at, 0))
              (\<lambda>s. andthen (if is_phrasal version then rank_phrases words s else Some (Inr (0, snd s)))
                (\<lambda>(phrase_terms, negative).
                  let (groups, terms) = (case semantic of
                      Some counts \<Rightarrow> counts
                    | None \<Rightarrow> let groups = max proxies positive_count in (groups, saturating_add groups extra))
                  in Some (Inr (saturating_add terms phrase_terms, negative, groups)))));
          (case r of Inl _ \<Rightarrow> None | Inr counts \<Rightarrow> Some counts)
        })"

section \<open>The validator\<close>

datatype predicate_error =
    Truncated | LengthOverflow | RunTruncated | UnsupportedVersion
  | GroupCountTooSmall | TermCountBelowGroups | TermCountOmitsCompound
  | NoMembers | NoRequirements | NoAlternatives | NegativeTooShort
  | EmptyGraph | ArcOutside | ArcsNotCanonical | NoLabels | LabelsNotCanonical | NoPath
  | NoQuotedGraphs | TrailingWords

definition read_word :: "u32 list \<Rightarrow> nat \<Rightarrow> (predicate_error + u32 \<times> nat) option" where
  "read_word words at =
     (case at_index words at of None \<Rightarrow> Some (Inl Truncated) | Some w \<Rightarrow> Some (Inr (w, Suc at)))"

definition take_words :: "u32 list \<Rightarrow> nat \<Rightarrow> u32 \<Rightarrow> (predicate_error + nat) option" where
  "take_words words at n =
     (case usize_checked_add at (unat n) of
        None \<Rightarrow> Some (Inl LengthOverflow)
      | Some e \<Rightarrow> Some (if e > length words then Inl RunTruncated else Inr e))"

definition validate_requirement :: "u32 list \<Rightarrow> nat \<times> unit \<Rightarrow> (predicate_error + nat \<times> unit) option" where
  "validate_requirement words s =
     andthen (read_word words (fst s)) (\<lambda>(n, at).
       if n = 0 then Some (Inl NoAlternatives)
       else andthen (take_words words at n) (\<lambda>at. Some (Inr (at, ()))))"

definition validate_member :: "u32 list \<Rightarrow> nat \<times> u32 \<Rightarrow> (predicate_error + nat \<times> u32) option" where
  "validate_member words s =
     andthen (read_word words (fst s)) (\<lambda>(n, at).
       if n = 0 then Some (Inl NoRequirements)
       else andthen (loop (unat n) (validate_requirement words) (at, ()))
         (\<lambda>(at, _). Some (Inr (at, min (snd s) n))))"

definition validate_group :: "u32 list \<Rightarrow> nat \<times> u32 \<Rightarrow> (predicate_error + nat \<times> u32) option" where
  "validate_group words s =
     andthen (read_word words (fst s)) (\<lambda>(n, at).
       if n = 0 then Some (Inl NoMembers)
       else andthen (loop (unat n) (validate_member words) (at, - 1))
         (\<lambda>(at, shortest). Some (Inr (at, saturating_add (snd s) (saturating_sub shortest 1)))))"

definition validate_negative :: "u32 list \<Rightarrow> nat \<times> unit \<Rightarrow> (predicate_error + nat \<times> unit) option" where
  "validate_negative words s =
     andthen (read_word words (fst s)) (\<lambda>(n, at).
       if n < 2 then Some (Inl NegativeTooShort)
       else andthen (take_words words at n) (\<lambda>at. Some (Inr (at, ()))))"

text \<open>\<open>windows(2).any(|pair| pair[0] >= pair[1])\<close>\<close>

definition not_ascending :: "u32 list \<Rightarrow> bool" where
  "not_ascending fs \<longleftrightarrow> list_ex (\<lambda>(a, b). a \<ge> b) (zip fs (tl fs))"

text \<open>The state of the arc loop: the previous span and the reachable positions.\<close>

definition validate_arc ::
  "u32 list \<Rightarrow> u32 \<Rightarrow> nat \<times> ((u32 \<times> u32) option \<times> u32 set) \<Rightarrow>
   (predicate_error + nat \<times> ((u32 \<times> u32) option \<times> u32 set)) option" where
  "validate_arc words pos s =
     (case s of (at, previous, reachable) \<Rightarrow>
       andthen (read_word words at) (\<lambda>(start, at).
       andthen (read_word words at) (\<lambda>(e, at).
       andthen (read_word words at) (\<lambda>(n, at).
         if start \<ge> e \<or> e > pos then Some (Inl ArcOutside)
         else if (case previous of None \<Rightarrow> False | Some old \<Rightarrow> old \<ge> (start, e)) then Some (Inl ArcsNotCanonical)
         else if n = 0 then Some (Inl NoLabels)
         else andthen (take_words words at n) (\<lambda>at'.
           case slice words at (at' - at) of
             None \<Rightarrow> None
           | Some labels \<Rightarrow>
               Some (if not_ascending labels then Inl LabelsNotCanonical
                     else Inr (at', Some (start, e),
                       if start \<in> reachable then insert e reachable else reachable)))))))"

definition validate_phrase :: "u32 list \<Rightarrow> nat \<times> unit \<Rightarrow> (predicate_error + nat \<times> unit) option" where
  "validate_phrase words s =
     andthen (read_word words (fst s)) (\<lambda>(pos, at).
     andthen (read_word words at) (\<lambda>(n, at).
       if pos = 0 \<or> n = 0 then Some (Inl EmptyGraph)
       else andthen (loop (unat n) (validate_arc words pos) (at, None, {0}))
         (\<lambda>(at, _, reachable). Some (if pos \<notin> reachable then Inl NoPath else Inr (at, ())))))"

definition validate_phrases :: "u32 list \<Rightarrow> nat \<Rightarrow> (predicate_error + u32 \<times> nat) option" where
  "validate_phrases words at =
     andthen (read_word words at) (\<lambda>(n, at).
       andthen (loop (unat n) (validate_phrase words) (at, ())) (\<lambda>(at, _). Some (Inr (n, at))))"

definition validate_version :: "u32 \<Rightarrow> bool" where
  "validate_version version \<longleftrightarrow> version \<in> {FEATURE_PROGRAM_VERSION, PHRASE_PROGRAM_VERSION,
     RANK_FEATURE_PROGRAM_VERSION, RANK_PHRASE_PROGRAM_VERSION}"

definition read_semantic ::
  "u32 list \<Rightarrow> u32 \<Rightarrow> nat \<Rightarrow> (predicate_error + (u32 \<times> u32) option \<times> nat) option" where
  "read_semantic words version at =
     (if is_ranked version
      then andthen (read_word words at) (\<lambda>(groups, at).
           andthen (read_word words at) (\<lambda>(terms, at). Some (Inr (Some (groups, terms), at))))
      else Some (Inr (None, at)))"

definition semantic_some :: "(u32 \<times> u32) option \<Rightarrow> (u32 \<Rightarrow> u32 \<Rightarrow> bool) \<Rightarrow> bool" where
  "semantic_some semantic P \<longleftrightarrow> (case semantic of None \<Rightarrow> False | Some (groups, terms) \<Rightarrow> P groups terms)"

definition validate_quoted :: "u32 list \<Rightarrow> u32 \<Rightarrow> nat \<Rightarrow> (predicate_error + nat) option" where
  "validate_quoted words version at =
     (if is_phrasal version
      then andthen (validate_phrases words at) (\<lambda>(req_count, at).
           andthen (validate_phrases words at) (\<lambda>(forb_count, at).
             Some (if req_count = 0 \<and> forb_count = 0 then Inl NoQuotedGraphs else Inr at)))
      else Some (Inr at))"

definition validate_tail :: "u32 list \<Rightarrow> u32 \<Rightarrow> nat \<Rightarrow> (predicate_error + unit) option" where
  "validate_tail words version at =
     andthen (read_word words at) (\<lambda>(negative_count, at).
     andthen (loop (unat negative_count) (validate_negative words) (at, ())) (\<lambda>(at, _).
     andthen (validate_quoted words version at) (\<lambda>at. Some (if at \<noteq> length words then Inl TrailingWords else Inr ()))))"

definition validate_predicate :: "u32 list \<Rightarrow> (predicate_error + unit) option" where
  "validate_predicate words =
     (if words = [] then Some (Inr ())
      else
       andthen (read_word words 0) (\<lambda>(version, at).
         if \<not> validate_version version then Some (Inl UnsupportedVersion)
         else andthen (read_semantic words version at) (\<lambda>(semantic, at).
         andthen (read_word words at) (\<lambda>(positive_count, at).
           if semantic_some semantic (\<lambda>groups terms. groups < positive_count) then Some (Inl GroupCountTooSmall)
           else if semantic_some semantic (\<lambda>groups terms. terms < groups) then Some (Inl TermCountBelowGroups)
           else andthen (loop (unat positive_count) (validate_group words) (at, 0)) (\<lambda>(at, extra).
             if semantic_some semantic (\<lambda>groups terms. terms < saturating_add groups extra)
             then Some (Inl TermCountOmitsCompound)
             else validate_tail words version at)))))"

section \<open>The columnar interpreter\<close>

text \<open>\<open>for (dst, src) in dst.iter_mut().zip(src)\<close>: what lies past the shorter array stays.\<close>

definition zip_into :: "(u64 \<Rightarrow> u64 \<Rightarrow> u64) \<Rightarrow> u64 list \<Rightarrow> u64 list \<Rightarrow> u64 list" where
  "zip_into f dst src = map2 f dst src @ drop (length src) dst"

definition fill :: "u64 \<Rightarrow> u64 list \<Rightarrow> u64 list" where
  "fill v xs = replicate (length xs) v"

definition any_nonzero :: "u64 list \<Rightarrow> bool" where
  "any_nonzero xs \<longleftrightarrow> fold (OR) xs 0 \<noteq> 0"

type_synonym bitmap_lookup = "feature_id \<Rightarrow> u64 list option"

definition or_bitmap :: "bitmap_lookup \<Rightarrow> feature_id \<Rightarrow> u64 list \<Rightarrow> u64 list" where
  "or_bitmap look f dst = (case look f of None \<Rightarrow> dst | Some bm \<Rightarrow> zip_into (OR) dst bm)"

definition batch_requirement ::
  "u32 list \<Rightarrow> bitmap_lookup \<Rightarrow> u64 list \<Rightarrow> nat \<times> u64 list \<Rightarrow> (u64 list + nat \<times> u64 list) option" where
  "batch_requirement words look choice s =
     (case take_run words (fst s) of
        None \<Rightarrow> None
      | Some (alts, at) \<Rightarrow>
          Some (Inr (at, zip_into (AND) (snd s) (fold (or_bitmap look) alts (fill 0 choice)))))"

definition batch_member ::
  "u32 list \<Rightarrow> bitmap_lookup \<Rightarrow> u64 list \<Rightarrow> u64 list \<Rightarrow> nat \<times> u64 list \<Rightarrow> (u64 list + nat \<times> u64 list) option" where
  "batch_member words look member choice s =
     andthen (counted_loop words (batch_requirement words look choice) (fst s, fill (- 1) member))
       (\<lambda>(at, member'). Some (Inr (at, zip_into (OR) (snd s) member')))"

text \<open>\<open>acc &= group\<close> or \<open>acc &= !member\<close>; the evaluation returns once no bit is left.\<close>

definition narrow :: "nat \<Rightarrow> u64 list \<Rightarrow> u64 list \<Rightarrow> u64 list + nat \<times> u64 list" where
  "narrow at acc keep =
     (let acc' = zip_into (AND) acc keep
      in if any_nonzero (take (length keep) acc') then Inr (at, acc') else Inl acc')"

definition batch_group ::
  "u32 list \<Rightarrow> bitmap_lookup \<Rightarrow> u64 list \<Rightarrow> u64 list \<Rightarrow> u64 list \<Rightarrow> nat \<times> u64 list \<Rightarrow>
   (u64 list + nat \<times> u64 list) option" where
  "batch_group words look grp member choice s =
     andthen (counted_loop words (batch_member words look member choice) (fst s, fill 0 grp))
       (\<lambda>(at, grp'). Some (narrow at (snd s) grp'))"

fun and_bitmaps :: "bitmap_lookup \<Rightarrow> feature_id list \<Rightarrow> u64 list \<Rightarrow> u64 list" where
  "and_bitmaps look [] member = member"
| "and_bitmaps look (f # fs) member =
     (case look f of None \<Rightarrow> fill 0 member | Some bm \<Rightarrow> and_bitmaps look fs (zip_into (AND) member bm))"

definition batch_negative ::
  "u32 list \<Rightarrow> bitmap_lookup \<Rightarrow> u64 list \<Rightarrow> nat \<times> u64 list \<Rightarrow> (u64 list + nat \<times> u64 list) option" where
  "batch_negative words look member s =
     (case take_run words (fst s) of
        None \<Rightarrow> None
      | Some (fs, at) \<Rightarrow> Some (narrow at (snd s) (map NOT (and_bitmaps look fs (fill (- 1) member)))))"

definition eval_predicate_batch ::
  "u32 list \<Rightarrow> bitmap_lookup \<Rightarrow> u64 list \<Rightarrow> u64 list \<Rightarrow> u64 list \<Rightarrow> u64 list \<Rightarrow> u64 list option" where
  "eval_predicate_batch words look acc grp member choice =
     (if words = [] then Some acc
      else map_option (case_sum (\<lambda>acc. acc) snd)
        (andthen (counted_loop words (batch_group words look grp member choice) (body_start (hd words), acc))
          (counted_loop words (batch_negative words look member))))"

end
