(* ===== verification/Predicate_Correct.thy ===== *)
theory Predicate_Correct
  imports Predicate_Program
begin

text \<open>
  The program interpreters against the structured predicate: a program is the
  encoding of a \<open>program\<close> value, every interpreter run on an encoding computes
  the function of that value it should, and the validator accepts exactly the
  encodings of valid programs.
\<close>

section \<open>Reading an encoding\<close>

named_theorems cursor \<open>reads at a cursor whose suffix is known\<close>

lemma drop_advance [cursor]: "drop at words = xs @ post \<Longrightarrow> drop (at + length xs) words = post"
  by (metis add.commute append_eq_conv_conj drop_drop)

lemma at_index_cursor [cursor]: "drop at words = w # post \<Longrightarrow> at_index words at = Some w"
  by (metis at_index_def drop_all leI list.discI list.sel(1) hd_drop_conv_nth)

lemma drop_Suc_cursor [cursor]: "drop at words = w # post \<Longrightarrow> drop (Suc at) words = post"
  by (metis drop_Suc list.sel(3) tl_drop)

lemma cursor_bound [cursor]: "drop at words = w # post \<Longrightarrow> Suc at \<le> length words"
  by (metis Suc_leI drop_all leI list.discI)

lemma slice_cursor [cursor]:
  assumes "drop at words = xs @ post" "at \<le> length words"
  shows "slice words at (length xs) = Some xs"
proof -
  have "length xs \<le> length words - at" using arg_cong [OF assms(1), of length] by simp
  then show ?thesis using assms by (simp add: slice_def)
qed

lemma andthen_simps [simp]:
  "andthen None k = None"
  "andthen (Some (Inl r)) k = Some (Inl r)"
  "andthen (Some (Inr a)) k = k a"
  by (simp_all add: andthen_def)

fun resume :: "nat \<Rightarrow> 'r + 's \<Rightarrow> 'r + nat \<times> 's" where
  "resume at (Inl r) = Inl r"
| "resume at (Inr s) = Inr (at, s)"

lemma loop_encoded:
  assumes "\<And>x at st post. x \<in> set xs \<Longrightarrow> drop at words = enc x @ post \<Longrightarrow>
      body (at, st) = Some (resume (at + length (enc x)) (f x st))"
    and "drop at words = concat (map enc xs) @ post"
  shows "loop (length xs) body (at, st) =
    Some (resume (at + length (concat (map enc xs))) (try_fold f xs st))"
  using assms
proof (induction xs arbitrary: at st)
  case (Cons x xs)
  have here: "drop at words = enc x @ (concat (map enc xs) @ post)" using Cons.prems(2) by simp
  have body: "body (at, st) = Some (resume (at + length (enc x)) (f x st))"
    using Cons.prems(1) [OF _ here] by simp
  show ?case
  proof (cases "f x st")
    case (Inl r)
    then show ?thesis using body by simp
  next
    case (Inr st')
    have "loop (length xs) body (at + length (enc x), st') =
        Some (resume (at + length (enc x) + length (concat (map enc xs))) (try_fold f xs st'))"
      using Cons.IH Cons.prems(1) drop_advance [OF here] by simp
    then show ?thesis using body Inr by (simp add: add.assoc)
  qed
qed simp

definition fits :: "'a list \<Rightarrow> bool" where
  "fits xs \<longleftrightarrow> length xs < 2 ^ 32"

lemma unat_fits: "fits xs \<Longrightarrow> unat (of_nat (length xs) :: u32) = length xs"
  by (simp add: fits_def unat_of_nat take_bit_nat_eq_self)

lemma counted_encoded:
  assumes "drop at words = encode_list enc xs @ post" "fits xs"
    and "\<And>x at st post. x \<in> set xs \<Longrightarrow> drop at words = enc x @ post \<Longrightarrow>
      body (at, st) = Some (resume (at + length (enc x)) (f x st))"
  shows "counted_loop words body (at, st) =
    Some (resume (at + length (encode_list enc xs)) (try_fold f xs st))"
proof -
  have here: "drop at words = of_nat (length xs) # (concat (map enc xs) @ post)"
    using assms(1) by (simp add: encode_list_def)
  have "loop (length xs) body (Suc at, st) =
      Some (resume (Suc at + length (concat (map enc xs))) (try_fold f xs st))"
    by (rule loop_encoded [OF assms(3) drop_Suc_cursor [OF here]])
  then show ?thesis
    using at_index_cursor [OF here] unat_fits [OF assms(2)] by (simp add: counted_loop_def encode_list_def)
qed

lemma take_run_encoded:
  assumes "drop at words = encode_run fs @ post" "fits fs"
  shows "take_run words at = Some (fs, at + length (encode_run fs))"
proof -
  have here: "drop at words = of_nat (length fs) # (fs @ post)" using assms(1) by (simp add: encode_run_def)
  then show ?thesis
    using at_index_cursor [OF here] slice_cursor [OF drop_Suc_cursor [OF here] cursor_bound [OF here]] unat_fits [OF assms(2)]
    by (simp add: take_run_def encode_run_def)
qed

lemma try_fold_Inr: "try_fold (\<lambda>x s. Inr (g x s)) xs s = Inr (fold g xs s)"
  by (induction xs arbitrary: s) simp_all

section \<open>Programs\<close>

record program =
  prog_rank :: "(u32 \<times> u32) option"
  prog_groups :: "anyof_predicate list"
  prog_negatives :: "feature_id list list"
  prog_phrases :: "(phrase_graph list \<times> phrase_graph list) option"

definition program_version :: "program \<Rightarrow> u32" where
  "program_version p =
     (case prog_rank p of
        None \<Rightarrow> (case prog_phrases p of None \<Rightarrow> FEATURE_PROGRAM_VERSION | Some _ \<Rightarrow> PHRASE_PROGRAM_VERSION)
      | Some _ \<Rightarrow> (case prog_phrases p of None \<Rightarrow> RANK_FEATURE_PROGRAM_VERSION | Some _ \<Rightarrow> RANK_PHRASE_PROGRAM_VERSION))"

definition encode_rank :: "(u32 \<times> u32) option \<Rightarrow> u32 list" where
  "encode_rank rank = (case rank of None \<Rightarrow> [] | Some (groups, terms) \<Rightarrow> [groups, terms])"

definition encode_quoted :: "(phrase_graph list \<times> phrase_graph list) option \<Rightarrow> u32 list" where
  "encode_quoted quoted =
     (case quoted of None \<Rightarrow> [] | Some (req, forb) \<Rightarrow> encode_phrases req @ encode_phrases forb)"

definition encode_body :: "program \<Rightarrow> u32 list" where
  "encode_body p = encode_list encode_group (prog_groups p) @ encode_list encode_run (prog_negatives p) @
     encode_quoted (prog_phrases p)"

definition encode_program :: "program \<Rightarrow> u32 list" where
  "encode_program p = program_version p # encode_rank (prog_rank p) @ encode_body p"

definition sized_group :: "anyof_predicate \<Rightarrow> bool" where
  "sized_group g \<longleftrightarrow> fits (members g) \<and>
     (\<forall>m \<in> set (members g). fits (requirements m) \<and> (\<forall>r \<in> set (requirements m). fits r))"

definition sized_phrase :: "phrase_graph \<Rightarrow> bool" where
  "sized_phrase q \<longleftrightarrow> fits (arcs q) \<and> (\<forall>a \<in> set (arcs q). fits (alternatives a))"

definition sized_phrases :: "phrase_graph list \<Rightarrow> bool" where
  "sized_phrases ps \<longleftrightarrow> fits ps \<and> (\<forall>q \<in> set ps. sized_phrase q)"

definition sized_program :: "program \<Rightarrow> bool" where
  "sized_program p \<longleftrightarrow> fits (prog_groups p) \<and> (\<forall>g \<in> set (prog_groups p). sized_group g) \<and>
     fits (prog_negatives p) \<and> (\<forall>c \<in> set (prog_negatives p). fits c) \<and>
     (case prog_phrases p of None \<Rightarrow> True | Some (req, forb) \<Rightarrow> sized_phrases req \<and> sized_phrases forb)"

lemma version_flags [simp]:
  "is_ranked (program_version p) \<longleftrightarrow> prog_rank p \<noteq> None"
  "is_phrasal (program_version p) \<longleftrightarrow> prog_phrases p \<noteq> None"
  "validate_version (program_version p)"
  by (auto simp: is_ranked_def is_phrasal_def validate_version_def program_version_def version_defs
      split: option.split)

lemma body_start_rank [simp]: "body_start (program_version p) = Suc (length (encode_rank (prog_rank p)))"
  by (auto simp: body_start_def encode_rank_def split: option.split)

lemma drop_body: "drop (Suc (length (encode_rank (prog_rank p)))) (encode_program p) = encode_body p @ []"
  by (simp add: encode_program_def)

section \<open>The scalar interpreter computes the predicate\<close>

definition member_matches :: "(feature_id \<Rightarrow> bool) \<Rightarrow> anyof_member \<Rightarrow> bool" where
  "member_matches has m \<longleftrightarrow> list_all (list_ex has) (requirements m)"

definition groups_match :: "(feature_id \<Rightarrow> bool) \<Rightarrow> anyof_predicate list \<Rightarrow> bool" where
  "groups_match has gs \<longleftrightarrow> list_all (\<lambda>g. list_ex (member_matches has) (members g)) gs"

definition negatives_match :: "(feature_id \<Rightarrow> bool) \<Rightarrow> feature_id list list \<Rightarrow> bool" where
  "negatives_match has cs \<longleftrightarrow> \<not> list_ex (list_all has) cs"

lemma verify_requirement_encoded:
  assumes "drop at words = encode_run r @ post" "fits r"
  shows "verify_requirement words pos (at, hit) =
    Some (resume (at + length (encode_run r)) (Inr (hit \<and> list_ex (search_ok pos) r)))"
  using take_run_encoded [OF assms] by (auto simp: verify_requirement_def)

lemma verify_member_encoded:
  assumes "drop at words = encode_member m @ post" "fits (requirements m)" "\<forall>r \<in> set (requirements m). fits r"
  shows "verify_member words pos (at, hit) =
    Some (resume (at + length (encode_member m)) (Inr (hit \<or> member_matches (search_ok pos) m)))"
proof -
  have "fold (\<lambda>r hit. hit \<and> list_ex (search_ok pos) r) rs b \<longleftrightarrow> b \<and> list_all (list_ex (search_ok pos)) rs" for rs b
    by (induction rs arbitrary: b) auto
  then have "counted_loop words (verify_requirement words pos) (at, True) =
      Some (resume (at + length (encode_member m)) (Inr (member_matches (search_ok pos) m)))"
    using counted_encoded [OF assms(1) [unfolded encode_member_def] assms(2),
        of "verify_requirement words pos" "\<lambda>r hit. Inr (hit \<and> list_ex (search_ok pos) r)"]
      verify_requirement_encoded assms(3)
    by (simp add: try_fold_Inr encode_member_def member_matches_def)
  then show ?thesis by (simp add: verify_member_def)
qed

lemma verify_group_encoded:
  assumes "drop at words = encode_group g @ post" "sized_group g"
  shows "verify_group words pos (at, ()) =
    Some (resume (at + length (encode_group g))
      (if list_ex (member_matches (search_ok pos)) (members g) then Inr () else Inl False))"
proof -
  have "fold (\<lambda>m hit. hit \<or> member_matches (search_ok pos) m) ms b \<longleftrightarrow> b \<or> list_ex (member_matches (search_ok pos)) ms" for ms b
    by (induction ms arbitrary: b) auto
  then have "counted_loop words (verify_member words pos) (at, False) =
      Some (resume (at + length (encode_group g)) (Inr (list_ex (member_matches (search_ok pos)) (members g))))"
    using counted_encoded [OF assms(1) [unfolded encode_group_def], of "verify_member words pos"
        "\<lambda>m hit. Inr (hit \<or> member_matches (search_ok pos) m)"] verify_member_encoded assms(2)
    by (simp add: try_fold_Inr encode_group_def sized_group_def)
  then show ?thesis by (simp add: verify_group_def)
qed

lemma try_fold_guard:
  "try_fold (\<lambda>x s. if P x then Inr s else Inl r) xs s = (if list_all P xs then Inr s else Inl r)"
  by (induction xs) simp_all

lemma verify_groups_encoded:
  assumes "drop at words = encode_list encode_group gs @ post" "fits gs" "\<forall>g \<in> set gs. sized_group g"
  shows "counted_loop words (verify_group words pos) (at, ()) =
    Some (if groups_match (search_ok pos) gs then Inr (at + length (encode_list encode_group gs), ()) else Inl False)"
proof -
  let ?ok = "\<lambda>g. list_ex (member_matches (search_ok pos)) (members g)"
  have "counted_loop words (verify_group words pos) (at, ()) =
      Some (resume (at + length (encode_list encode_group gs))
        (try_fold (\<lambda>g s. if ?ok g then Inr s else Inl False) gs ()))"
    using verify_group_encoded assms(3) by (intro counted_encoded [OF assms(1,2)]) auto
  then show ?thesis by (simp add: try_fold_guard groups_match_def)
qed

lemma verify_negatives_encoded:
  assumes "drop at words = encode_list encode_run cs @ post" "fits cs" "\<forall>c \<in> set cs. fits c"
  shows "counted_loop words (verify_negative words neg) (at, ()) =
    Some (if negatives_match (search_ok neg) cs then Inr (at + length (encode_list encode_run cs), ()) else Inl False)"
proof -
  let ?ok = "\<lambda>c. \<not> list_all (search_ok neg) c"
  have "counted_loop words (verify_negative words neg) (at, ()) =
      Some (resume (at + length (encode_list encode_run cs))
        (try_fold (\<lambda>c s. if ?ok c then Inr s else Inl False) cs ()))"
    using take_run_encoded assms(3) by (intro counted_encoded [OF assms(1,2)]) (auto simp: verify_negative_def)
  then show ?thesis by (simp add: try_fold_guard negatives_match_def list_all_iff list_ex_iff)
qed

section \<open>Encoded phrases\<close>

lemma encode_arc_append:
  "encode_arc a @ ws = arc_start a # arc_end a # of_nat (length (alternatives a)) # alternatives a @ ws"
  by (simp add: encode_arc_def encode_run_def)

lemma length_encode_arc: "length (encode_arc a) = 3 + length (alternatives a)"
  by (simp add: encode_arc_def encode_run_def)

lemma skip_arcs_encoded:
  assumes "drop at words = concat (map encode_arc as) @ post" "\<forall>a \<in> set as. fits (alternatives a)"
  shows "skip_arcs words (length as) at = Some (at + length (concat (map encode_arc as)))"
  using assms
proof (induction as arbitrary: at)
  case (Cons a as)
  have here: "drop at words = [arc_start a, arc_end a, of_nat (length (alternatives a))] @
      (alternatives a @ concat (map encode_arc as) @ post)"
    using Cons.prems(1) by (simp add: encode_arc_append)
  have label_count: "at_index words (at + 2) = Some (of_nat (length (alternatives a)))"
    using here at_index_cursor [OF drop_Suc_cursor [OF drop_Suc_cursor]] by simp
  have "drop (at + length (encode_arc a)) words = concat (map encode_arc as) @ post"
    using Cons.prems(1) drop_advance [of at words "encode_arc a"] by simp
  from Cons.IH [OF this] show ?case
    using Cons.prems(2) label_count unat_fits [of "alternatives a"]
    by (simp add: length_encode_arc add.assoc)
qed simp

lemma skip_graph_encoded:
  assumes "drop at words = encode_phrase q @ post" "sized_phrase q"
  shows "skip_graph words at = Some (at + length (encode_phrase q))"
proof -
  have here: "drop at words = positions q # of_nat (length (arcs q)) # (concat (map encode_arc (arcs q)) @ post)"
    using assms(1) by (simp add: encode_phrase_def encode_list_def)
  show ?thesis
    using skip_arcs_encoded [OF drop_Suc_cursor [OF drop_Suc_cursor [OF here]]] assms(2)
      at_index_cursor [OF drop_Suc_cursor [OF here]] unat_fits [of "arcs q"]
    by (simp add: skip_graph_def sized_phrase_def encode_phrase_def encode_list_def)
qed

lemma take_graph_encoded:
  assumes "drop at words = encode_phrase q @ post" "sized_phrase q"
  shows "take_graph words at = Some (encode_phrase q, at + length (encode_phrase q))"
proof -
  have "at \<le> length words"
    using assms(1) cursor_bound [of at words] by (auto simp: encode_phrase_def dest: Suc_leD)
  then show ?thesis using skip_graph_encoded [OF assms] slice_cursor [OF assms(1)] by (simp add: take_graph_def)
qed

lemma query_words_encoded:
  assumes "drop at query = concat (map encode_arc as) @ post" "\<forall>a \<in> set as. fits (alternatives a)"
  shows "query_words_loop query qn tas (length as) at st = Some (query_loop qn tas as st)"
  using assms
proof (induction as arbitrary: at st)
  case (Cons a as)
  obtain work seen stack where st: "st = (work, seen, stack)" by (metis prod_cases3)
  let ?n = "of_nat (length (alternatives a)) :: u32"
  have here: "drop at query = arc_start a # arc_end a # ?n # (alternatives a @ concat (map encode_arc as) @ post)"
    using Cons.prems(1) by (simp add: encode_arc_append)
  note tail = drop_Suc_cursor [OF drop_Suc_cursor [OF here]]
  have n: "unat ?n = length (alternatives a)" using Cons.prems(2) unat_fits [of "alternatives a"] by simp
  have reads: "at_index query at = Some (arc_start a)" "at_index query (at + 1) = Some (arc_end a)"
    "at_index query (at + 2) = Some ?n" "slice query (at + 3) (unat ?n) = Some (alternatives a)"
    using at_index_cursor [OF here] at_index_cursor [OF drop_Suc_cursor [OF here]] at_index_cursor [OF tail]
      slice_cursor [OF drop_Suc_cursor [OF tail] cursor_bound [OF tail]] n by (simp_all add: eval_nat_numeral)
  have "drop (at + length (encode_arc a)) query = concat (map encode_arc as) @ post"
    using Cons.prems(1) drop_advance [of at query "encode_arc a"] by simp
  then have "query_words_loop query qn tas (length as) (at + 3 + unat ?n) st' = Some (query_loop qn tas as st')" for st'
    using Cons.IH Cons.prems(2) n by (simp add: length_encode_arc add.assoc)
  with reads show ?case by (simp add: st split: option.split)
qed simp

lemma graph_words_encoded:
  assumes "sized_phrase q"
  shows "graph_words_loop (encode_phrase q) (positions q) t st = Some (bounded_loop q t st)"
  using assms
proof (induction q t st rule: bounded_loop.induct)
  case (2 q t work seen qn tn rest)
  have "drop 2 (encode_phrase q) = concat (map encode_arc (arcs q)) @ []"
    by (simp add: encode_phrase_def encode_list_def)
  then have step: "query_words_loop (encode_phrase q) qn (title_slice tn t) (length (arcs q)) 2 (work, seen, rest) =
      Some (query_loop qn (title_slice tn t) (arcs q) (work, seen, rest))"
    using 2(2) by (intro query_words_encoded) (auto simp: sized_phrase_def)
  moreover have "at_index (encode_phrase q) 1 = Some (of_nat (length (arcs q)))"
    by (simp add: encode_phrase_def encode_list_def at_index_def)
  ultimately show ?case
    using 2 unat_fits [of "arcs q"] by (simp add: sized_phrase_def split: option.split)
qed simp

lemma graph_matches_encoded:
  assumes "sized_phrase q" "positions q \<noteq> 0" "arcs q \<noteq> []"
  shows "graph_matches (encode_phrase q) g =
    Some (phrase_graph_matches_bounded q (graph_positions g) (graph_arcs g) (graph_complete g))"
proof -
  have "at_index (encode_phrase q) 0 = Some (positions q)" by (simp add: encode_phrase_def at_index_def)
  then show ?thesis using assms graph_words_encoded [OF assms(1)]
    by (simp add: graph_matches_def phrase_graph_matches_bounded_def)
qed

definition phrase_answer :: "position_graph \<Rightarrow> phrase_graph \<Rightarrow> bool option" where
  "phrase_answer g q = phrase_graph_matches_bounded q (graph_positions g) (graph_arcs g) (graph_complete g)"

definition phrases_match :: "title_view \<Rightarrow> phrase_graph list \<Rightarrow> phrase_graph list \<Rightarrow> bool" where
  "phrases_match view req forb \<longleftrightarrow>
     (case (pos_graph view, neg_graph view, phrase_scratch view) of
        (Some pg, Some ng, Some Free) \<Rightarrow>
          list_all (\<lambda>q. phrase_answer pg q \<noteq> Some False) req \<and>
          list_all (\<lambda>q. phrase_answer ng q \<noteq> Some True) forb
      | _ \<Rightarrow> True)"

definition usable_phrases :: "phrase_graph list \<Rightarrow> bool" where
  "usable_phrases ps \<longleftrightarrow> sized_phrases ps \<and> (\<forall>q \<in> set ps. positions q \<noteq> 0 \<and> arcs q \<noteq> [])"

lemma verify_graphs_encoded:
  assumes "drop at words = encode_phrases ps @ post" "usable_phrases ps"
  shows "counted_loop words (verify_graph bad words g) (at, ()) =
    Some (if list_all (\<lambda>q. phrase_answer g q \<noteq> Some bad) ps
          then Inr (at + length (encode_phrases ps), ()) else Inl False)"
proof -
  have fit: "fits ps" using assms(2) by (simp add: usable_phrases_def sized_phrases_def)
  have "counted_loop words (verify_graph bad words g) (at, ()) =
      Some (resume (at + length (encode_list encode_phrase ps))
        (try_fold (\<lambda>q s. if phrase_answer g q \<noteq> Some bad then Inr s else Inl False) ps ()))"
  proof (rule counted_encoded [OF assms(1) [unfolded encode_phrases_def] fit])
    fix q at' st post'
    assume q: "q \<in> set ps" "drop at' words = encode_phrase q @ post'"
    have "sized_phrase q" "positions q \<noteq> 0" "arcs q \<noteq> []"
      using assms(2) q(1) by (auto simp: usable_phrases_def sized_phrases_def)
    then show "verify_graph bad words g (at', st) = Some (resume (at' + length (encode_phrase q))
        (if phrase_answer g q \<noteq> Some bad then Inr st else Inl False))"
      using take_graph_encoded [OF q(2)] graph_matches_encoded [of q g]
      by (simp add: verify_graph_def phrase_answer_def)
  qed
  then show ?thesis by (simp add: try_fold_guard encode_phrases_def)
qed

lemma skip_graphs_encoded:
  assumes "drop at words = encode_phrases ps @ post" "sized_phrases ps"
  shows "counted_loop words (skip_step words) (at, ()) = Some (Inr (at + length (encode_phrases ps), ()))"
proof -
  have "counted_loop words (skip_step words) (at, ()) =
      Some (resume (at + length (encode_list encode_phrase ps)) (try_fold (\<lambda>q s. Inr s) ps ()))"
    using assms skip_graph_encoded
    by (intro counted_encoded) (auto simp: encode_phrases_def sized_phrases_def skip_step_def)
  then show ?thesis by (simp add: try_fold_Inr encode_phrases_def)
qed

lemma verify_phrases_encoded:
  assumes "drop at words = encode_phrases req @ encode_phrases forb @ post" "usable_phrases req" "usable_phrases forb"
  shows "map_option (case_sum (\<lambda>answer. answer) (\<lambda>_. True)) (verify_phrases words view at) =
    Some (phrases_match view req forb)"
proof -
  have forb: "drop (at + length (encode_phrases req)) words = encode_phrases forb @ post"
    using drop_advance [OF assms(1)] .
  then have "at_index words (at + length (encode_phrases req)) = Some (of_nat (length forb))"
    using at_index_cursor [of "at + length (encode_phrases req)" words] by (simp add: encode_phrases_def encode_list_def)
  moreover have "sized_phrases req" using assms(2) by (simp add: usable_phrases_def)
  ultimately show ?thesis
    using skip_graphs_encoded [OF assms(1)] verify_graphs_encoded [OF assms(1,2)]
      verify_graphs_encoded [OF forb assms(3)]
    by (auto simp: verify_phrases_def phrases_match_def split: option.split scratch_cell.split)
qed

definition program_matches :: "program \<Rightarrow> title_view \<Rightarrow> bool" where
  "program_matches p view \<longleftrightarrow>
     groups_match (search_ok (view_pos view)) (prog_groups p) \<and> negatives_match (search_ok (view_neg view)) (prog_negatives p) \<and>
     (case prog_phrases p of None \<Rightarrow> True | Some (req, forb) \<Rightarrow> phrases_match view req forb)"

definition usable_program :: "program \<Rightarrow> bool" where
  "usable_program p \<longleftrightarrow> sized_program p \<and>
     (case prog_phrases p of None \<Rightarrow> True | Some (req, forb) \<Rightarrow> usable_phrases req \<and> usable_phrases forb)"

lemma verify_program:
  assumes "usable_program p"
  shows "verify_predicate (encode_program p) view = Some (program_matches p view)"
proof -
  let ?w = "encode_program p"
  let ?at = "Suc (length (encode_rank (prog_rank p)))"
  let ?gs = "encode_list encode_group (prog_groups p)" and ?cs = "encode_list encode_run (prog_negatives p)"
  have sized: "sized_program p" using assms by (simp add: usable_program_def)
  have d1: "drop ?at ?w = ?gs @ (?cs @ encode_quoted (prog_phrases p))" using drop_body by (simp add: encode_body_def)
  note d2 = drop_advance [OF d1]
  note d3 = drop_advance [OF d2]
  have groups: "counted_loop ?w (verify_group ?w (view_pos view)) (?at, ()) =
      Some (if groups_match (search_ok (view_pos view)) (prog_groups p) then Inr (?at + length ?gs, ()) else Inl False)"
    using sized by (intro verify_groups_encoded [OF d1]) (auto simp: sized_program_def)
  have negatives: "counted_loop ?w (verify_negative ?w (view_neg view)) (?at + length ?gs, ()) =
      Some (if negatives_match (search_ok (view_neg view)) (prog_negatives p) then Inr (?at + length ?gs + length ?cs, ()) else Inl False)"
    using sized by (intro verify_negatives_encoded [OF d2]) (auto simp: sized_program_def)
  have phrases: "map_option (case_sum (\<lambda>answer. answer) (\<lambda>_. True))
        (verify_phrases ?w view (?at + length ?gs + length ?cs)) = Some (phrases_match view req forb)"
    if "prog_phrases p = Some (req, forb)" for req forb
    using that assms d3 by (intro verify_phrases_encoded [of _ _ _ _ "[]"]) (auto simp: encode_quoted_def usable_program_def)
  have "?w \<noteq> []" "hd ?w = program_version p" by (simp_all add: encode_program_def)
  then show ?thesis
    using groups negatives phrases by (auto simp: verify_predicate_def Let_def program_matches_def split: option.split)
qed

end
