(* ===== verification/Predicate_Validator.thy ===== *)
theory Predicate_Validator
  imports Predicate_Correct
begin

text \<open>
  The validator of persisted programs accepts exactly the encodings of valid
  programs. The proof follows the words: \<open>reads\<close> says that a stretch of the
  program between two cursors is a given list, and \<open>accepts\<close> says that a loop
  body succeeds exactly on the encodings of its items.
\<close>

section \<open>Stretches of a program\<close>

definition reads :: "u32 list \<Rightarrow> nat \<Rightarrow> u32 list \<Rightarrow> nat \<Rightarrow> bool" where
  "reads words at e at' \<longleftrightarrow> at' = at + length e \<and> at' \<le> length words \<and> take (length e) (drop at words) = e"

lemma reads_Nil: "reads words at [] at' \<longleftrightarrow> at' = at \<and> at \<le> length words"
  by (auto simp: reads_def)

lemma reads_append:
  "reads words at (a @ b) at' \<longleftrightarrow> (\<exists>m. reads words at a m \<and> reads words m b at')"
proof
  assume "reads words at (a @ b) at'"
  then show "\<exists>m. reads words at a m \<and> reads words m b at'"
    by (intro exI [of _ "at + length a"]) (auto simp: reads_def take_add add.commute)
next
  assume "\<exists>m. reads words at a m \<and> reads words m b at'"
  then show "reads words at (a @ b) at'"
    by (auto simp: reads_def take_add add.commute)
qed

lemma reads_single: "reads words at [w] at' \<longleftrightarrow> at' = Suc at \<and> at_index words at = Some w"
  by (auto simp: reads_def at_index_Some_iff take_Suc_conv_app_nth hd_drop_conv_nth take_Suc)

lemma reads_Cons:
  "reads words at (w # ws) at' \<longleftrightarrow> at_index words at = Some w \<and> reads words (Suc at) ws at'"
  using reads_append [of words at "[w]" ws at'] by (auto simp: reads_single)

lemma reads_all: "reads words 0 e (length words) \<longleftrightarrow> words = e"
  by (auto simp: reads_def)

lemma reads_slice: "slice words at n = Some e \<longleftrightarrow> reads words at e (at + n)"
  by (auto simp: slice_def reads_def)

lemma reads_exists: "at + n \<le> length words \<Longrightarrow> \<exists>e. length e = n \<and> reads words at e (at + n)"
  by (intro exI [of _ "take n (drop at words)"]) (auto simp: reads_def)

lemma reads_length: "reads words at e at' \<Longrightarrow> at + length e = at'"
  by (simp add: reads_def)

lemma reads_drop: "reads words at e at' \<Longrightarrow> drop at words = e @ drop at' words"
  by (metis append_take_drop_id drop_drop add.commute reads_def)

section \<open>Loops that accept encodings\<close>

lemma andthen_Inr:
  "andthen m k = Some (Inr b) \<longleftrightarrow> (\<exists>a. m = Some (Inr a) \<and> k a = Some (Inr b))"
  by (auto simp: andthen_def split: option.splits sum.splits)

definition accepts ::
  "u32 list \<Rightarrow> (nat \<times> 's \<Rightarrow> ('r + nat \<times> 's) option) \<Rightarrow> ('a \<Rightarrow> u32 list) \<Rightarrow> ('a \<Rightarrow> bool) \<Rightarrow>
   ('a \<Rightarrow> 's \<Rightarrow> unit + 's) \<Rightarrow> bool" where
  "accepts words body enc P f \<longleftrightarrow>
     (\<forall>at st at' st'. at \<le> length words \<longrightarrow> body (at, st) = Some (Inr (at', st')) \<longleftrightarrow>
        (\<exists>x. reads words at (enc x) at' \<and> P x \<and> f x st = Inr st'))"

lemma try_fold_Cons_Inr:
  "try_fold f (x # xs) s = Inr s' \<longleftrightarrow> (\<exists>m. f x s = Inr m \<and> try_fold f xs m = Inr s')"
  by (auto split: sum.splits)

lemma ex_length_Suc: "(\<exists>xs. length xs = Suc n \<and> Q xs) \<longleftrightarrow> (\<exists>x xs. length xs = n \<and> Q (x # xs))"
  by (metis length_Suc_conv)

lemma accepts_loop:
  assumes "accepts words body enc P f" "at \<le> length words"
  shows "loop n body (at, st) = Some (Inr (at', st')) \<longleftrightarrow>
    (\<exists>xs. length xs = n \<and> reads words at (concat (map enc xs)) at' \<and> (\<forall>x \<in> set xs. P x) \<and>
      try_fold f xs st = Inr st')"
  using assms(2)
proof (induction n arbitrary: at st)
  case 0
  then show ?case by (auto simp: reads_Nil)
next
  case (Suc n)
  have "loop (Suc n) body (at, st) = Some (Inr (at', st')) \<longleftrightarrow>
      (\<exists>m sm. body (at, st) = Some (Inr (m, sm)) \<and> loop n body (m, sm) = Some (Inr (at', st')))"
    by (auto simp: andthen_Inr)
  also have "\<dots> \<longleftrightarrow> (\<exists>m sm x. reads words at (enc x) m \<and> P x \<and> f x st = Inr sm \<and>
      loop n body (m, sm) = Some (Inr (at', st')))"
    using assms(1) Suc.prems unfolding accepts_def by blast
  also have "\<dots> \<longleftrightarrow> (\<exists>m sm x. reads words at (enc x) m \<and> P x \<and> f x st = Inr sm \<and>
      (\<exists>xs. length xs = n \<and> reads words m (concat (map enc xs)) at' \<and> (\<forall>x \<in> set xs. P x) \<and>
        try_fold f xs sm = Inr st'))"
    using Suc.IH unfolding reads_def by (intro ex_cong1 conj_cong refl) simp
  also have "\<dots> \<longleftrightarrow> (\<exists>x xs. length xs = n \<and> reads words at (concat (map enc (x # xs))) at' \<and>
      (\<forall>x \<in> set (x # xs). P x) \<and> try_fold f (x # xs) st = Inr st')"
    by (auto simp: reads_append try_fold_Cons_Inr simp del: try_fold.simps)
  also have "\<dots> \<longleftrightarrow> (\<exists>xs. length xs = Suc n \<and> reads words at (concat (map enc xs)) at' \<and>
      (\<forall>x \<in> set xs. P x) \<and> try_fold f xs st = Inr st')"
    by (rule ex_length_Suc [symmetric])
  finally show ?case .
qed

lemma of_nat_unat_length: "length xs = unat (n :: u32) \<Longrightarrow> of_nat (length xs) = n \<and> fits xs"
  using unsigned_less [of n] by (simp add: fits_def)

text \<open>A count word followed by that many items.\<close>

lemma accepts_counted:
  assumes "accepts words body enc P f" "at \<le> length words"
  shows "(\<exists>n. at_index words at = Some n \<and> Q n \<and> loop (unat n) body (Suc at, st) = Some (Inr (at', st'))) \<longleftrightarrow>
    (\<exists>xs. reads words at (encode_list enc xs) at' \<and> fits xs \<and> Q (of_nat (length xs)) \<and> (\<forall>x \<in> set xs. P x) \<and>
      try_fold f xs st = Inr st')" (is "?L \<longleftrightarrow> ?R")
proof
  assume ?L
  then obtain n where n: "at_index words at = Some n" "Q n" "loop (unat n) body (Suc at, st) = Some (Inr (at', st'))"
    by blast
  have "Suc at \<le> length words" using n(1) by (auto simp: at_index_Some_iff)
  from accepts_loop [OF assms(1) this] n(3) obtain xs where
    "length xs = unat n" "reads words (Suc at) (concat (map enc xs)) at'" "\<forall>x \<in> set xs. P x" "try_fold f xs st = Inr st'"
    by blast
  then show ?R using n of_nat_unat_length [of xs n] by (intro exI [of _ xs]) (simp add: encode_list_def reads_Cons)
next
  assume ?R
  then obtain xs where xs: "reads words at (encode_list enc xs) at'" "fits xs" "Q (of_nat (length xs))"
    "\<forall>x \<in> set xs. P x" "try_fold f xs st = Inr st'" by blast
  have head: "at_index words at = Some (of_nat (length xs))" "reads words (Suc at) (concat (map enc xs)) at'"
    using xs(1) by (auto simp: encode_list_def reads_Cons)
  then have "Suc at \<le> length words" by (auto simp: at_index_Some_iff)
  from accepts_loop [OF assms(1) this] head xs unat_fits [OF xs(2)]
  have "loop (unat (of_nat (length xs) :: u32)) body (Suc at, st) = Some (Inr (at', st'))" by auto
  then show ?L using head(1) xs(3) by blast
qed

lemma read_word_Inr: "read_word words at = Some (Inr r) \<longleftrightarrow> (\<exists>w. at_index words at = Some w \<and> r = (w, Suc at))"
  by (auto simp: read_word_def split: option.splits)

lemma take_words_Inr:
  assumes "length words < 2 ^ 64"
  shows "take_words words at n = Some (Inr at') \<longleftrightarrow> at' = at + unat n \<and> at' \<le> length words"
  using assms by (auto simp: take_words_def usize_checked_add_def split: option.splits)

lemma accepts_run:
  assumes "length words < 2 ^ 64" "at \<le> length words"
  shows "(\<exists>n. at_index words at = Some n \<and> Q n \<and> take_words words (Suc at) n = Some (Inr at')) \<longleftrightarrow>
    (\<exists>fs. reads words at (encode_run fs) at' \<and> fits fs \<and> Q (of_nat (length fs)))" (is "?L \<longleftrightarrow> ?R")
proof
  assume ?L
  then obtain n where n: "at_index words at = Some n" "Q n" "at' = Suc at + unat n" "at' \<le> length words"
    using take_words_Inr [OF assms(1)] by auto
  obtain fs where "length fs = unat n" "reads words (Suc at) fs at'"
    using reads_exists [of "Suc at" "unat n" words] n by auto
  then show ?R using n of_nat_unat_length [of fs n] by (intro exI [of _ fs]) (simp add: encode_run_def reads_Cons)
next
  assume ?R
  then obtain fs where fs: "at_index words at = Some (of_nat (length fs))" "reads words (Suc at) fs at'" "fits fs"
    "Q (of_nat (length fs))" by (auto simp: encode_run_def reads_Cons)
  then show ?L using take_words_Inr [OF assms(1)] unat_fits [OF fs(3)]
    by (intro exI [of _ "of_nat (length fs)"]) (simp add: reads_def)
qed

section \<open>Valid programs\<close>

definition valid_run :: "feature_id list \<Rightarrow> bool" where
  "valid_run r \<longleftrightarrow> r \<noteq> [] \<and> fits r"

definition valid_member :: "anyof_member \<Rightarrow> bool" where
  "valid_member m \<longleftrightarrow> requirements m \<noteq> [] \<and> fits (requirements m) \<and> (\<forall>r \<in> set (requirements m). valid_run r)"

definition valid_group :: "anyof_predicate \<Rightarrow> bool" where
  "valid_group g \<longleftrightarrow> members g \<noteq> [] \<and> fits (members g) \<and> (\<forall>m \<in> set (members g). valid_member m)"

definition valid_negative :: "feature_id list \<Rightarrow> bool" where
  "valid_negative c \<longleftrightarrow> 2 \<le> length c \<and> fits c"

definition group_extra :: "anyof_predicate \<Rightarrow> u32" where
  "group_extra g =
     saturating_sub (fold (\<lambda>m s. min s (of_nat (length (requirements m)))) (members g) (- 1)) 1"

definition compound_extra :: "anyof_predicate list \<Rightarrow> u32" where
  "compound_extra gs = fold (\<lambda>g s. saturating_add s (group_extra g)) gs 0"

text \<open>Canonical phrases: ascending spans inside the graph, ascending labels, and a path to the last position.\<close>

definition valid_phrase :: "phrase_graph \<Rightarrow> bool" where
  "valid_phrase q \<longleftrightarrow> positions q \<noteq> 0 \<and> arcs q \<noteq> [] \<and> fits (arcs q) \<and>
     (\<forall>a \<in> set (arcs q). arc_start a < arc_end a \<and> arc_end a \<le> positions q \<and>
        alternatives a \<noteq> [] \<and> fits (alternatives a) \<and> strict_sorted (alternatives a)) \<and>
     sorted_wrt (\<lambda>a b. span a < span b) (arcs q) \<and>
     (0, positions q) \<in> (set (map span (arcs q)))\<^sup>*"

definition valid_rank :: "(u32 \<times> u32) option \<Rightarrow> anyof_predicate list \<Rightarrow> bool" where
  "valid_rank rank gs \<longleftrightarrow>
     (case rank of
        None \<Rightarrow> True
      | Some (groups, terms) \<Rightarrow>
          of_nat (length gs) \<le> groups \<and> groups \<le> terms \<and> saturating_add groups (compound_extra gs) \<le> terms)"

definition valid_quoted :: "(phrase_graph list \<times> phrase_graph list) option \<Rightarrow> bool" where
  "valid_quoted quoted \<longleftrightarrow>
     (case quoted of
        None \<Rightarrow> True
      | Some (req, forb) \<Rightarrow> fits req \<and> fits forb \<and> (req \<noteq> [] \<or> forb \<noteq> []) \<and>
          (\<forall>q \<in> set req. valid_phrase q) \<and> (\<forall>q \<in> set forb. valid_phrase q))"

definition valid_program :: "program \<Rightarrow> bool" where
  "valid_program p \<longleftrightarrow> fits (prog_groups p) \<and> (\<forall>g \<in> set (prog_groups p). valid_group g) \<and>
     fits (prog_negatives p) \<and> (\<forall>c \<in> set (prog_negatives p). valid_negative c) \<and>
     valid_rank (prog_rank p) (prog_groups p) \<and> valid_quoted (prog_phrases p)"

section \<open>Each loop of the validator accepts exactly its items\<close>

lemma of_nat_fits_zero: "fits xs \<Longrightarrow> (of_nat (length xs) :: u32) = 0 \<longleftrightarrow> xs = []"
  using unat_fits [of xs] by (simp only: unat_0_iff [symmetric] length_0_conv)

lemma of_nat_fits_less: "fits xs \<Longrightarrow> (of_nat (length xs) :: u32) < 2 \<longleftrightarrow> length xs < 2"
  using unat_fits [of xs] by (simp add: word_less_nat_alt)

lemma accepts_requirement:
  assumes "length words < 2 ^ 64"
  shows "accepts words (validate_requirement words) encode_run valid_run (\<lambda>_ s. Inr s)"
  unfolding accepts_def
proof (intro allI impI)
  fix at at' and st st' :: unit
  assume "at \<le> length words"
  from accepts_run [OF assms this, of "\<lambda>n. n \<noteq> 0" at']
  show "validate_requirement words (at, st) = Some (Inr (at', st')) \<longleftrightarrow>
      (\<exists>r. reads words at (encode_run r) at' \<and> valid_run r \<and> Inr st = Inr st')"
    by (auto simp: validate_requirement_def andthen_Inr read_word_Inr valid_run_def of_nat_fits_zero)
qed

lemma accepts_negative:
  assumes "length words < 2 ^ 64"
  shows "accepts words (validate_negative words) encode_run valid_negative (\<lambda>_ s. Inr s)"
  unfolding accepts_def
proof (intro allI impI)
  fix at at' and st st' :: unit
  assume "at \<le> length words"
  from accepts_run [OF assms this, of "\<lambda>n. \<not> n < 2" at']
  show "validate_negative words (at, st) = Some (Inr (at', st')) \<longleftrightarrow>
      (\<exists>r. reads words at (encode_run r) at' \<and> valid_negative r \<and> Inr st = Inr st')"
    by (auto simp: validate_negative_def andthen_Inr read_word_Inr valid_negative_def of_nat_fits_less)
qed

lemma ex_member: "(\<exists>m. Q m) \<longleftrightarrow> (\<exists>rs. Q (AnyOfMember rs))"
  by (metis anyof_member.exhaust)

lemma ex_group: "(\<exists>g. Q g) \<longleftrightarrow> (\<exists>ms. Q (AnyOfPredicate ms))"
  by (metis anyof_predicate.exhaust)

lemma ex_phrase: "(\<exists>q. Q q) \<longleftrightarrow> (\<exists>n as. Q (PhraseGraph n as))"
  by (metis phrase_graph.exhaust)

lemma accepts_member:
  assumes "length words < 2 ^ 64"
  shows "accepts words (validate_member words) encode_member valid_member
    (\<lambda>m s. Inr (min s (of_nat (length (requirements m)))))"
  unfolding accepts_def
proof (intro allI impI)
  fix at at' and s s' :: u32
  assume "at \<le> length words"
  note counted = accepts_counted [OF accepts_requirement [OF assms] this]
  have "validate_member words (at, s) = Some (Inr (at', s')) \<longleftrightarrow>
      (\<exists>n. at_index words at = Some n \<and> (n \<noteq> 0 \<and> s' = min s n) \<and>
        loop (unat n) (validate_requirement words) (Suc at, ()) = Some (Inr (at', ())))"
    by (auto simp: validate_member_def andthen_Inr read_word_Inr)
  also have "\<dots> \<longleftrightarrow> (\<exists>rs. reads words at (encode_list encode_run rs) at' \<and> fits rs \<and>
      (of_nat (length rs) \<noteq> (0 :: u32) \<and> s' = min s (of_nat (length rs))) \<and> (\<forall>r \<in> set rs. valid_run r) \<and>
      try_fold (\<lambda>_ s. Inr s) rs () = (Inr () :: unit + unit))"
    by (rule counted)
  also have "\<dots> \<longleftrightarrow> (\<exists>rs. reads words at (encode_member (AnyOfMember rs)) at' \<and> valid_member (AnyOfMember rs) \<and>
      s' = min s (of_nat (length rs)))"
    by (auto simp: encode_member_def valid_member_def of_nat_fits_zero try_fold_Inr)
  also have "\<dots> \<longleftrightarrow> (\<exists>m. reads words at (encode_member m) at' \<and> valid_member m \<and>
      Inr (min s (of_nat (length (requirements m)))) = Inr s')"
    by (auto simp: ex_member)
  finally show "validate_member words (at, s) = Some (Inr (at', s')) \<longleftrightarrow>
      (\<exists>m. reads words at (encode_member m) at' \<and> valid_member m \<and>
        Inr (min s (of_nat (length (requirements m)))) = Inr s')" .
qed

lemma accepts_group:
  assumes "length words < 2 ^ 64"
  shows "accepts words (validate_group words) encode_group valid_group
    (\<lambda>g s. Inr (saturating_add s (group_extra g)))"
  unfolding accepts_def
proof (intro allI impI)
  fix at at' and s s' :: u32
  assume bound: "at \<le> length words"
  let ?short = "\<lambda>ms. fold (\<lambda>m s. min s (of_nat (length (requirements m)))) ms (- 1 :: u32)"
  have "validate_group words (at, s) = Some (Inr (at', s')) \<longleftrightarrow>
      (\<exists>short. (\<exists>n. at_index words at = Some n \<and> n \<noteq> 0 \<and>
        loop (unat n) (validate_member words) (Suc at, - 1) = Some (Inr (at', short))) \<and>
        s' = saturating_add s (saturating_sub short 1))"
    by (auto simp: validate_group_def andthen_Inr read_word_Inr)
  also have "\<dots> \<longleftrightarrow> (\<exists>ms. reads words at (encode_group (AnyOfPredicate ms)) at' \<and> valid_group (AnyOfPredicate ms) \<and>
      s' = saturating_add s (saturating_sub (?short ms) 1))"
    unfolding accepts_counted [OF accepts_member [OF assms] bound, of "\<lambda>n. n \<noteq> 0" "- 1" at']
    by (simp add: encode_group_def valid_group_def try_fold_Inr) (use of_nat_fits_zero in blast)
  also have "\<dots> \<longleftrightarrow> (\<exists>g. reads words at (encode_group g) at' \<and> valid_group g \<and>
      Inr (saturating_add s (group_extra g)) = Inr s')"
    by (auto simp: ex_group group_extra_def)
  finally show "validate_group words (at, s) = Some (Inr (at', s')) \<longleftrightarrow>
      (\<exists>g. reads words at (encode_group g) at' \<and> valid_group g \<and>
        Inr (saturating_add s (group_extra g)) = Inr s')" .
qed

section \<open>Phrases\<close>

lemma not_ascending_iff: "not_ascending fs \<longleftrightarrow> \<not> strict_sorted fs"
proof (induction fs rule: induct_list012)
  case (3 x y zs)
  then show ?case by (auto simp: not_ascending_def not_le intro: less_trans)
qed (simp_all add: not_ascending_def)

fun arc_check :: "u32 \<Rightarrow> phrase_arc \<Rightarrow> (u32 \<times> u32) option \<times> u32 set \<Rightarrow> unit + (u32 \<times> u32) option \<times> u32 set" where
  "arc_check pos a (prev, reach) =
     (if arc_start a \<ge> arc_end a \<or> arc_end a > pos \<or> (case prev of None \<Rightarrow> False | Some old \<Rightarrow> old \<ge> span a)
      then Inl ()
      else Inr (Some (span a), if arc_start a \<in> reach then insert (arc_end a) reach else reach))"

definition valid_labels :: "phrase_arc \<Rightarrow> bool" where
  "valid_labels a \<longleftrightarrow> alternatives a \<noteq> [] \<and> fits (alternatives a) \<and> strict_sorted (alternatives a)"

lemma reads_arc:
  "reads words at (encode_arc a) at' \<longleftrightarrow> at_index words at = Some (arc_start a) \<and>
     at_index words (Suc at) = Some (arc_end a) \<and> at_index words (Suc (Suc at)) = Some (of_nat (length (alternatives a))) \<and>
     reads words (Suc (Suc (Suc at))) (alternatives a) at'"
  by (auto simp: encode_arc_def encode_run_def reads_Cons)

lemma accepts_arc:
  assumes "length words < 2 ^ 64"
  shows "accepts words (validate_arc words pos) encode_arc valid_labels (arc_check pos)"
  unfolding accepts_def
proof (intro allI impI)
  fix at at' and s s' :: "(u32 \<times> u32) option \<times> u32 set"
  obtain prev reach where s: "s = (prev, reach)" by (cases s)
  let ?at = "Suc (Suc (Suc at))"
  show "validate_arc words pos (at, s) = Some (Inr (at', s')) \<longleftrightarrow>
      (\<exists>a. reads words at (encode_arc a) at' \<and> valid_labels a \<and> arc_check pos a s = Inr s')" (is "?L \<longleftrightarrow> ?R")
  proof
    assume ?L
    then obtain start e n labels where r: "at_index words at = Some start" "at_index words (Suc at) = Some e"
      "at_index words (Suc (Suc at)) = Some n" "take_words words ?at n = Some (Inr at')"
      "slice words ?at (at' - ?at) = Some labels" "\<not> not_ascending labels" "n \<noteq> 0"
      "arc_check pos (PhraseArc start e labels) s = Inr s'"
      by (auto simp: validate_arc_def s andthen_Inr read_word_Inr span_def split: if_splits option.splits)
    have "at' = ?at + unat n" using r(4) take_words_Inr [OF assms] by blast
    moreover from this have "reads words ?at labels at'" using r(5) by (simp add: reads_slice)
    ultimately have labels: "length labels = unat n" "reads words ?at labels at'" by (auto simp: reads_def)
    have "n = of_nat (length labels)" "fits labels" using of_nat_unat_length [OF labels(1)] by auto
    moreover have "labels \<noteq> []" using labels(1) r(7) by (auto simp: unat_0_iff [symmetric])
    ultimately show ?R using r labels
      by (intro exI [of _ "PhraseArc start e labels"]) (simp add: reads_arc valid_labels_def not_ascending_iff)
  next
    assume ?R
    then obtain a where a: "reads words at (encode_arc a) at'" "valid_labels a" "arc_check pos a s = Inr s'" by blast
    let ?n = "of_nat (length (alternatives a)) :: u32"
    have fit: "unat ?n = length (alternatives a)" "?n \<noteq> 0"
      using a(2) unat_fits [of "alternatives a"] of_nat_fits_zero [of "alternatives a"] by (auto simp: valid_labels_def)
    have r: "reads words ?at (alternatives a) at'" using a(1) by (simp add: reads_arc)
    then have "take_words words ?at ?n = Some (Inr at')" "slice words ?at (at' - ?at) = Some (alternatives a)"
      using take_words_Inr [OF assms] fit by (auto simp: reads_slice reads_def)
    then show ?L using a fit by (auto simp: validate_arc_def s read_word_def reads_arc valid_labels_def
          not_ascending_iff span_def split: if_splits option.splits)
  qed
qed

text \<open>One pass in span order computes reachability: an arc cannot extend a path through an
  earlier arc, since its end lies above every earlier start.\<close>

definition reachable_from_0 :: "phrase_arc list \<Rightarrow> u32 set" where
  "reachable_from_0 as = {n. (0, n) \<in> (set (map span as))\<^sup>*}"

definition ordered_arcs :: "u32 \<Rightarrow> phrase_arc list \<Rightarrow> bool" where
  "ordered_arcs pos as \<longleftrightarrow> (\<forall>a \<in> set as. arc_start a < arc_end a \<and> arc_end a \<le> pos) \<and>
     sorted_wrt (\<lambda>a b. span a < span b) as"

lemma reachable_snoc:
  assumes "\<forall>b \<in> set as. arc_start b \<le> arc_start a" "arc_start a < arc_end a"
  shows "reachable_from_0 (as @ [a]) =
    (if arc_start a \<in> reachable_from_0 as then insert (arc_end a) (reachable_from_0 as) else reachable_from_0 as)"
proof -
  let ?S = "set (map span as)" and ?T = "set (map span (as @ [a]))"
  have "n \<in> reachable_from_0 as \<or> arc_start a \<in> reachable_from_0 as \<and> n = arc_end a" if "(0, n) \<in> ?T\<^sup>*" for n
    using that
  proof (induction rule: rtrancl_induct)
    case base
    show ?case by (simp add: reachable_from_0_def)
  next
    case (step m n)
    have "(m, n) \<in> ?S \<or> m = arc_start a \<and> n = arc_end a" using step(2) by (auto simp: span_def)
    moreover have "m \<noteq> arc_end a" if "(m, n) \<in> ?S" using that assms by (force simp: span_def)
    ultimately show ?case using step.IH assms(2)
      by (auto simp: reachable_from_0_def intro: rtrancl_into_rtrancl)
  qed
  moreover have "?S\<^sup>* \<subseteq> ?T\<^sup>*" by (rule rtrancl_mono) auto
  moreover have "(0, arc_end a) \<in> ?T\<^sup>*" if "(0, arc_start a) \<in> ?T\<^sup>*"
    using that by (rule rtrancl_into_rtrancl) (simp add: span_def)
  ultimately show ?thesis by (auto simp: reachable_from_0_def)
qed

lemma ordered_arcs_snoc:
  "ordered_arcs pos (as @ [a]) \<longleftrightarrow> ordered_arcs pos as \<and> arc_start a < arc_end a \<and> arc_end a \<le> pos \<and>
     (as \<noteq> [] \<longrightarrow> span (last as) < span a)"
proof (cases as rule: rev_cases)
  case (snoc bs b)
  then show ?thesis by (auto simp: ordered_arcs_def sorted_wrt_append intro: less_trans)
qed (auto simp: ordered_arcs_def)

lemma arc_check_fold:
  assumes "ordered_arcs pos pre"
  shows "try_fold (arc_check pos) as (if pre = [] then None else Some (span (last pre)), reachable_from_0 pre) = Inr st \<longleftrightarrow>
    ordered_arcs pos (pre @ as) \<and>
    st = (if pre @ as = [] then None else Some (span (last (pre @ as))), reachable_from_0 (pre @ as))"
  using assms
proof (induction as arbitrary: pre)
  case Nil
  then show ?case by auto
next
  case (Cons a as)
  let ?st = "\<lambda>pre. (if pre = [] then None else Some (span (last pre)), reachable_from_0 pre)"
  show ?case
  proof (cases "ordered_arcs pos (pre @ [a])")
    case True
    have starts: "arc_start b \<le> arc_start a" if "b \<in> set pre" for b
      using True that by (fastforce simp: ordered_arcs_def sorted_wrt_append span_def less_prod_def)
    have "arc_check pos a (?st pre) = Inr (?st (pre @ [a]))"
      using True starts reachable_snoc [of pre a] by (auto simp: ordered_arcs_snoc)
    then show ?thesis using Cons.IH [OF True] by (simp del: arc_check.simps)
  next
    case False
    then have "arc_check pos a (?st pre) = Inl ()"
      using Cons.prems by (auto simp: ordered_arcs_snoc not_less not_le)
    moreover have "\<not> ordered_arcs pos (pre @ a # as)"
      using False by (auto simp: ordered_arcs_def sorted_wrt_append)
    ultimately show ?thesis by (simp del: arc_check.simps)
  qed
qed

lemma reachable_Nil [simp]: "reachable_from_0 [] = {0}"
  by (auto simp: reachable_from_0_def)

lemma arc_check_all:
  "try_fold (arc_check pos) as (None, {0}) = Inr (prev, reach) \<longleftrightarrow>
     ordered_arcs pos as \<and> prev = (if as = [] then None else Some (span (last as))) \<and> reach = reachable_from_0 as"
  using arc_check_fold [of pos "[]" as "(prev, reach)"] by (auto simp: ordered_arcs_def)

lemma accepts_phrase:
  assumes "length words < 2 ^ 64"
  shows "accepts words (validate_phrase words) encode_phrase valid_phrase (\<lambda>_ s. Inr s)"
  unfolding accepts_def
proof (intro allI impI)
  fix at at' and st st' :: unit
  have "validate_phrase words (at, st) = Some (Inr (at', st')) \<longleftrightarrow>
      (\<exists>pos prev reach. at_index words at = Some pos \<and> pos \<noteq> 0 \<and> pos \<in> reach \<and>
        (\<exists>n. at_index words (Suc at) = Some n \<and> n \<noteq> 0 \<and>
          loop (unat n) (validate_arc words pos) (Suc (Suc at), None, {0}) = Some (Inr (at', prev, reach))))"
    by (auto simp: validate_phrase_def andthen_Inr read_word_Inr split: if_splits) blast
  also have "\<dots> \<longleftrightarrow> (\<exists>pos prev reach. at_index words at = Some pos \<and> pos \<noteq> 0 \<and> pos \<in> reach \<and>
      (\<exists>as. reads words (Suc at) (encode_list encode_arc as) at' \<and> fits as \<and> of_nat (length as) \<noteq> (0 :: u32) \<and>
        (\<forall>a \<in> set as. valid_labels a) \<and> try_fold (arc_check pos) as (None, {0}) = Inr (prev, reach)))"
    by (intro ex_cong1 conj_cong refl, rule accepts_counted [OF accepts_arc [OF assms]])
       (simp add: at_index_Some_iff Suc_le_eq)
  also have "\<dots> \<longleftrightarrow> (\<exists>pos as. at_index words at = Some pos \<and> pos \<noteq> 0 \<and> pos \<in> reachable_from_0 as \<and>
      reads words (Suc at) (encode_list encode_arc as) at' \<and> fits as \<and> of_nat (length as) \<noteq> (0 :: u32) \<and>
      (\<forall>a \<in> set as. valid_labels a) \<and> ordered_arcs pos as)"
    unfolding arc_check_all by blast
  also have "\<dots> \<longleftrightarrow> (\<exists>pos as. reads words at (encode_phrase (PhraseGraph pos as)) at' \<and> valid_phrase (PhraseGraph pos as))"
    by (intro ex_cong1) (auto simp: encode_phrase_def reads_Cons valid_phrase_def valid_labels_def
        ordered_arcs_def reachable_from_0_def of_nat_fits_zero)
  also have "\<dots> \<longleftrightarrow> (\<exists>q. reads words at (encode_phrase q) at' \<and> valid_phrase q \<and> Inr st = Inr st')"
    by (auto simp: ex_phrase)
  finally show "validate_phrase words (at, st) = Some (Inr (at', st')) \<longleftrightarrow>
      (\<exists>q. reads words at (encode_phrase q) at' \<and> valid_phrase q \<and> Inr st = Inr st')" .
qed

section \<open>The whole validator\<close>

lemma validate_phrases_Inr:
  assumes "length words < 2 ^ 64" "at \<le> length words"
  shows "validate_phrases words at = Some (Inr (n, at')) \<longleftrightarrow>
    (\<exists>qs. reads words at (encode_phrases qs) at' \<and> fits qs \<and> n = of_nat (length qs) \<and> (\<forall>q \<in> set qs. valid_phrase q))"
proof -
  have "validate_phrases words at = Some (Inr (n, at')) \<longleftrightarrow>
      (\<exists>c. at_index words at = Some c \<and> c = n \<and>
        loop (unat c) (validate_phrase words) (Suc at, ()) = Some (Inr (at', ())))"
    by (auto simp: validate_phrases_def andthen_Inr read_word_Inr)
  also have "\<dots> \<longleftrightarrow> (\<exists>qs. reads words at (encode_list encode_phrase qs) at' \<and> fits qs \<and> of_nat (length qs) = n \<and>
      (\<forall>q \<in> set qs. valid_phrase q) \<and> try_fold (\<lambda>_ s. Inr s) qs () = (Inr () :: unit + unit))"
    by (rule accepts_counted [OF accepts_phrase [OF assms(1)] assms(2)])
  finally show ?thesis by (auto simp: try_fold_Inr encode_phrases_def)
qed

lemma reads_bound: "reads words at e at' \<Longrightarrow> at' \<le> length words"
  by (simp add: reads_def)

lemma ex_quoted: "(\<exists>quoted. P quoted \<and> Q quoted \<and> quoted \<noteq> None) \<longleftrightarrow> (\<exists>req forb. P (Some (req, forb)) \<and> Q (Some (req, forb)))"
  by (auto simp: not_None_eq)

lemma validate_quoted_Inr:
  assumes "length words < 2 ^ 64" "at \<le> length words"
  shows "validate_quoted words version at = Some (Inr at') \<longleftrightarrow>
    (\<exists>quoted. reads words at (encode_quoted quoted) at' \<and> valid_quoted quoted \<and>
      (is_phrasal version \<longleftrightarrow> quoted \<noteq> None))"
proof (cases "is_phrasal version")
  case True
  have "(\<exists>m req_count forb_count. validate_phrases words at = Some (Inr (req_count, m)) \<and>
        validate_phrases words m = Some (Inr (forb_count, at')) \<and> \<not> (req_count = 0 \<and> forb_count = 0)) \<longleftrightarrow>
      (\<exists>m req forb. reads words at (encode_phrases req) m \<and> reads words m (encode_phrases forb) at' \<and>
        valid_quoted (Some (req, forb)))" (is "?L \<longleftrightarrow> ?R")
  proof
    assume ?L
    then obtain m rc fc where l: "validate_phrases words at = Some (Inr (rc, m))"
      "validate_phrases words m = Some (Inr (fc, at'))" "\<not> (rc = 0 \<and> fc = 0)" by blast
    obtain req where req: "reads words at (encode_phrases req) m" "fits req" "rc = of_nat (length req)"
      "\<forall>q \<in> set req. valid_phrase q" using l(1) validate_phrases_Inr [OF assms] by blast
    obtain forb where forb: "reads words m (encode_phrases forb) at'" "fits forb" "fc = of_nat (length forb)"
      "\<forall>q \<in> set forb. valid_phrase q"
      using l(2) validate_phrases_Inr [OF assms(1) reads_bound [OF req(1)]] by blast
    then show ?R using req l(3) by (auto simp: valid_quoted_def of_nat_fits_zero)
  next
    assume ?R
    then obtain m req forb where r: "reads words at (encode_phrases req) m" "reads words m (encode_phrases forb) at'"
      "valid_quoted (Some (req, forb))" by blast
    have "validate_phrases words at = Some (Inr (of_nat (length req), m))"
      "validate_phrases words m = Some (Inr (of_nat (length forb), at'))"
      using r validate_phrases_Inr [OF assms] validate_phrases_Inr [OF assms(1) reads_bound [OF r(1)]]
      by (auto simp: valid_quoted_def)
    moreover have "\<not> ((of_nat (length req) :: u32) = 0 \<and> (of_nat (length forb) :: u32) = 0)"
      using r(3) by (auto simp: valid_quoted_def of_nat_fits_zero)
    ultimately show ?L by blast
  qed
  moreover have "?R \<longleftrightarrow> (\<exists>quoted. reads words at (encode_quoted quoted) at' \<and> valid_quoted quoted \<and> quoted \<noteq> None)"
    unfolding ex_quoted by (simp add: reads_append encode_quoted_def) blast
  moreover have "validate_quoted words version at = Some (Inr at') \<longleftrightarrow> ?L"
    using True by (auto simp: validate_quoted_def andthen_Inr split: if_splits)
  ultimately show ?thesis using True by simp
next
  case False
  then show ?thesis using assms(2)
    by (auto simp: validate_quoted_def encode_quoted_def reads_Nil valid_quoted_def split: option.splits)
qed

lemma validate_tail_Inr:
  assumes "length words < 2 ^ 64" "at \<le> length words"
  shows "validate_tail words version at = Some (Inr ()) \<longleftrightarrow>
    (\<exists>cs quoted. reads words at (encode_list encode_run cs @ encode_quoted quoted) (length words) \<and> fits cs \<and>
      (\<forall>c \<in> set cs. valid_negative c) \<and> valid_quoted quoted \<and> (is_phrasal version \<longleftrightarrow> quoted \<noteq> None))"
proof -
  note negs = accepts_counted [OF accepts_negative [OF assms(1)] assms(2), of "\<lambda>_. True" "()" _ "()"]
  define Q where "Q m \<longleftrightarrow> (\<exists>quoted. reads words m (encode_quoted quoted) (length words) \<and> valid_quoted quoted \<and>
      (is_phrasal version \<longleftrightarrow> quoted \<noteq> None))" for m
  have quoted: "validate_quoted words version m = Some (Inr (length words)) \<longleftrightarrow> Q m"
    if "reads words at (encode_list encode_run cs) m" for m cs
    unfolding Q_def by (rule validate_quoted_Inr [OF assms(1) reads_bound [OF that]])
  have "validate_tail words version at = Some (Inr ()) \<longleftrightarrow>
      (\<exists>m. (\<exists>n. at_index words at = Some n \<and> True \<and>
        loop (unat n) (validate_negative words) (Suc at, ()) = Some (Inr (m, ()))) \<and>
        validate_quoted words version m = Some (Inr (length words)))"
    unfolding validate_tail_def by (auto simp: andthen_Inr read_word_Inr split: if_splits)
  also have "\<dots> \<longleftrightarrow> (\<exists>m cs. reads words at (encode_list encode_run cs) m \<and> fits cs \<and>
      (\<forall>c \<in> set cs. valid_negative c) \<and> Q m)"
    unfolding negs using quoted by (auto simp: try_fold_Inr)
  finally show ?thesis unfolding reads_append Q_def by blast
qed

lemma read_semantic_Inr:
  assumes "at \<le> length words"
  shows "read_semantic words version at = Some (Inr (rank, at')) \<longleftrightarrow>
    reads words at (encode_rank rank) at' \<and> (is_ranked version \<longleftrightarrow> rank \<noteq> None)"
  using assms
  by (cases rank) (auto simp: read_semantic_def andthen_Inr read_word_Inr encode_rank_def reads_Cons reads_Nil
      at_index_Some_iff)

definition rank_checks :: "(u32 \<times> u32) option \<Rightarrow> u32 \<Rightarrow> bool" where
  "rank_checks rank n \<longleftrightarrow> \<not> semantic_some rank (\<lambda>groups terms. groups < n) \<and>
     \<not> semantic_some rank (\<lambda>groups terms. terms < groups)"

lemma valid_rank_checks:
  "valid_rank rank gs \<longleftrightarrow> rank_checks rank (of_nat (length gs)) \<and>
     \<not> semantic_some rank (\<lambda>groups terms. terms < saturating_add groups (compound_extra gs))"
  by (auto simp: valid_rank_def rank_checks_def semantic_some_def not_less split: option.split)

lemma validate_groups_Inr:
  assumes "length words < 2 ^ 64" "at \<le> length words"
  shows "(\<exists>n. at_index words at = Some n \<and> rank_checks rank n \<and>
       loop (unat n) (validate_group words) (Suc at, 0) = Some (Inr (at', extra))) \<longleftrightarrow>
     (\<exists>gs. reads words at (encode_list encode_group gs) at' \<and> fits gs \<and> rank_checks rank (of_nat (length gs)) \<and>
       (\<forall>g \<in> set gs. valid_group g) \<and> extra = compound_extra gs)"
  using accepts_counted [OF accepts_group [OF assms(1)] assms(2), of "rank_checks rank" 0 at' extra]
  by (auto simp: try_fold_Inr compound_extra_def)

lemma validate_predicate_steps:
  assumes "words \<noteq> []"
  shows "validate_predicate words = Some (Inr ()) \<longleftrightarrow>
    (\<exists>rank a b extra. validate_version (hd words) \<and> read_semantic words (hd words) 1 = Some (Inr (rank, a)) \<and>
      (\<exists>n. at_index words a = Some n \<and> rank_checks rank n \<and>
        loop (unat n) (validate_group words) (Suc a, 0) = Some (Inr (b, extra))) \<and>
      \<not> semantic_some rank (\<lambda>groups terms. terms < saturating_add groups extra) \<and>
      validate_tail words (hd words) b = Some (Inr ()))"
proof -
  have "read_word words 0 = Some (Inr (hd words, 1))"
    using assms by (simp add: read_word_def at_index_def hd_conv_nth)
  then show ?thesis using assms unfolding rank_checks_def
    by (simp add: validate_predicate_def andthen_Inr read_word_Inr) (auto split: if_splits, blast)
qed

lemma version_unique:
  assumes "validate_version v" "is_ranked v \<longleftrightarrow> prog_rank p \<noteq> None" "is_phrasal v \<longleftrightarrow> prog_phrases p \<noteq> None"
  shows "v = program_version p"
  using assms by (auto simp: validate_version_def is_ranked_def is_phrasal_def program_version_def version_defs
      split: option.splits)

lemma validate_complete:
  assumes "length words < 2 ^ 64" "words \<noteq> []" "validate_predicate words = Some (Inr ())"
  shows "\<exists>p. valid_program p \<and> words = encode_program p"
proof -
  have len: "1 \<le> length words" using assms(2) by (cases words) simp_all
  obtain rank a b extra where v: "validate_version (hd words)"
    and s: "read_semantic words (hd words) 1 = Some (Inr (rank, a))"
    and g: "\<exists>n. at_index words a = Some n \<and> rank_checks rank n \<and>
        loop (unat n) (validate_group words) (Suc a, 0) = Some (Inr (b, extra))"
    and x: "\<not> semantic_some rank (\<lambda>groups terms. terms < saturating_add groups extra)"
    and t: "validate_tail words (hd words) b = Some (Inr ())"
    using assms(3) unfolding validate_predicate_steps [OF assms(2)] by blast
  have rank: "reads words 1 (encode_rank rank) a" "is_ranked (hd words) \<longleftrightarrow> rank \<noteq> None"
    using s read_semantic_Inr [OF len] by auto
  obtain gs where gs: "reads words a (encode_list encode_group gs) b" "fits gs" "rank_checks rank (of_nat (length gs))"
    "\<forall>g \<in> set gs. valid_group g" "extra = compound_extra gs"
    using g unfolding validate_groups_Inr [OF assms(1) reads_bound [OF rank(1)]] by blast
  obtain cs quoted where cs: "reads words b (encode_list encode_run cs @ encode_quoted quoted) (length words)" "fits cs"
    "\<forall>c \<in> set cs. valid_negative c" "valid_quoted quoted" "is_phrasal (hd words) \<longleftrightarrow> quoted \<noteq> None"
    using t unfolding validate_tail_Inr [OF assms(1) reads_bound [OF gs(1)]] by blast
  define p where "p = \<lparr>prog_rank = rank, prog_groups = gs, prog_negatives = cs, prog_phrases = quoted\<rparr>"
  have version: "hd words = program_version p"
    by (rule version_unique [OF v]) (simp_all add: p_def rank(2) cs(5))
  have "reads words 0 [hd words] 1"
    using assms(2) by (simp add: reads_single at_index_def hd_conv_nth)
  then have "reads words 0 ([hd words] @ encode_rank rank @ encode_list encode_group gs @
      encode_list encode_run cs @ encode_quoted quoted) (length words)"
    using rank(1) gs(1) cs(1) by (meson reads_append)
  then have "reads words 0 (encode_program p) (length words)"
    unfolding version by (simp add: encode_program_def encode_body_def p_def)
  moreover have "valid_program p"
    using gs cs x valid_rank_checks [of rank gs] by (simp add: valid_program_def p_def)
  ultimately show ?thesis unfolding reads_all by blast
qed

lemma validate_sound:
  assumes "length (encode_program p) < 2 ^ 64" "valid_program p"
  shows "validate_predicate (encode_program p) = Some (Inr ())"
proof -
  let ?w = "encode_program p"
  have ne: "?w \<noteq> []" "hd ?w = program_version p" "1 \<le> length ?w" by (simp_all add: encode_program_def)
  have "reads ?w 0 ([program_version p] @ encode_rank (prog_rank p) @ encode_list encode_group (prog_groups p) @
      encode_list encode_run (prog_negatives p) @ encode_quoted (prog_phrases p)) (length ?w)"
    unfolding reads_all by (simp add: encode_program_def encode_body_def)
  then obtain o1 a b where "reads ?w 0 [program_version p] o1" and r: "reads ?w o1 (encode_rank (prog_rank p)) a"
    "reads ?w a (encode_list encode_group (prog_groups p)) b"
    "reads ?w b (encode_list encode_run (prog_negatives p) @ encode_quoted (prog_phrases p)) (length ?w)"
    by (meson reads_append)
  then have "o1 = 1" by (simp add: reads_single)
  have "read_semantic ?w (hd ?w) 1 = Some (Inr (prog_rank p, a))"
    using r(1) read_semantic_Inr [OF ne(3)] \<open>o1 = 1\<close> by (simp add: ne)
  moreover have "\<exists>n. at_index ?w a = Some n \<and> rank_checks (prog_rank p) n \<and>
      loop (unat n) (validate_group ?w) (Suc a, 0) = Some (Inr (b, compound_extra (prog_groups p)))"
    unfolding validate_groups_Inr [OF assms(1) reads_bound [OF r(1)]]
    using r(2) assms(2) by (auto simp: valid_program_def valid_rank_checks)
  moreover have "validate_tail ?w (hd ?w) b = Some (Inr ())"
    unfolding validate_tail_Inr [OF assms(1) reads_bound [OF r(2)]] ne(2)
    using r(3) assms(2) by (auto simp: valid_program_def)
  ultimately show ?thesis
    unfolding validate_predicate_steps [OF ne(1)] using assms(2) version_flags(3) [of p]
    by (auto simp: ne valid_program_def valid_rank_checks)
qed

end
