(* ===== verification/Predicate_Properties.thy ===== *)
theory Predicate_Properties
  imports Predicate_Validator
begin

text \<open>
  What the predicate programs guarantee: the compiler's programs mean what the
  compiled query means, the validator is exact and never panics, a validated
  program never makes an interpreter panic, the columnar interpreter is the
  transpose of the scalar one, ranking words never influence matching, and the
  ranking walk recovers the counts the compiler wrote.
\<close>

section \<open>The validator never panics\<close>

definition returns :: "'a option \<Rightarrow> bool" where
  "returns m \<longleftrightarrow> m \<noteq> None"

lemma returns_Some: "returns (Some x)"
  by (simp add: returns_def)

lemma returns_if: "(P \<Longrightarrow> returns a) \<Longrightarrow> (\<not> P \<Longrightarrow> returns b) \<Longrightarrow> returns (if P then a else b)"
  by simp

lemma returns_andthen:
  assumes "returns m" "\<And>a. m = Some (Inr a) \<Longrightarrow> returns (k a)"
  shows "returns (andthen m k)"
  using assms by (auto simp: andthen_def returns_def split: sum.splits)

lemma returns_pair: "(\<And>a b. returns (k a b)) \<Longrightarrow> returns (case x of (a, b) \<Rightarrow> k a b)"
  by (cases x) simp

lemma returns_loop: "(\<And>s. returns (body s)) \<Longrightarrow> returns (loop n body s)"
  by (induction n arbitrary: s) (auto intro: returns_andthen simp: returns_Some)

lemma returns_reads: "returns (read_word words at)" "returns (take_words words at n)"
  by (auto simp: returns_def read_word_def take_words_def split: option.splits)

lemmas returns_intros = returns_if returns_andthen returns_pair returns_loop returns_reads returns_Some

lemma returns_items:
  "returns (validate_requirement words s1)" "returns (validate_negative words s1)"
  unfolding validate_requirement_def validate_negative_def by (intro returns_intros)+

lemma returns_member: "returns (validate_member words s)"
  unfolding validate_member_def by (intro returns_intros returns_items)

lemma returns_group: "returns (validate_group words s)"
  unfolding validate_group_def by (intro returns_intros returns_member)

lemma returns_slice_taken:
  assumes "take_words words at n = Some (Inr at')" "\<And>labels. returns (k labels)"
  shows "returns (case slice words at (at' - at) of None \<Rightarrow> None | Some labels \<Rightarrow> k labels)"
proof -
  have "slice words at (at' - at) \<noteq> None"
    using assms(1) by (auto simp: take_words_def usize_checked_add_def slice_def split: option.splits if_splits)
  then show ?thesis using assms(2) by (auto split: option.split)
qed

lemma returns_arc: "returns (validate_arc words pos s)"
  unfolding validate_arc_def by (intro returns_intros) (erule returns_slice_taken, rule returns_Some)

lemma returns_phrase: "returns (validate_phrase words s)"
  unfolding validate_phrase_def by (intro returns_intros returns_arc)

lemma returns_quoted: "returns (validate_quoted words version at)"
  unfolding validate_quoted_def validate_phrases_def by (intro returns_intros returns_phrase)

lemma returns_tail: "returns (validate_tail words version at)"
  unfolding validate_tail_def by (intro returns_intros returns_items returns_quoted)

lemma validate_total: "returns (validate_predicate words)"
  unfolding validate_predicate_def read_semantic_def by (intro returns_intros returns_group returns_tail)

section \<open>The ranking walk on an encoding\<close>

definition sum_terms :: "('a \<Rightarrow> u32) \<Rightarrow> 'a list \<Rightarrow> u32 \<Rightarrow> u32" where
  "sum_terms w xs s = fold (\<lambda>x s. saturating_add s (w x)) xs s"

lemma rank_member_encoded:
  assumes "drop at words = encode_member m @ post" "fits (requirements m)" "\<forall>r \<in> set (requirements m). fits r"
  shows "rank_member words (at, s) =
    Some (resume (at + length (encode_member m)) (Inr (min s (of_nat (length (requirements m))))))"
proof -
  have head: "at_index words at = Some (of_nat (length (requirements m)))"
    using assms(1) at_index_cursor [of at words] by (simp add: encode_member_def encode_list_def)
  have "counted_loop words (rank_requirement words) (at, ()) =
      Some (resume (at + length (encode_list encode_run (requirements m))) (try_fold (\<lambda>r s. Inr s) (requirements m) ()))"
  proof (rule counted_encoded [OF assms(1) [unfolded encode_member_def] assms(2)])
    fix r at' st post'
    assume r: "r \<in> set (requirements m)" "drop at' words = encode_run r @ post'"
    have "at_index words at' = Some (of_nat (length r))"
      using r(2) at_index_cursor [of at' words] by (simp add: encode_run_def)
    then show "rank_requirement words (at', st) = Some (resume (at' + length (encode_run r)) (Inr st))"
      using assms(3) r(1) unat_fits [of r] by (simp add: rank_requirement_def encode_run_def)
  qed
  then show ?thesis using head by (simp add: rank_member_def try_fold_Inr encode_member_def)
qed

lemma rank_group_encoded:
  assumes "drop at words = encode_group g @ post" "sized_group g"
  shows "rank_group words (at, s) =
    Some (resume (at + length (encode_group g)) (Inr (saturating_add s (group_extra g))))"
proof -
  have "counted_loop words (rank_member words) (at, - 1) =
      Some (resume (at + length (encode_list encode_member (members g)))
        (try_fold (\<lambda>m s. Inr (min s (of_nat (length (requirements m))))) (members g) (- 1)))"
    using assms(2) rank_member_encoded
    by (intro counted_encoded [OF assms(1) [unfolded encode_group_def]]) (auto simp: sized_group_def)
  then show ?thesis by (simp add: rank_group_def try_fold_Inr encode_group_def group_extra_def)
qed

lemma rank_groups_encoded:
  assumes "drop at words = encode_list encode_group gs @ post" "fits gs" "\<forall>g \<in> set gs. sized_group g"
  shows "counted_loop words (rank_group words) (at, 0) =
    Some (Inr (at + length (encode_list encode_group gs), compound_extra gs))"
  using counted_encoded [OF assms(1,2), of "rank_group words" "\<lambda>g s. Inr (saturating_add s (group_extra g))" 0]
    rank_group_encoded assms(3) by (simp add: try_fold_Inr compound_extra_def)

lemma rank_negatives_encoded:
  assumes "drop at words = encode_list encode_run cs @ post" "fits cs" "\<forall>c \<in> set cs. fits c"
  shows "counted_loop words (rank_negative words) (at, s) =
    Some (Inr (at + length (encode_list encode_run cs), sum_terms (\<lambda>c. of_nat (length c)) cs s))"
proof -
  have "counted_loop words (rank_negative words) (at, s) =
      Some (resume (at + length (encode_list encode_run cs))
        (try_fold (\<lambda>c s. Inr (saturating_add s (of_nat (length c)))) cs s))"
  proof (rule counted_encoded [OF assms(1,2)])
    fix c at' st post'
    assume c: "c \<in> set cs" "drop at' words = encode_run c @ post'"
    have "at_index words at' = Some (of_nat (length c))"
      using c(2) at_index_cursor [of at' words] by (simp add: encode_run_def)
    then show "rank_negative words (at', st) =
        Some (resume (at' + length (encode_run c)) (Inr (saturating_add st (of_nat (length c)))))"
      using assms(3) c(1) unat_fits [of c] by (simp add: rank_negative_def encode_run_def)
  qed
  then show ?thesis by (simp add: try_fold_Inr sum_terms_def)
qed

lemma rank_quoted_encoded:
  assumes "drop at words = encode_phrases ps @ post" "sized_phrases ps"
  shows "counted_loop words (rank_phrase words) (at, s) =
    Some (Inr (at + length (encode_phrases ps), sum_terms positions ps s))"
proof -
  have fit: "fits ps" using assms(2) by (simp add: sized_phrases_def)
  have "counted_loop words (rank_phrase words) (at, s) =
      Some (resume (at + length (encode_list encode_phrase ps))
        (try_fold (\<lambda>q s. Inr (saturating_add s (positions q))) ps s))"
  proof (rule counted_encoded [OF assms(1) [unfolded encode_phrases_def] fit])
    fix q at' st post'
    assume q: "q \<in> set ps" "drop at' words = encode_phrase q @ post'"
    have "at_index words at' = Some (positions q)"
      using q(2) at_index_cursor [of at' words] by (simp add: encode_phrase_def)
    then show "rank_phrase words (at', st) =
        Some (resume (at' + length (encode_phrase q)) (Inr (saturating_add st (positions q))))"
      using assms(2) q skip_graph_encoded [OF q(2)] by (simp add: rank_phrase_def sized_phrases_def)
  qed
  then show ?thesis by (simp add: try_fold_Inr sum_terms_def encode_phrases_def)
qed

definition quoted_terms :: "program \<Rightarrow> u32" where
  "quoted_terms p = (case prog_phrases p of None \<Rightarrow> 0 | Some (req, forb) \<Rightarrow> sum_terms positions req 0)"

definition negative_terms :: "program \<Rightarrow> u32" where
  "negative_terms p =
     (let flat = sum_terms (\<lambda>c. of_nat (length c)) (prog_negatives p) 0
      in case prog_phrases p of None \<Rightarrow> flat | Some (req, forb) \<Rightarrow> sum_terms positions forb flat)"

definition program_rank :: "u32 \<Rightarrow> program \<Rightarrow> u32 \<times> u32" where
  "program_rank proxies p =
     (case prog_rank p of
        Some counts \<Rightarrow> counts
      | None \<Rightarrow> let groups = max proxies (of_nat (length (prog_groups p)))
               in (groups, saturating_add groups (compound_extra (prog_groups p))))"

lemma rank_program:
  assumes "sized_program p"
  shows "predicate_rank_term_counts (encode_program p) proxies =
    Some (saturating_add (snd (program_rank proxies p)) (quoted_terms p), negative_terms p, fst (program_rank proxies p))"
proof -
  let ?w = "encode_program p" and ?at = "Suc (length (encode_rank (prog_rank p)))"
  let ?gs = "encode_list encode_group (prog_groups p)" and ?cs = "encode_list encode_run (prog_negatives p)"
  have d1: "drop ?at ?w = ?gs @ (?cs @ encode_quoted (prog_phrases p))" using drop_body by (simp add: encode_body_def)
  note d2 = drop_advance [OF d1]
  note d3 = drop_advance [OF d2]
  have groups: "counted_loop ?w (rank_group ?w) (?at, 0) = Some (Inr (?at + length ?gs, compound_extra (prog_groups p)))"
    using assms by (intro rank_groups_encoded [OF d1]) (auto simp: sized_program_def)
  have negs: "counted_loop ?w (rank_negative ?w) (?at + length ?gs, 0) =
      Some (Inr (?at + length ?gs + length ?cs, sum_terms (\<lambda>c. of_nat (length c)) (prog_negatives p) 0))"
    using assms by (intro rank_negatives_encoded [OF d2]) (auto simp: sized_program_def)
  have quoted: "rank_phrases ?w (?at + length ?gs + length ?cs, s) =
      Some (Inr (sum_terms positions req 0, sum_terms positions forb s))"
    if "prog_phrases p = Some (req, forb)" for req forb s
  proof -
    have d4: "drop (?at + length ?gs + length ?cs) ?w = encode_phrases req @ (encode_phrases forb @ [])"
      using d3 that by (simp add: encode_quoted_def)
    have "sized_phrases req" "sized_phrases forb" using assms that by (auto simp: sized_program_def)
    then show ?thesis
      using rank_quoted_encoded [OF d4] rank_quoted_encoded [OF drop_advance [OF d4]] by (simp add: rank_phrases_def)
  qed
  have head: "?w \<noteq> []" "hd ?w = program_version p" by (simp_all add: encode_program_def)
  have "prog_rank p = Some (g, t) \<Longrightarrow> at_index ?w 1 = Some g \<and> at_index ?w 2 = Some t" for g t
    by (simp add: encode_program_def encode_rank_def at_index_def)
  moreover have "at_index ?w ?at = Some (of_nat (length (prog_groups p)))"
    using at_index_cursor [of ?at ?w] d1 by (simp add: encode_list_def)
  ultimately show ?thesis using groups negs quoted head
    by (auto simp: predicate_rank_term_counts_def Let_def program_rank_def quoted_terms_def negative_terms_def
        split: option.split)
qed

section \<open>The compiler's programs\<close>

definition program_of :: "extracted \<Rightarrow> program" where
  "program_of ex =
     \<lparr>prog_rank = Some (rank_groups ex, rank_terms ex), prog_groups = anyof_predicates ex,
      prog_negatives = forbidden_conjunctions ex,
      prog_phrases = (if required_phrases ex = [] \<and> forbidden_phrases ex = [] then None
        else Some (required_phrases ex, forbidden_phrases ex))\<rparr>"

text \<open>Whether a row carries a program at all.\<close>

definition needs_program :: "extracted \<Rightarrow> bool" where
  "needs_program ex \<longleftrightarrow> \<not> (anyof_predicates ex = [] \<and> forbidden_conjunctions ex = [] \<and> required_phrases ex = [] \<and>
     forbidden_phrases ex = [] \<and> rank_groups ex = u32_of_len (length (anyof ex)) \<and>
     rank_terms ex = u32_of_len (length (anyof ex)))"

definition program_words_of :: "extracted \<Rightarrow> u32 list" where
  "program_words_of ex = (if needs_program ex then encode_program (program_of ex) else [])"

lemma encode_predicate_eq:
  "encode_predicate ex blob =
     ((of_nat (length blob), of_nat (length (program_words_of ex))), blob @ program_words_of ex)"
proof -
  have "encode_program (program_of ex) = [if required_phrases ex = [] \<and> forbidden_phrases ex = []
        then RANK_FEATURE_PROGRAM_VERSION else RANK_PHRASE_PROGRAM_VERSION, rank_groups ex, rank_terms ex] @
      encode_list encode_group (anyof_predicates ex) @ encode_list encode_run (forbidden_conjunctions ex) @
      (if required_phrases ex = [] \<and> forbidden_phrases ex = [] then []
       else encode_phrases (required_phrases ex) @ encode_phrases (forbidden_phrases ex))"
    by (simp add: encode_program_def program_of_def encode_body_def encode_quoted_def encode_rank_def program_version_def)
  then show ?thesis
    by (auto simp: encode_predicate_def program_words_of_def needs_program_def Let_def version_defs)
qed

text \<open>The column guard counts every encoded word but the two ranking words.\<close>

lemma try_fold_count:
  assumes "try_fold f xs w = Inr w'" "\<And>x w w'. x \<in> set xs \<Longrightarrow> f x w = Inr w' \<Longrightarrow> w' = w + length (enc x) \<and> P x"
  shows "w' = w + length (concat (map enc xs)) \<and> (\<forall>x \<in> set xs. P x)"
  using assms by (induction xs arbitrary: w) (fastforce split: sum.splits)+

lemma add_words_Inr: "add_words n w = Inr w' \<Longrightarrow> w' = w + n"
  by (auto simp: add_words_def usize_checked_add_def split: option.splits if_splits)

lemma guarded_Inr: "guarded n k w = Inr w' \<longleftrightarrow> n < 2 ^ 32 \<and> k w = Inr w'"
  by (auto simp: guarded_def u32_ceiling_def)

lemma then_count_Inr: "then_count r k = Inr w' \<longleftrightarrow> (\<exists>w. r = Inr w \<and> k w = Inr w')"
  by (auto simp: then_count_def split: sum.split)

lemma count_alternatives_Inr:
  "count_alternatives alts w = Inr w' \<Longrightarrow> w' = w + length (encode_run alts) \<and> fits alts"
  by (auto simp: count_alternatives_def guarded_Inr encode_run_def fits_def dest: add_words_Inr)

lemma count_member_Inr:
  assumes "count_member m w = Inr w'"
  shows "w' = w + length (encode_member m) \<and> fits (requirements m) \<and> (\<forall>r \<in> set (requirements m). fits r)"
proof -
  obtain w1 where "add_words 1 w = Inr w1" "try_fold count_alternatives (requirements m) w1 = Inr w'"
    "fits (requirements m)"
    using assms by (auto simp: count_member_def guarded_Inr then_count_Inr fits_def)
  then show ?thesis
    using try_fold_count [of count_alternatives "requirements m" w1 w' encode_run fits] add_words_Inr [of 1 w w1]
      count_alternatives_Inr by (auto simp: encode_member_def encode_list_def)
qed

lemma count_predicate_Inr:
  assumes "count_predicate g w = Inr w'"
  shows "w' = w + length (encode_group g) \<and> sized_group g"
proof -
  obtain w1 where "add_words 1 w = Inr w1" "try_fold count_member (members g) w1 = Inr w'" "fits (members g)"
    using assms by (auto simp: count_predicate_def guarded_Inr then_count_Inr fits_def)
  then show ?thesis
    using try_fold_count [of count_member "members g" w1 w' encode_member
        "\<lambda>m. fits (requirements m) \<and> (\<forall>r \<in> set (requirements m). fits r)"]
      add_words_Inr [of 1 w w1] count_member_Inr by (auto simp: encode_group_def encode_list_def sized_group_def)
qed

lemma count_phrase_Inr:
  assumes "count_phrase q w = Inr w'"
  shows "w' = w + length (encode_phrase q) \<and> sized_phrase q"
proof -
  have arc: "v' = v + length (encode_arc a) \<and> fits (alternatives a)" if "count_arc a v = Inr v'" for a v v'
    using that by (auto simp: count_arc_def guarded_Inr length_encode_arc fits_def dest: add_words_Inr)
  obtain w1 where "add_words 2 w = Inr w1" "try_fold count_arc (arcs q) w1 = Inr w'" "fits (arcs q)"
    using assms by (auto simp: count_phrase_def guarded_Inr then_count_Inr fits_def)
  then show ?thesis
    using try_fold_count [of count_arc "arcs q" w1 w' encode_arc "\<lambda>a. fits (alternatives a)"]
      add_words_Inr [of 2 w w1] arc by (auto simp: encode_phrase_def encode_list_def sized_phrase_def)
qed

lemma count_phrases_Inr:
  assumes "count_phrases ps w = Inr w'"
  shows "Suc w' = w + length (encode_phrases ps) \<and> sized_phrases ps"
  using assms try_fold_count [of count_phrase ps w w' encode_phrase sized_phrase] count_phrase_Inr
  by (auto simp: count_phrases_def guarded_Inr encode_phrases_def encode_list_def sized_phrases_def fits_def)

lemma program_words_Inr:
  assumes "program_words ex = Inr w"
  shows "length (encode_program (program_of ex)) = w + 2 \<and> sized_program (program_of ex)"
proof -
  obtain w1 w2 where w1: "fits (anyof_predicates ex)" "try_fold count_predicate (anyof_predicates ex) 3 = Inr w1"
    and w2: "fits (forbidden_conjunctions ex)" "try_fold count_alternatives (forbidden_conjunctions ex) w1 = Inr w2"
    and w3: "(if required_phrases ex = [] \<and> forbidden_phrases ex = [] then Inr w2
      else then_count (add_words 2 w2)
        (\<lambda>w. then_count (count_phrases (required_phrases ex) w) (count_phrases (forbidden_phrases ex)))) = Inr w"
    using assms by (auto simp: program_words_def then_count_Inr guarded_Inr fits_def)
  have g: "w1 = 3 + length (concat (map encode_group (anyof_predicates ex)))" "\<forall>g \<in> set (anyof_predicates ex). sized_group g"
    using try_fold_count [OF w1(2), of encode_group sized_group] count_predicate_Inr by auto
  have n: "w2 = w1 + length (concat (map encode_run (forbidden_conjunctions ex)))"
    "\<forall>c \<in> set (forbidden_conjunctions ex). fits c"
    using try_fold_count [OF w2(2), of encode_run fits] count_alternatives_Inr by auto
  have enc: "length (encode_program (program_of ex)) =
      w2 + 2 + length (encode_quoted (prog_phrases (program_of ex)))"
    using g(1) n(1) by (simp add: encode_program_def program_of_def encode_body_def encode_rank_def encode_list_def)
  show ?thesis
  proof (cases "required_phrases ex = [] \<and> forbidden_phrases ex = []")
    case True
    then show ?thesis using w3 enc w1(1) w2(1) g(2) n(2) by (simp add: program_of_def encode_quoted_def sized_program_def)
  next
    case False
    then obtain w4 w5 where "add_words 2 w2 = Inr w4" "count_phrases (required_phrases ex) w4 = Inr w5"
      "count_phrases (forbidden_phrases ex) w5 = Inr w"
      using w3 by (auto simp: then_count_Inr)
    then show ?thesis
      using False enc w1(1) w2(1) g(2) n(2) add_words_Inr [of 2 w2 w4] count_phrases_Inr
      by (fastforce simp: program_of_def encode_quoted_def sized_program_def)
  qed
qed

lemma column_overflow_sized:
  assumes "column_overflow ex = None"
  shows "sized_program (program_of ex) \<and> length (program_words_of ex) < 2 ^ 32 + 2"
proof -
  obtain w where "program_words ex = Inr w" "w < 2 ^ 32"
    using assms by (auto simp: column_overflow_def u32_ceiling_def split: if_splits option.splits sum.splits)
  then show ?thesis using program_words_Inr [of ex w] by (auto simp: program_words_of_def)
qed

lemma usable_program_of:
  assumes "column_overflow ex = None" "wf_extracted ex"
  shows "usable_program (program_of ex)"
proof -
  have sized: "sized_program (program_of ex)" using column_overflow_sized [OF assms(1)] by blast
  then show ?thesis using assms(2)
    by (auto simp: usable_program_def usable_phrases_def wf_extracted_def wf_graph_def list_all_iff program_of_def
        sized_program_def split: if_splits)
qed

section \<open>The columnar interpreter on an encoding\<close>

text \<open>Title \<open>t\<close> of a batch is bit \<open>t mod 64\<close> of word \<open>t div 64\<close>.\<close>

definition bit_at :: "u64 list \<Rightarrow> nat \<Rightarrow> bool" where
  "bit_at xs t \<longleftrightarrow> t div 64 < length xs \<and> bit (xs ! (t div 64)) (t mod 64)"

definition present :: "bitmap_lookup \<Rightarrow> nat \<Rightarrow> feature_id \<Rightarrow> bool" where
  "present look t f \<longleftrightarrow> (case look f of None \<Rightarrow> False | Some bm \<Rightarrow> bit_at bm t)"

definition bitmaps_of_length :: "nat \<Rightarrow> bitmap_lookup \<Rightarrow> bool" where
  "bitmaps_of_length n look \<longleftrightarrow> (\<forall>f bm. look f = Some bm \<longrightarrow> length bm = n)"

lemma length_zip_into [simp]: "length (zip_into f dst src) = length dst"
  by (simp add: zip_into_def)

lemma bit_at_zip_into:
  assumes "length src = length dst"
  shows "bit_at (zip_into (AND) dst src) t \<longleftrightarrow> bit_at dst t \<and> bit_at src t"
    "bit_at (zip_into (OR) dst src) t \<longleftrightarrow> bit_at dst t \<or> bit_at src t"
  using assms by (auto simp: bit_at_def zip_into_def bit_and_iff bit_or_iff)

lemma bit_at_fill [simp]: "\<not> bit_at (fill 0 xs) t" "bit_at (fill (- 1) xs) t \<longleftrightarrow> t div 64 < length xs"
  "length (fill v xs) = length xs"
  by (auto simp: bit_at_def fill_def)

lemma bit_at_NOT: "bit_at (map NOT xs) t \<longleftrightarrow> t div 64 < length xs \<and> \<not> bit_at xs t"
  by (auto simp: bit_at_def bit_not_iff)

lemma fold_or_zero: "fold (OR) xs (a :: u64) = 0 \<longleftrightarrow> a = 0 \<and> (\<forall>x \<in> set xs. x = 0)"
  by (induction xs arbitrary: a) (auto simp: or_eq_0_iff)

lemma any_nonzero_iff: "any_nonzero xs \<longleftrightarrow> (\<exists>t. bit_at xs t)"
proof
  assume "any_nonzero xs"
  then obtain i where i: "i < length xs" "xs ! i \<noteq> 0"
    by (auto simp: any_nonzero_def fold_or_zero in_set_conv_nth)
  then obtain b where "bit (xs ! i) b" by (auto simp: bit_eq_iff)
  moreover from this have "b < 64" by (rule bit_u64_bound)
  ultimately show "\<exists>t. bit_at xs t" using i(1) by (intro exI [of _ "i * 64 + b"]) (simp add: bit_at_def)
next
  assume "\<exists>t. bit_at xs t"
  then obtain t where t: "t div 64 < length xs" "bit (xs ! (t div 64)) (t mod 64)" by (auto simp: bit_at_def)
  then have "xs ! (t div 64) \<noteq> 0" by (metis bit_0_eq bot_apply bot_bool_def)
  then show "any_nonzero xs" using t(1) nth_mem by (auto simp: any_nonzero_def fold_or_zero)
qed

lemma or_bitmaps:
  assumes "bitmaps_of_length (length c) look"
  shows "length (fold (or_bitmap look) alts c) = length c \<and>
    (bit_at (fold (or_bitmap look) alts c) t \<longleftrightarrow> bit_at c t \<or> list_ex (present look t) alts)"
  using assms
proof (induction alts arbitrary: c)
  case (Cons f alts)
  show ?case
  proof (cases "look f")
    case None
    then show ?thesis using Cons by (simp add: or_bitmap_def present_def)
  next
    case (Some bm)
    have len: "length bm = length c" using Cons.prems Some by (simp add: bitmaps_of_length_def)
    then show ?thesis using Cons.IH [of "zip_into (OR) c bm"] Cons.prems Some
      by (simp add: or_bitmap_def present_def bit_at_zip_into)
  qed
qed simp

lemma and_bitmaps_bits:
  assumes "bitmaps_of_length (length m) look"
  shows "length (and_bitmaps look fs m) = length m \<and>
    (bit_at (and_bitmaps look fs m) t \<longleftrightarrow> bit_at m t \<and> list_all (present look t) fs)"
  using assms
proof (induction fs arbitrary: m)
  case (Cons f fs)
  show ?case
  proof (cases "look f")
    case None
    then show ?thesis by (simp add: present_def)
  next
    case (Some bm)
    have len: "length bm = length m" using Cons.prems Some by (simp add: bitmaps_of_length_def)
    then show ?thesis using Cons.IH [of "zip_into (AND) m bm"] Cons.prems Some
      by (simp add: present_def bit_at_zip_into)
  qed
qed simp

text \<open>Scratch bitmaps and accumulator share one length \<open>n\<close>.\<close>

definition member_bits :: "bitmap_lookup \<Rightarrow> u64 list \<Rightarrow> u64 list \<Rightarrow> anyof_member \<Rightarrow> u64 list" where
  "member_bits look member choice m =
     fold (\<lambda>r acc. zip_into (AND) acc (fold (or_bitmap look) r (fill 0 choice))) (requirements m) (fill (- 1) member)"

definition group_bits :: "bitmap_lookup \<Rightarrow> u64 list \<Rightarrow> u64 list \<Rightarrow> u64 list \<Rightarrow> anyof_predicate \<Rightarrow> u64 list" where
  "group_bits look grp member choice g =
     fold (\<lambda>m acc. zip_into (OR) acc (member_bits look member choice m)) (members g) (fill 0 grp)"

lemma member_bits_correct:
  assumes "bitmaps_of_length n look" "length member = n" "length choice = n"
  shows "length (member_bits look member choice m) = n \<and>
    (bit_at (member_bits look member choice m) t \<longleftrightarrow> t div 64 < n \<and> member_matches (present look t) m)"
proof -
  have "length (fold (\<lambda>r acc. zip_into (AND) acc (fold (or_bitmap look) r (fill 0 choice))) rs acc) = length acc \<and>
      (bit_at (fold (\<lambda>r acc. zip_into (AND) acc (fold (or_bitmap look) r (fill 0 choice))) rs acc) t \<longleftrightarrow>
        bit_at acc t \<and> list_all (list_ex (present look t)) rs)" if "length acc = n" for rs acc
    using that
  proof (induction rs arbitrary: acc)
    case (Cons r rs)
    have "length (fold (or_bitmap look) r (fill 0 choice)) = n \<and>
        (bit_at (fold (or_bitmap look) r (fill 0 choice)) t \<longleftrightarrow> list_ex (present look t) r)"
      using or_bitmaps [of "fill 0 choice" look r t] assms by simp
    then show ?case using Cons by (simp add: bit_at_zip_into)
  qed simp
  from this [of "fill (- 1) member" "requirements m"] show ?thesis
    using assms(2) by (simp add: member_bits_def member_matches_def)
qed

lemma group_bits_correct:
  assumes "bitmaps_of_length n look" "length grp = n" "length member = n" "length choice = n"
  shows "length (group_bits look grp member choice g) = n \<and>
    (bit_at (group_bits look grp member choice g) t \<longleftrightarrow>
      t div 64 < n \<and> list_ex (member_matches (present look t)) (members g))"
proof -
  note mb = member_bits_correct [OF assms(1,3,4)]
  have "length (fold (\<lambda>m acc. zip_into (OR) acc (member_bits look member choice m)) ms acc) = length acc \<and>
      (bit_at (fold (\<lambda>m acc. zip_into (OR) acc (member_bits look member choice m)) ms acc) t \<longleftrightarrow>
        bit_at acc t \<or> (t div 64 < n \<and> list_ex (member_matches (present look t)) ms))" if "length acc = n" for ms acc
    using that
  proof (induction ms arbitrary: acc)
    case (Cons m ms)
    then show ?case using mb by (auto simp: bit_at_zip_into)
  qed simp
  from this [of "fill 0 grp" "members g"] show ?thesis using assms(2) by (simp add: group_bits_def)
qed

lemma batch_member_encoded:
  assumes "drop at words = encode_member m @ post" "fits (requirements m)" "\<forall>r \<in> set (requirements m). fits r"
  shows "batch_member words look member choice (at, acc) =
    Some (resume (at + length (encode_member m)) (Inr (zip_into (OR) acc (member_bits look member choice m))))"
proof -
  have "counted_loop words (batch_requirement words look choice) (at, fill (- 1) member) =
      Some (resume (at + length (encode_list encode_run (requirements m)))
        (try_fold (\<lambda>r acc. Inr (zip_into (AND) acc (fold (or_bitmap look) r (fill 0 choice)))) (requirements m)
          (fill (- 1) member)))"
    using assms(2,3) take_run_encoded
    by (intro counted_encoded [OF assms(1) [unfolded encode_member_def]]) (auto simp: batch_requirement_def)
  then show ?thesis by (simp add: batch_member_def try_fold_Inr encode_member_def member_bits_def)
qed

definition narrow_bits :: "u64 list \<Rightarrow> u64 list \<Rightarrow> u64 list + u64 list" where
  "narrow_bits acc keep =
     (let acc' = zip_into (AND) acc keep in if any_nonzero (take (length keep) acc') then Inr acc' else Inl acc')"

lemma narrow_resume: "narrow at acc keep = resume at (narrow_bits acc keep)"
  by (simp add: narrow_def narrow_bits_def Let_def)

lemma batch_groups_encoded:
  assumes "drop at words = encode_list encode_group gs @ post" "fits gs" "\<forall>g \<in> set gs. sized_group g"
  shows "counted_loop words (batch_group words look grp member choice) (at, acc) =
    Some (resume (at + length (encode_list encode_group gs))
      (try_fold (\<lambda>g acc. narrow_bits acc (group_bits look grp member choice g)) gs acc))"
proof (rule counted_encoded [OF assms(1,2)])
  fix g at' st post'
  assume g: "g \<in> set gs" "drop at' words = encode_group g @ post'"
  have sized: "fits (members g)" "\<forall>m \<in> set (members g). fits (requirements m) \<and> (\<forall>r \<in> set (requirements m). fits r)"
    using assms(3) g(1) by (auto simp: sized_group_def)
  have "counted_loop words (batch_member words look member choice) (at', fill 0 grp) =
      Some (resume (at' + length (encode_list encode_member (members g)))
        (try_fold (\<lambda>m acc. Inr (zip_into (OR) acc (member_bits look member choice m))) (members g) (fill 0 grp)))"
    using sized batch_member_encoded by (intro counted_encoded [OF g(2) [unfolded encode_group_def]]) auto
  then show "batch_group words look grp member choice (at', st) =
      Some (resume (at' + length (encode_group g)) (narrow_bits st (group_bits look grp member choice g)))"
    by (simp add: batch_group_def try_fold_Inr narrow_resume encode_group_def group_bits_def)
qed

definition negative_bits :: "bitmap_lookup \<Rightarrow> u64 list \<Rightarrow> feature_id list \<Rightarrow> u64 list" where
  "negative_bits look member c = map NOT (and_bitmaps look c (fill (- 1) member))"

lemma batch_negatives_encoded:
  assumes "drop at words = encode_list encode_run cs @ post" "fits cs" "\<forall>c \<in> set cs. fits c"
  shows "counted_loop words (batch_negative words look member) (at, acc) =
    Some (resume (at + length (encode_list encode_run cs))
      (try_fold (\<lambda>c acc. narrow_bits acc (negative_bits look member c)) cs acc))"
  using assms(3) take_run_encoded
  by (intro counted_encoded [OF assms(1,2)]) (auto simp: batch_negative_def narrow_resume negative_bits_def)

lemma narrow_fold:
  assumes "length acc = n" "\<forall>x \<in> set xs. length (K x) = n"
  shows "\<exists>acc'. length acc' = n \<and> (\<forall>t. bit_at acc' t \<longleftrightarrow> bit_at acc t \<and> (\<forall>x \<in> set xs. bit_at (K x) t)) \<and>
    (try_fold (\<lambda>x acc. narrow_bits acc (K x)) xs acc = Inr acc' \<or>
     try_fold (\<lambda>x acc. narrow_bits acc (K x)) xs acc = Inl acc' \<and> (\<forall>t. \<not> bit_at acc' t))"
  using assms
proof (induction xs arbitrary: acc)
  case (Cons x xs)
  let ?acc = "zip_into (AND) acc (K x)"
  have len: "length ?acc = n" "length (K x) = length acc" using Cons.prems by simp_all
  have bits: "bit_at ?acc t \<longleftrightarrow> bit_at acc t \<and> bit_at (K x) t" for t using bit_at_zip_into(1) [OF len(2)] .
  show ?case
  proof (cases "any_nonzero ?acc")
    case True
    then have "narrow_bits acc (K x) = Inr ?acc" using len by (simp add: narrow_bits_def)
    then show ?thesis using Cons.IH [OF len(1)] Cons.prems bits by auto
  next
    case False
    then have "narrow_bits acc (K x) = Inl ?acc" using len by (simp add: narrow_bits_def)
    moreover have "\<forall>t. \<not> bit_at ?acc t" using False by (simp add: any_nonzero_iff)
    ultimately show ?thesis using len(1) bits by (intro exI [of _ ?acc]) auto
  qed
qed auto

lemma eval_program_eq:
  assumes "sized_program p"
  shows "eval_predicate_batch (encode_program p) look acc grp member choice =
    Some (case try_fold (\<lambda>g acc. narrow_bits acc (group_bits look grp member choice g)) (prog_groups p) acc of
        Inl acc' \<Rightarrow> acc'
      | Inr acc' \<Rightarrow> case_sum (\<lambda>a. a) (\<lambda>a. a)
          (try_fold (\<lambda>c acc. narrow_bits acc (negative_bits look member c)) (prog_negatives p) acc'))"
proof -
  let ?w = "encode_program p" and ?at = "Suc (length (encode_rank (prog_rank p)))"
  have d1: "drop ?at ?w = encode_list encode_group (prog_groups p) @
      (encode_list encode_run (prog_negatives p) @ encode_quoted (prog_phrases p))"
    using drop_body by (simp add: encode_body_def)
  note d2 = drop_advance [OF d1]
  have sizes: "fits (prog_groups p)" "\<forall>g \<in> set (prog_groups p). sized_group g" "fits (prog_negatives p)"
    "\<forall>c \<in> set (prog_negatives p). fits c" using assms by (auto simp: sized_program_def)
  have sum: "case_sum (\<lambda>acc. acc) snd (resume n r) = case_sum (\<lambda>a. a) (\<lambda>a. a) r" for n and r :: "u64 list + u64 list"
    by (cases r) simp_all
  have "?w \<noteq> []" "hd ?w = program_version p" by (simp_all add: encode_program_def)
  then show ?thesis
    using batch_groups_encoded [OF d1 sizes(1,2)] batch_negatives_encoded [OF d2 sizes(3,4)]
    by (simp add: eval_predicate_batch_def sum split: sum.split)
qed

lemma eval_program:
  assumes "sized_program p" "bitmaps_of_length n look" "length acc = n" "length grp = n" "length member = n" "length choice = n"
  shows "\<exists>acc'. eval_predicate_batch (encode_program p) look acc grp member choice = Some acc' \<and> length acc' = n \<and>
    (\<forall>t. bit_at acc' t \<longleftrightarrow> bit_at acc t \<and> groups_match (present look t) (prog_groups p) \<and>
      negatives_match (present look t) (prog_negatives p))"
proof -
  let ?G = "group_bits look grp member choice" and ?N = "negative_bits look member"
  note gb = group_bits_correct [OF assms(2,4,5,6)]
  have nb: "length (?N c) = n \<and> (bit_at (?N c) t \<longleftrightarrow> t div 64 < n \<and> \<not> list_all (present look t) c)" for c t
    using and_bitmaps_bits [of "fill (- 1) member" look c t] assms by (auto simp: negative_bits_def bit_at_NOT)
  have bound: "t div 64 < n" if "bit_at acc t" for t using that assms(3) by (simp add: bit_at_def)
  obtain a where a: "length a = n" "\<forall>t. bit_at a t \<longleftrightarrow> bit_at acc t \<and> (\<forall>g \<in> set (prog_groups p). bit_at (?G g) t)"
    "try_fold (\<lambda>g acc. narrow_bits acc (?G g)) (prog_groups p) acc = Inr a \<or>
     try_fold (\<lambda>g acc. narrow_bits acc (?G g)) (prog_groups p) acc = Inl a \<and> (\<forall>t. \<not> bit_at a t)"
    using narrow_fold [OF assms(3), of "prog_groups p" ?G] gb by blast
  have groups: "bit_at a t \<longleftrightarrow> bit_at acc t \<and> groups_match (present look t) (prog_groups p)" for t
    using a(2) gb bound [of t] by (auto simp: groups_match_def list_all_iff)
  obtain b where b: "length b = n" "\<forall>t. bit_at b t \<longleftrightarrow> bit_at a t \<and> (\<forall>c \<in> set (prog_negatives p). bit_at (?N c) t)"
    "try_fold (\<lambda>c acc. narrow_bits acc (?N c)) (prog_negatives p) a = Inr b \<or>
     try_fold (\<lambda>c acc. narrow_bits acc (?N c)) (prog_negatives p) a = Inl b \<and> (\<forall>t. \<not> bit_at b t)"
    using narrow_fold [OF a(1), of "prog_negatives p" ?N] nb by blast
  have negs: "bit_at b t \<longleftrightarrow> bit_at a t \<and> negatives_match (present look t) (prog_negatives p)" for t
    using b(2) nb bound [of t] groups [of t] by (auto simp: negatives_match_def list_ex_iff)
  show ?thesis using a(3)
  proof
    assume "try_fold (\<lambda>g acc. narrow_bits acc (?G g)) (prog_groups p) acc = Inr a"
    then have "eval_predicate_batch (encode_program p) look acc grp member choice = Some b"
      using eval_program_eq [OF assms(1)] b(3) by auto
    then show ?thesis using b(1) negs groups by auto
  next
    assume early: "try_fold (\<lambda>g acc. narrow_bits acc (?G g)) (prog_groups p) acc = Inl a \<and> (\<forall>t. \<not> bit_at a t)"
    then have "eval_predicate_batch (encode_program p) look acc grp member choice = Some a"
      using eval_program_eq [OF assms(1)] by simp
    then show ?thesis using a(1) early groups by auto
  qed
qed

section \<open>Properties\<close>

definition sample_compound :: extracted where
  "sample_compound = empty_extracted\<lparr>required := [5], anyof := [[1, 3]], semantic_anyof_groups := 1,
     semantic_anyof_terms := 1,
     anyof_predicates := [AnyOfPredicate [AnyOfMember [[1], [2]], AnyOfMember [[3]]]],
     forbidden_conjunctions := [[7, 8]]\<rparr>"

lemmas sample_compound_simps = sample_compound_def empty_extracted_def

lemma sample_compound_ok: "column_overflow sample_compound = None" "wf_extracted sample_compound"
  by (simp_all add: sample_compound_simps column_overflow_def program_words_def count_predicate_def count_member_def
      count_alternatives_def then_count_def guarded_def add_words_def usize_checked_add_def u16_ceiling_def
      u32_ceiling_def wf_extracted_def wf_member_req_def)

lemma sample_compound_program:
  "program_of sample_compound = \<lparr>prog_rank = Some (1, 1),
     prog_groups = [AnyOfPredicate [AnyOfMember [[1], [2]], AnyOfMember [[3]]]],
     prog_negatives = [[7, 8]], prog_phrases = None\<rparr>"
  by (simp add: program_of_def sample_compound_simps rank_groups_def rank_terms_def u32_of_len_def
      compound_extra_terms_def shortest_width_def saturating_sub_def saturating_add_def)

lemma sample_compound_words:
  "program_words_of sample_compound = [3, 1, 1, 1, 2, 2, 1, 1, 1, 2, 1, 1, 3, 1, 2, 7, 8]"
proof -
  have "needs_program sample_compound" by (simp add: needs_program_def sample_compound_simps)
  then show ?thesis
    by (simp add: program_words_of_def sample_compound_program encode_program_def encode_rank_def encode_body_def
        encode_list_def encode_group_def encode_member_def encode_run_def encode_quoted_def program_version_def
        version_defs)
qed

lemma sample_compound_valid:
  "valid_program (program_of sample_compound)" "length (encode_program (program_of sample_compound)) < 2 ^ 64"
proof -
  show "valid_program (program_of sample_compound)"
    by (simp add: sample_compound_program valid_program_def valid_group_def valid_member_def valid_run_def
        valid_negative_def valid_rank_def valid_quoted_def fits_def compound_extra_def group_extra_def
        saturating_add_def saturating_sub_def min_def)
  show "length (encode_program (program_of sample_compound)) < 2 ^ 64"
    using sample_compound_words by (simp add: program_words_of_def split: if_splits)
qed

lemma program_matches_of:
  assumes "view = view_dual_positioned probe pm pos pp pa pc nm neg np na Free"
  shows "program_matches (program_of ex) view \<longleftrightarrow>
    matches_positioned (ex\<lparr>required := [], forbidden := [], anyof := []\<rparr>) pos neg pp pa pc np na"
  by (auto simp: assms program_matches_def program_of_def view_dual_positioned_def groups_match_def
      negatives_match_def phrases_match_def member_matches_def [abs_def] phrase_answer_def
      matches_positioned_def matches_flat_features_def list_all_iff list_ex_iff)

lemma program_words_of_trivial:
  "\<not> needs_program ex \<Longrightarrow>
     matches_positioned (ex\<lparr>required := [], forbidden := [], anyof := []\<rparr>) pos neg pp pa pc np na"
  by (auto simp: needs_program_def matches_positioned_def matches_flat_features_def)

text \<open>
  C22: The program the compiler appends for a query is found again at the
  offset and length it returns, leaves the words before it alone, and its
  interpretation on a positioned title view never panics and decides exactly
  the compound any-of groups, the forbidden conjunctions and the quoted phrases
  of the query.
\<close>
theorem encode_predicate_correct:
  assumes "column_overflow ex = None" "wf_extracted ex"
    and "encode_predicate ex blob = ((off, len), blob')" "length blob' < 2 ^ 32"
  shows "\<exists>words. slice blob' (unat off) (unat len) = Some words \<and> take (length blob) blob' = blob \<and>
    verify_predicate words (view_dual_positioned probe pm pos pp pa pc nm neg np na Free) =
      Some (matches_positioned (ex\<lparr>required := [], forbidden := [], anyof := []\<rparr>) pos neg pp pa pc np na)"
proof -
  let ?words = "program_words_of ex"
  have eqs: "off = of_nat (length blob)" "len = of_nat (length ?words)" "blob' = blob @ ?words"
    using assms(3) by (simp_all add: encode_predicate_eq)
  then have "unat off = length blob" "unat len = length ?words"
    using assms(4) by (simp_all add: unat_of_nat take_bit_nat_eq_self)
  then have "slice blob' (unat off) (unat len) = Some ?words" by (simp add: eqs(3) slice_def)
  moreover have "verify_predicate ?words (view_dual_positioned probe pm pos pp pa pc nm neg np na Free) =
      Some (matches_positioned (ex\<lparr>required := [], forbidden := [], anyof := []\<rparr>) pos neg pp pa pc np na)"
  proof (cases "needs_program ex")
    case True
    then show ?thesis
      using verify_program [OF usable_program_of [OF assms(1,2)]] program_matches_of [OF refl]
      by (simp add: program_words_of_def)
  next
    case False
    then show ?thesis using program_words_of_trivial by (simp add: program_words_of_def verify_predicate_def)
  qed
  ultimately show ?thesis by (intro exI [of _ ?words]) (simp add: eqs(3))
qed

theorem encode_predicate_correct_witness:
  "\<exists>words. slice (snd (encode_predicate sample_compound [9])) 1 17 = Some words \<and>
     verify_predicate words (view_dual_positioned [1, 2] 0 [1, 2] 0 [] True 0 [1, 2] 0 [] Free) = Some True"
proof -
  have "encode_predicate sample_compound [9] =
      ((1, 17), 9 # [3, 1, 1, 1, 2, 2, 1, 1, 1, 2, 1, 1, 3, 1, 2, 7, 8])"
    by (simp add: encode_predicate_eq sample_compound_words)
  note found = encode_predicate_correct [OF sample_compound_ok this, of "[1, 2]" 0 "[1, 2]" 0 "[]" True 0 "[1, 2]" 0 "[]"]
  have "matches_positioned (sample_compound\<lparr>required := [], forbidden := [], anyof := []\<rparr>) [1, 2] [1, 2] 0 [] True 0 []"
    by (simp add: sample_compound_simps matches_positioned_def matches_flat_features_def search_ok_iff)
  then show ?thesis using found by (simp add: encode_predicate_eq sample_compound_words)
qed

text \<open>
  C23: The validator returns on every input, and it accepts a non-empty program
  exactly when it is the encoding of a valid one: known version, consistent
  ranking words, no empty group, member, requirement or label list, canonical
  phrase graphs with a path from position 0 to the last one, nothing left over.
\<close>
theorem validate_predicate_exact:
  assumes "length words < 2 ^ 64"
  shows "validate_predicate words \<noteq> None \<and>
    (validate_predicate words = Some (Inr ()) \<longleftrightarrow> words = [] \<or> (\<exists>p. valid_program p \<and> words = encode_program p))"
proof -
  have "validate_predicate words \<noteq> None" using validate_total by (simp add: returns_def)
  moreover have "validate_predicate [] = Some (Inr ())" by (simp add: validate_predicate_def)
  ultimately show ?thesis using validate_complete [OF assms] validate_sound assms by blast
qed

theorem validate_predicate_exact_witness:
  "validate_predicate (encode_program (program_of sample_compound)) = Some (Inr ())"
  using validate_predicate_exact [OF sample_compound_valid(2)] sample_compound_valid(1) by blast

lemma valid_usable:
  assumes "valid_program p"
  shows "usable_program p"
proof -
  have "sized_group g" if "valid_group g" for g
    using that by (auto simp: sized_group_def valid_group_def valid_member_def valid_run_def)
  moreover have "sized_phrase q \<and> positions q \<noteq> 0 \<and> arcs q \<noteq> []" if "valid_phrase q" for q
    using that by (auto simp: sized_phrase_def valid_phrase_def)
  ultimately show ?thesis using assms
    by (auto simp: usable_program_def sized_program_def valid_program_def valid_negative_def usable_phrases_def
        sized_phrases_def valid_quoted_def split: option.splits)
qed

lemma validated_cases:
  assumes "length words < 2 ^ 64" "validate_predicate words = Some (Inr ())"
  obtains "words = []" | p where "usable_program p" "words = encode_program p"
  using validate_complete [OF assms(1) _ assms(2)] valid_usable by blast

text \<open>The boolean part of a program, as a program of its own.\<close>

definition boolean_words :: "u32 \<times> u32 list \<Rightarrow> u32 list" where
  "boolean_words b = (if b = (0, []) then [] else fst b # snd b)"

lemma unranked_program:
  "encode_program (p\<lparr>prog_rank := None\<rparr>) =
     (if prog_phrases p = None then FEATURE_PROGRAM_VERSION else PHRASE_PROGRAM_VERSION) # encode_body p"
  by (simp add: encode_program_def encode_rank_def encode_body_def program_version_def split: option.split)

lemma boolean_program_encoded:
  "predicate_boolean_program (encode_program p) =
     Some (let v = (if prog_phrases p = None then FEATURE_PROGRAM_VERSION else PHRASE_PROGRAM_VERSION)
       in if v = FEATURE_PROGRAM_VERSION \<and> encode_body p = [0, 0] \<or>
             v = PHRASE_PROGRAM_VERSION \<and> encode_body p = [0, 0, 0, 0]
          then (0, []) else (v, encode_body p))"
  by (auto simp: encode_program_def encode_rank_def program_version_def version_defs slice_def split: option.split)

lemma concat_encode_Nil: "fits xs \<Longrightarrow> encode_list enc xs @ rest = 0 # ws \<Longrightarrow> xs = []"
  using of_nat_fits_zero [of xs] by (simp add: encode_list_def)

lemma trivial_body_parts:
  assumes "sized_program p" "prog_phrases p = None \<and> encode_body p = [0, 0] \<or>
      prog_phrases p \<noteq> None \<and> encode_body p = [0, 0, 0, 0]"
  shows "prog_groups p = []" "prog_negatives p = []" "prog_phrases p = Some (req, forb) \<Longrightarrow> req = [] \<and> forb = []"
proof -
  have fits: "fits (prog_groups p)" "fits (prog_negatives p)" using assms(1) by (auto simp: sized_program_def)
  have g: "prog_groups p = []" using assms(2) concat_encode_Nil [OF fits(1)] by (auto simp: encode_body_def)
  have n: "prog_negatives p = []"
    using assms(2) concat_encode_Nil [OF fits(2)] by (auto simp: encode_body_def g encode_list_def)
  show "req = [] \<and> forb = []" if q: "prog_phrases p = Some (req, forb)"
  proof -
    have fq: "fits req" "fits forb" using assms(1) q by (auto simp: sized_program_def sized_phrases_def)
    have body: "encode_phrases req @ encode_phrases forb = [0, 0]"
      using assms(2) q by (simp add: encode_body_def g n encode_list_def encode_quoted_def)
    then have "req = []" using concat_encode_Nil [OF fq(1)] by (auto simp: encode_phrases_def)
    moreover from this have "encode_list encode_phrase forb @ [] = [0]"
      using body by (simp add: encode_phrases_def encode_list_def)
    ultimately show ?thesis using concat_encode_Nil [OF fq(2)] by blast
  qed
  show "prog_groups p = []" "prog_negatives p = []" by (fact g n)+
qed

lemma trivial_body:
  assumes "sized_program p" "prog_phrases p = None \<and> encode_body p = [0, 0] \<or>
      prog_phrases p \<noteq> None \<and> encode_body p = [0, 0, 0, 0]"
  shows "program_matches p view"
  using trivial_body_parts [OF assms]
  by (auto simp: program_matches_def groups_match_def negatives_match_def phrases_match_def split: option.split
      scratch_cell.split)

lemma verify_boolean_program:
  assumes "usable_program p"
  shows "\<exists>b. predicate_boolean_program (encode_program p) = Some b \<and>
    verify_predicate (boolean_words b) view = verify_predicate (encode_program p) view"
proof -
  have usable: "usable_program (p\<lparr>prog_rank := None\<rparr>)" using assms by (simp add: usable_program_def sized_program_def)
  have same: "verify_predicate (encode_program (p\<lparr>prog_rank := None\<rparr>)) view = Some (program_matches p view)"
    using verify_program [OF usable] by (simp add: program_matches_def)
  have sized: "sized_program p" using assms by (simp add: usable_program_def)
  have triv: "verify_predicate [] view = Some (program_matches p view)"
    if "prog_phrases p = None \<and> encode_body p = [0, 0] \<or> prog_phrases p \<noteq> None \<and> encode_body p = [0, 0, 0, 0]"
    using trivial_body [OF sized that] by (simp add: verify_predicate_def)
  show ?thesis unfolding boolean_program_encoded
    using same triv verify_program [OF assms, of view]
    by (auto simp: Let_def boolean_words_def unranked_program version_defs split: if_splits)
qed

lemma validated_boolean:
  assumes "length w < 2 ^ 64" "validate_predicate w = Some (Inr ())"
  shows "\<exists>b. predicate_boolean_program w = Some b \<and> verify_predicate (boolean_words b) view = verify_predicate w view"
  using assms
proof (rule validated_cases)
  assume "w = []"
  then show ?thesis by (simp add: boolean_words_def)
next
  fix p
  assume "usable_program p" "w = encode_program p"
  then show ?thesis using verify_boolean_program by blast
qed

definition sample_negative :: "(u32 \<times> u32) option \<Rightarrow> program" where
  "sample_negative rank = \<lparr>prog_rank = rank, prog_groups = [], prog_negatives = [[7, 8]], prog_phrases = None\<rparr>"

lemma sample_negative_words:
  "encode_program (sample_negative None) = [1, 0, 1, 2, 7, 8]"
  "encode_program (sample_negative (Some (4, 9))) = [3, 4, 9, 0, 1, 2, 7, 8]"
  by (simp_all add: sample_negative_def encode_program_def encode_rank_def encode_body_def encode_list_def
      encode_run_def encode_quoted_def program_version_def version_defs)

lemma sample_negative_valid:
  "validate_predicate [1, 0, 1, 2, 7, 8] = Some (Inr ())"
  "validate_predicate [3, 4, 9, 0, 1, 2, 7, 8] = Some (Inr ())"
  using validate_sound [of "sample_negative None"] validate_sound [of "sample_negative (Some (4, 9))"]
  unfolding sample_negative_words
  by (simp_all add: sample_negative_def valid_program_def valid_negative_def valid_rank_def valid_quoted_def fits_def
      compound_extra_def)

text \<open>
  C24: A program that passed the validator never makes a later walk panic: the
  scalar interpreter (on any title view), the columnar interpreter (on any
  bitmaps), the ranking walk and the extraction of the boolean part all return.
\<close>
theorem validated_program_safe:
  assumes "length words < 2 ^ 64" "validate_predicate words = Some (Inr ())"
  shows "verify_predicate words view \<noteq> None \<and>
    eval_predicate_batch words look acc grp member choice \<noteq> None \<and>
    predicate_rank_term_counts words proxies \<noteq> None \<and> predicate_boolean_program words \<noteq> None"
  using assms
proof (rule validated_cases)
  fix p
  assume p: "usable_program p" "words = encode_program p"
  then have "sized_program p" by (simp add: usable_program_def)
  then show ?thesis
    using p verify_program [OF p(1)] eval_program_eq rank_program boolean_program_encoded by simp
qed (simp add: verify_predicate_def eval_predicate_batch_def predicate_rank_term_counts_def)

theorem validated_program_safe_witness:
  "verify_predicate [1, 0, 1, 2, 7, 8] (view_single 0 [7]) \<noteq> None"
  using validated_program_safe [OF _ sample_negative_valid(1)] by simp

text \<open>
  The two ranking words never influence matching: the boolean part of a
  validated program, which the body deduplication compares, gives the same
  answer on every title view, so rows with equal boolean parts match alike.
\<close>
theorem ranking_words_do_not_match:
  assumes "length w1 < 2 ^ 64" "validate_predicate w1 = Some (Inr ())"
    and "length w2 < 2 ^ 64" "validate_predicate w2 = Some (Inr ())"
    and "predicate_boolean_program w1 = predicate_boolean_program w2"
  shows "verify_predicate w1 view = verify_predicate w2 view"
  using validated_boolean [OF assms(1,2), of view] validated_boolean [OF assms(3,4), of view] assms(5) by auto

theorem ranking_words_do_not_match_witness:
  "verify_predicate [3, 4, 9, 0, 1, 2, 7, 8] (view_single 0 [7, 8]) = verify_predicate [1, 0, 1, 2, 7, 8] (view_single 0 [7, 8])"
proof (rule ranking_words_do_not_match)
  show "predicate_boolean_program [3, 4, 9, 0, 1, 2, 7, 8] = predicate_boolean_program [1, 0, 1, 2, 7, 8]"
    by (simp add: version_defs slice_def)
qed (simp_all add: sample_negative_valid)

text \<open>
  C25: The columnar interpreter is the bit-parallel transpose of the scalar one:
  a title of the batch keeps its bit exactly when it had it and the scalar
  interpreter accepts the program on that title's features.
\<close>
theorem eval_predicate_batch_transposes:
  assumes "length words < 2 ^ 64" "validate_predicate words = Some (Inr ())"
    and "bitmaps_of_length n look" "length acc = n" "length grp = n" "length member = n" "length choice = n"
    and "\<forall>t. bit_at acc t \<longrightarrow> (\<forall>f. present look t f \<longleftrightarrow> search_ok (feats t) f)"
  shows "\<exists>acc'. eval_predicate_batch words look acc grp member choice = Some acc' \<and> length acc' = n \<and>
    (\<forall>t. bit_at acc' t \<longleftrightarrow> bit_at acc t \<and> verify_predicate words (view_single m (feats t)) = Some True)"
  using assms(1,2)
proof (rule validated_cases)
  assume "words = []"
  then show ?thesis using assms(4) by (simp add: verify_predicate_def eval_predicate_batch_def)
next
  fix p
  assume p: "usable_program p" "words = encode_program p"
  have "present look t = search_ok (feats t)" if "bit_at acc t" for t using assms(8) that by blast
  moreover have "sized_program p" using p(1) by (simp add: usable_program_def)
  moreover have "program_matches p (view_single m (feats t)) \<longleftrightarrow>
      groups_match (search_ok (feats t)) (prog_groups p) \<and> negatives_match (search_ok (feats t)) (prog_negatives p)" for t
    by (auto simp: program_matches_def view_single_def phrases_match_def split: option.split)
  ultimately show ?thesis
    using eval_program [OF _ assms(3-7), of p] p(2) verify_program [OF p(1)] by auto
qed

theorem eval_predicate_batch_transposes_witness:
  "\<exists>acc'. eval_predicate_batch [1, 0, 1, 2, 7, 8] (\<lambda>f. if f = 7 then Some [1] else if f = 8 then Some [1] else None)
      [1] [0] [0] [0] = Some acc' \<and> \<not> bit_at acc' 0"
proof -
  let ?look = "\<lambda>f :: u32. if f = 7 then Some [1 :: u64] else if f = 8 then Some [1] else None"
  have one: "bit_at [1] t \<longleftrightarrow> t = 0" for t
    by (cases "t div 64 = 0") (auto simp: bit_at_def bit_1_iff)
  have "\<forall>t. bit_at [1] t \<longrightarrow> (\<forall>f. present ?look t f \<longleftrightarrow> search_ok [7, 8] f)"
    by (auto simp: one present_def search_ok_iff)
  moreover have "bitmaps_of_length 1 ?look" by (auto simp: bitmaps_of_length_def split: if_splits)
  ultimately have "\<exists>acc'. eval_predicate_batch [1, 0, 1, 2, 7, 8] ?look [1] [0] [0] [0] = Some acc' \<and> length acc' = 1 \<and>
      (\<forall>t. bit_at acc' t \<longleftrightarrow> bit_at [1] t \<and> verify_predicate [1, 0, 1, 2, 7, 8] (view_single 0 [7, 8]) = Some True)"
    by (intro eval_predicate_batch_transposes sample_negative_valid(1)) simp_all
  moreover have "verify_predicate [1, 0, 1, 2, 7, 8] (view_single 0 [7, 8]) = Some False"
    using verify_program [of "sample_negative None" "view_single 0 [7, 8]"] unfolding sample_negative_words
    by (simp add: sample_negative_def usable_program_def sized_program_def fits_def program_matches_def
        groups_match_def negatives_match_def view_single_def search_ok_iff)
  ultimately show ?thesis by auto
qed

text \<open>
  The ranking walk recovers the counts the compiler computed, whether or
  not the query needed a program: the semantic any-of groups and terms, plus
  the positions of required phrases, and the features of forbidden
  conjunctions plus the positions of forbidden phrases.
\<close>
theorem rank_counts_recovered:
  assumes "column_overflow ex = None"
  shows "predicate_rank_term_counts (program_words_of ex) (u32_of_len (length (anyof ex))) =
    Some (saturating_add (rank_terms ex) (sum_terms positions (required_phrases ex) 0),
      sum_terms positions (forbidden_phrases ex) (sum_terms (\<lambda>c. of_nat (length c)) (forbidden_conjunctions ex) 0),
      rank_groups ex)"
proof (cases "needs_program ex")
  case True
  have "sized_program (program_of ex)" using column_overflow_sized [OF assms] by blast
  from rank_program [OF this] True show ?thesis
    by (auto simp: program_words_of_def program_rank_def quoted_terms_def negative_terms_def program_of_def Let_def
        sum_terms_def)
next
  case False
  then show ?thesis
    by (simp add: program_words_of_def needs_program_def predicate_rank_term_counts_def sum_terms_def)
qed

theorem rank_counts_recovered_witness:
  "predicate_rank_term_counts (program_words_of sample_compound) 1 = Some (1, 2, 1)"
proof -
  have "rank_terms sample_compound = 1" "rank_groups sample_compound = 1" "u32_of_len (length (anyof sample_compound)) = 1"
    using sample_compound_program by (simp_all add: program_of_def sample_compound_simps u32_of_len_def)
  then show ?thesis
    using rank_counts_recovered [OF sample_compound_ok(1)]
    by (simp add: sample_compound_simps sum_terms_def saturating_add_def)
qed

text \<open>
  C26: The word count of the column guard is two short of the program that the
  encoder writes: it leaves out the two ranking words of program versions 3 and
  4. Every other count it takes bounds the corresponding list of the program.
\<close>
theorem column_guard_short_by_two:
  assumes "program_words ex = Inr w" "needs_program ex"
  shows "length (snd (encode_predicate ex blob)) = length blob + w + 2"
  using program_words_Inr [OF assms(1)] assms(2) by (simp add: encode_predicate_eq program_words_of_def)

theorem column_guard_short_by_two_witness:
  "length (snd (encode_predicate sample_compound [])) = 0 + 15 + 2"
proof -
  have "program_words sample_compound = Inr 15"
    by (simp add: sample_compound_simps program_words_def count_predicate_def count_member_def
      count_alternatives_def then_count_def guarded_def add_words_def usize_checked_add_def u32_ceiling_def)
  moreover have "needs_program sample_compound" by (simp add: needs_program_def sample_compound_simps)
  ultimately show ?thesis using column_guard_short_by_two [of _ _ "[]"] by simp
qed

end
