(* ===== verification/Ownership.thy ===== *)
theory Ownership
  imports Prelude
begin

text \<open>
  Distributed emission ownership (\<open>ownership.rs\<close>): how a row is placed across
  the shards of a cluster, which of the shards a request is routed to may emit
  it, and the validation of both kinds of metadata. The contract towards the
  matcher is the locale \<open>exclusive_emission\<close>: no two shards emit the same row.
\<close>

section \<open>Placement\<close>

type_synonym placement_generation = u64

definition GENERATION_STANDALONE :: placement_generation where
  "GENERATION_STANDALONE = 0"

definition GENERATION_INITIAL :: placement_generation where
  "GENERATION_INITIAL = 1"

definition generation_next :: "placement_generation \<Rightarrow> placement_generation option" where
  "generation_next g = (if unat g + 1 < 2 ^ 64 then Some (g + 1) else None)"

datatype placement_mode = Standalone | Selective | ReplicatedAlwaysVisible | ReplicatedBroad

fun mode_byte :: "placement_mode \<Rightarrow> u8" where
  "mode_byte Standalone = 0"
| "mode_byte Selective = 1"
| "mode_byte ReplicatedAlwaysVisible = 2"
| "mode_byte ReplicatedBroad = 3"

datatype ownership_error =
    UnknownMode u8
  | InvalidStandalone
  | MissingGeneration
  | EmptyShardSpace
  | EmptySelectivePlacement
  | PositionsNotStrictlySorted
  | RouteNotStrictlySorted
  | UnexpectedReplicatedPositions
  | PositionOutOfRange u32 u32
  | LocalPositionMissing u32
  | BroadEvaluatorNotRouted u32
  | EmptyRoute
  | PlacementDecisionMismatch
  | GenerationMismatch placement_generation placement_generation
  | ShardCountMismatch u32 u32

fun is_replicated :: "placement_mode \<Rightarrow> bool" where
  "is_replicated ReplicatedAlwaysVisible \<longleftrightarrow> True"
| "is_replicated ReplicatedBroad \<longleftrightarrow> True"
| "is_replicated _ \<longleftrightarrow> False"

definition mode_from_byte :: "u8 \<Rightarrow> ownership_error + placement_mode" where
  "mode_from_byte b =
     (if b = 0 then Inr Standalone else if b = 1 then Inr Selective
      else if b = 2 then Inr ReplicatedAlwaysVisible else if b = 3 then Inr ReplicatedBroad
      else Inl (UnknownMode b))"

record query_placement =
  placed_generation :: placement_generation
  placed_shards :: u32
  placed_mode :: placement_mode
  placed_positions :: "u32 list"

definition placement_standalone :: query_placement where
  "placement_standalone =
     \<lparr>placed_generation = GENERATION_STANDALONE, placed_shards = 0, placed_mode = Standalone, placed_positions = []\<rparr>"

text \<open>The walk shared by both validators: every position in range, each above the one before.\<close>

fun check_ascending :: "ownership_error \<Rightarrow> u32 \<Rightarrow> u32 option \<Rightarrow> u32 list \<Rightarrow> ownership_error + unit" where
  "check_ascending err shards previous [] = Inr ()"
| "check_ascending err shards previous (p # ps) =
     (if p \<ge> shards then Inl (PositionOutOfRange p shards)
      else if (case previous of None \<Rightarrow> False | Some q \<Rightarrow> q \<ge> p) then Inl err
      else check_ascending err shards (Some p) ps)"

definition placement_validate :: "query_placement \<Rightarrow> ownership_error + unit" where
  "placement_validate pl =
     (if placed_mode pl = Standalone
      then if placed_generation pl \<noteq> GENERATION_STANDALONE \<or> placed_shards pl \<noteq> 0 \<or> placed_positions pl \<noteq> []
           then Inl InvalidStandalone else Inr ()
      else if placed_generation pl = GENERATION_STANDALONE then Inl MissingGeneration
      else if placed_shards pl = 0 then Inl EmptyShardSpace
      else (case placed_mode pl of
          Selective \<Rightarrow>
            if placed_positions pl = [] then Inl EmptySelectivePlacement
            else check_ascending PositionsNotStrictlySorted (placed_shards pl) None (placed_positions pl)
        | Standalone \<Rightarrow> Inl InvalidStandalone
        | _ \<Rightarrow> if placed_positions pl \<noteq> [] then Inl UnexpectedReplicatedPositions else Inr ()))"

definition validated :: "query_placement \<Rightarrow> ownership_error + query_placement" where
  "validated pl = (case placement_validate pl of Inl e \<Rightarrow> Inl e | Inr _ \<Rightarrow> Inr pl)"

definition placement_selective ::
  "placement_generation \<Rightarrow> u32 \<Rightarrow> u32 list \<Rightarrow> ownership_error + query_placement" where
  "placement_selective g shards ps =
     validated \<lparr>placed_generation = g, placed_shards = shards, placed_mode = Selective, placed_positions = sort_dedup ps\<rparr>"

definition placement_replicated ::
  "placement_generation \<Rightarrow> u32 \<Rightarrow> placement_mode \<Rightarrow> ownership_error + query_placement" where
  "placement_replicated g shards mode =
     validated \<lparr>placed_generation = g, placed_shards = shards, placed_mode = mode, placed_positions = []\<rparr>"

definition placement_replicated_always_visible ::
  "placement_generation \<Rightarrow> u32 \<Rightarrow> ownership_error + query_placement" where
  "placement_replicated_always_visible g shards = placement_replicated g shards ReplicatedAlwaysVisible"

definition placement_replicated_broad ::
  "placement_generation \<Rightarrow> u32 \<Rightarrow> ownership_error + query_placement" where
  "placement_replicated_broad g shards = placement_replicated g shards ReplicatedBroad"

definition placement_from_raw ::
  "placement_generation \<Rightarrow> u32 \<Rightarrow> u8 \<Rightarrow> u32 list \<Rightarrow> ownership_error + query_placement" where
  "placement_from_raw g shards b ps =
     (case mode_from_byte b of
        Inl e \<Rightarrow> Inl e
      | Inr mode \<Rightarrow>
          validated \<lparr>placed_generation = g, placed_shards = shards, placed_mode = mode, placed_positions = ps\<rparr>)"

definition validate_for_shard ::
  "query_placement \<Rightarrow> u32 \<Rightarrow> placement_generation \<Rightarrow> u32 \<Rightarrow> ownership_error + unit" where
  "validate_for_shard pl position g shards =
     (case placement_validate pl of
        Inl e \<Rightarrow> Inl e
      | Inr _ \<Rightarrow>
          if placed_generation pl \<noteq> g then Inl (GenerationMismatch g (placed_generation pl))
          else if placed_shards pl \<noteq> shards then Inl (ShardCountMismatch shards (placed_shards pl))
          else if position \<ge> shards then Inl (PositionOutOfRange position shards)
          else if placed_mode pl = Selective \<and> \<not> search_ok (placed_positions pl) position
          then Inl (LocalPositionMissing position)
          else Inr ())"

text \<open>\<open>QueryPlacementRef\<close> borrows the same four fields, so a view of a row is the placement itself.\<close>

definition placement_matches :: "query_placement \<Rightarrow> query_placement \<Rightarrow> bool" where
  "placement_matches r pl \<longleftrightarrow> placed_generation r = placed_generation pl \<and> placed_shards r = placed_shards pl \<and>
     placed_mode r = placed_mode pl \<and> placed_positions r = placed_positions pl"

section \<open>Routing\<close>

record ownership_context =
  ctx_generation :: placement_generation
  ctx_shards :: u32
  routed_positions :: "u32 list"
  broad_evaluator :: "u32 option"

definition context_validate :: "ownership_context \<Rightarrow> ownership_error + unit" where
  "context_validate ctx =
     (if ctx_generation ctx = GENERATION_STANDALONE then Inl MissingGeneration
      else if ctx_shards ctx = 0 then Inl EmptyShardSpace
      else if routed_positions ctx = [] then Inl EmptyRoute
      else case check_ascending RouteNotStrictlySorted (ctx_shards ctx) None (routed_positions ctx) of
          Inl e \<Rightarrow> Inl e
        | Inr _ \<Rightarrow> (case broad_evaluator ctx of
              None \<Rightarrow> Inr ()
            | Some p \<Rightarrow> if search_ok (routed_positions ctx) p then Inr () else Inl (BroadEvaluatorNotRouted p)))"

definition context_new ::
  "placement_generation \<Rightarrow> u32 \<Rightarrow> u32 list \<Rightarrow> u32 option \<Rightarrow> ownership_error + ownership_context" where
  "context_new g shards route broad =
     (let ctx = \<lparr>ctx_generation = g, ctx_shards = shards, routed_positions = route, broad_evaluator = broad\<rparr>
      in case context_validate ctx of Inl e \<Rightarrow> Inl e | Inr _ \<Rightarrow> Inr ctx)"

definition require_routed :: "ownership_context \<Rightarrow> u32 \<Rightarrow> ownership_error + unit" where
  "require_routed ctx p =
     (if p \<ge> ctx_shards ctx \<or> \<not> search_ok (routed_positions ctx) p then Inl (LocalPositionMissing p) else Inr ())"

text \<open>The two-pointer walk over two ascending lists.\<close>

fun first_common :: "u32 list \<Rightarrow> u32 list \<Rightarrow> u32 option" where
  "first_common (p # ps) (r # rs) =
     (if p < r then first_common ps (r # rs) else if r < p then first_common (p # ps) rs else Some p)"
| "first_common _ _ = None"

definition owner :: "ownership_context \<Rightarrow> query_placement \<Rightarrow> u32 option" where
  "owner ctx pl =
     (if placed_generation pl \<noteq> ctx_generation ctx \<or> placed_shards pl \<noteq> ctx_shards ctx then None
      else (case placed_mode pl of
          Standalone \<Rightarrow> None
        | Selective \<Rightarrow> first_common (placed_positions pl) (routed_positions ctx)
        | ReplicatedAlwaysVisible \<Rightarrow> (case routed_positions ctx of [] \<Rightarrow> None | r # _ \<Rightarrow> Some r)
        | ReplicatedBroad \<Rightarrow> broad_evaluator ctx))"

text \<open>The emission policies: standalone reads emit every match, cluster reads the owned ones.\<close>

datatype emission_policy = EmitAll | UniqueOwner ownership_context u32

fun should_emit :: "emission_policy \<Rightarrow> query_placement \<Rightarrow> bool" where
  "should_emit EmitAll pl \<longleftrightarrow> True"
| "should_emit (UniqueOwner ctx position) pl \<longleftrightarrow> owner ctx pl = Some position"

datatype batch_emission_policy = BatchEmitAll | PerTitleUniqueOwner "ownership_context list" u32

text \<open>\<open>None\<close>: a title index outside the contexts of the batch.\<close>

fun title_policy :: "batch_emission_policy \<Rightarrow> nat \<Rightarrow> emission_policy option" where
  "title_policy BatchEmitAll t = Some EmitAll"
| "title_policy (PerTitleUniqueOwner ctxs position) t =
     map_option (\<lambda>ctx. UniqueOwner ctx position) (at_index ctxs t)"

fun batch_should_emit :: "batch_emission_policy \<Rightarrow> nat \<Rightarrow> query_placement \<Rightarrow> bool option" where
  "batch_should_emit BatchEmitAll t pl = Some True"
| "batch_should_emit (PerTitleUniqueOwner ctxs position) t pl =
     map_option (\<lambda>ctx. owner ctx pl = Some position) (at_index ctxs t)"

section \<open>Validation\<close>

lemma check_ascending_ok:
  "check_ascending err shards previous ps = Inr () \<longleftrightarrow>
     strict_sorted ps \<and> (\<forall>p \<in> set ps. p < shards) \<and> (\<forall>q p. previous = Some q \<longrightarrow> p \<in> set ps \<longrightarrow> q < p)"
  by (induction err shards previous ps rule: check_ascending.induct)
     (auto simp: not_le split: option.splits intro: less_trans)

definition placement_ok :: "query_placement \<Rightarrow> bool" where
  "placement_ok pl \<longleftrightarrow>
     (case placed_mode pl of
        Standalone \<Rightarrow> pl = placement_standalone
      | Selective \<Rightarrow> placed_generation pl \<noteq> 0 \<and> placed_positions pl \<noteq> [] \<and> strict_sorted (placed_positions pl) \<and>
          (\<forall>p \<in> set (placed_positions pl). p < placed_shards pl)
      | _ \<Rightarrow> placed_generation pl \<noteq> 0 \<and> placed_shards pl \<noteq> 0 \<and> placed_positions pl = [])"

lemma placement_validate_ok: "placement_validate pl = Inr () \<longleftrightarrow> placement_ok pl"
proof (cases "placed_mode pl")
  case Selective
  have "placed_shards pl \<noteq> 0" if "p \<in> set (placed_positions pl)" "p < placed_shards pl" for p
    using that by auto
  then show ?thesis using Selective
    by (auto simp: placement_validate_def placement_ok_def check_ascending_ok GENERATION_STANDALONE_def neq_Nil_conv)
qed (auto simp: placement_validate_def placement_ok_def placement_standalone_def GENERATION_STANDALONE_def)

definition context_ok :: "ownership_context \<Rightarrow> bool" where
  "context_ok ctx \<longleftrightarrow> ctx_generation ctx \<noteq> 0 \<and> routed_positions ctx \<noteq> [] \<and> strict_sorted (routed_positions ctx) \<and>
     (\<forall>p \<in> set (routed_positions ctx). p < ctx_shards ctx) \<and>
     (\<forall>p. broad_evaluator ctx = Some p \<longrightarrow> p \<in> set (routed_positions ctx))"

lemma context_validate_ok: "context_validate ctx = Inr () \<longleftrightarrow> context_ok ctx"
proof -
  define c where "c = check_ascending RouteNotStrictlySorted (ctx_shards ctx) None (routed_positions ctx)"
  have c: "c = Inr () \<longleftrightarrow> strict_sorted (routed_positions ctx) \<and> (\<forall>p \<in> set (routed_positions ctx). p < ctx_shards ctx)"
    by (simp add: c_def check_ascending_ok)
  have shards: "ctx_shards ctx \<noteq> 0" if "\<forall>p \<in> set (routed_positions ctx). p < ctx_shards ctx" "routed_positions ctx \<noteq> []"
    using that by (cases "routed_positions ctx") auto
  have "context_validate ctx = Inr () \<longleftrightarrow> ctx_generation ctx \<noteq> 0 \<and> ctx_shards ctx \<noteq> 0 \<and> routed_positions ctx \<noteq> [] \<and>
      c = Inr () \<and> (\<forall>p. broad_evaluator ctx = Some p \<longrightarrow> search_ok (routed_positions ctx) p)"
    by (auto simp: context_validate_def GENERATION_STANDALONE_def c_def [symmetric] split: sum.split option.split)
  then show ?thesis
    unfolding c context_ok_def using shards search_ok_iff strict_sorted_sorted by blast
qed

section \<open>Ownership\<close>

lemma first_common_Some:
  assumes "strict_sorted ps" "strict_sorted rs"
  shows "first_common ps rs = Some x \<longleftrightarrow>
    x \<in> set ps \<inter> set rs \<and> (\<forall>y \<in> set ps \<inter> set rs. x \<le> y)"
  using assms
proof (induction ps rs rule: first_common.induct)
  case (1 p ps r rs)
  consider "p < r" | "r < p" | "p = r" by fastforce
  then show ?case
  proof cases
    case 1
    then have "p \<notin> set (r # rs)" using "1.prems" by auto
    then show ?thesis using 1 "1.IH"(1) "1.prems" by auto
  next
    case 2
    then have "r \<notin> set (p # ps)" using "1.prems" by auto
    then show ?thesis using 2 "1.IH"(2) "1.prems" by auto
  next
    case 3
    then show ?thesis using "1.prems" by (auto intro: less_imp_le antisym)
  qed
qed auto

lemma first_common_None:
  assumes "strict_sorted ps" "strict_sorted rs"
  shows "first_common ps rs = None \<longleftrightarrow> set ps \<inter> set rs = {}"
proof
  assume none: "first_common ps rs = None"
  show "set ps \<inter> set rs = {}"
  proof (rule ccontr)
    assume ne: "set ps \<inter> set rs \<noteq> {}"
    then have "first_common ps rs = Some (Min (set ps \<inter> set rs))"
      unfolding first_common_Some [OF assms] using Min_in [OF _ ne] by auto
    then show False using none by simp
  qed
qed (metis assms first_common_Some empty_iff option.exhaust)

locale exclusive_emission =
  fixes emits :: "u32 \<Rightarrow> 'row \<Rightarrow> bool"
  assumes exclusive: "emits p row \<Longrightarrow> emits q row \<Longrightarrow> p = q"
begin

text \<open>However often shards are asked, at most one distinct shard answers with the row.\<close>

lemma at_most_one: "distinct ps \<Longrightarrow> length (filter (\<lambda>p. emits p row) ps) \<le> 1"
proof (induction ps)
  case (Cons p ps)
  show ?case
  proof (cases "emits p row")
    case True
    then have "filter (\<lambda>q. emits q row) ps = []"
      using Cons.prems exclusive by (auto simp: filter_empty_conv)
    then show ?thesis using True by simp
  qed (use Cons in simp)
qed simp

lemma exactly_one: "distinct ps \<Longrightarrow> p \<in> set ps \<Longrightarrow> emits p row \<Longrightarrow> filter (\<lambda>p. emits p row) ps = [p]"
proof (induction ps)
  case (Cons x ps)
  show ?case
  proof (cases "x = p")
    case True
    then have "\<not> emits q row" if "q \<in> set ps" for q
      using that Cons.prems exclusive by (metis distinct.simps(2))
    then show ?thesis using True Cons.prems by simp
  next
    case False
    then have "\<not> emits x row" using exclusive Cons.prems(3) by blast
    then show ?thesis using False Cons by simp
  qed
qed simp

end

interpretation cluster: exclusive_emission "\<lambda>p. should_emit (UniqueOwner ctx p)" for ctx
  by unfold_locales simp

lemma owner_routed:
  assumes "context_ok ctx" "placement_ok pl" "owner ctx pl = Some p"
  shows "p \<in> set (routed_positions ctx) \<and> p < placed_shards pl \<and>
    (placed_mode pl = Selective \<longrightarrow> p \<in> set (placed_positions pl))"
  using assms first_common_Some [of "placed_positions pl" "routed_positions ctx" p]
  by (auto simp: owner_def context_ok_def placement_ok_def split: if_splits placement_mode.splits list.splits)

definition in_scope :: "ownership_context \<Rightarrow> query_placement \<Rightarrow> bool" where
  "in_scope ctx pl \<longleftrightarrow>
     (case placed_mode pl of
        Standalone \<Rightarrow> False
      | Selective \<Rightarrow> set (placed_positions pl) \<inter> set (routed_positions ctx) \<noteq> {}
      | ReplicatedAlwaysVisible \<Rightarrow> True
      | ReplicatedBroad \<Rightarrow> broad_evaluator ctx \<noteq> None)"

lemma owner_in_scope:
  assumes "context_ok ctx" "placement_ok pl" "placed_generation pl = ctx_generation ctx" "placed_shards pl = ctx_shards ctx"
  shows "owner ctx pl \<noteq> None \<longleftrightarrow> in_scope ctx pl"
  using assms first_common_None [of "placed_positions pl" "routed_positions ctx"]
  by (auto simp: owner_def in_scope_def context_ok_def placement_ok_def split: placement_mode.split list.split)

text \<open>
  C36: Under a valid routing context every validly placed row of the current
  placement is emitted by exactly one of the routed shards when the request
  covers it (a selective row needs a routed position of its own, a broad row a
  broad evaluator), by none otherwise, and the emitting shard is one the row is
  really stored on.
\<close>
theorem unique_owner:
  assumes "context_validate ctx = Inr ()" "placement_validate pl = Inr ()"
    and "placed_generation pl = ctx_generation ctx" "placed_shards pl = ctx_shards ctx"
  shows "length (filter (\<lambda>p. should_emit (UniqueOwner ctx p) pl) (routed_positions ctx)) =
      (if in_scope ctx pl then 1 else 0) \<and>
    (\<forall>p. should_emit (UniqueOwner ctx p) pl \<longrightarrow>
      p \<in> set (routed_positions ctx) \<and>
      validate_for_shard pl p (ctx_generation ctx) (ctx_shards ctx) = Inr ())"
proof -
  have ok: "context_ok ctx" "placement_ok pl"
    using assms(1,2) by (simp_all add: context_validate_ok placement_validate_ok)
  have routed: "p \<in> set (routed_positions ctx) \<and> p < placed_shards pl \<and>
      (placed_mode pl = Selective \<longrightarrow> p \<in> set (placed_positions pl))" if "should_emit (UniqueOwner ctx p) pl" for p
    using owner_routed [OF ok] that by simp
  have "distinct (routed_positions ctx)" using ok(1) strict_sorted_iff by (auto simp: context_ok_def)
  moreover have "\<exists>p. should_emit (UniqueOwner ctx p) pl" if "in_scope ctx pl"
    using owner_in_scope [OF ok assms(3,4)] that by auto
  moreover have "\<not> should_emit (UniqueOwner ctx p) pl" if "\<not> in_scope ctx pl" for p
    using owner_in_scope [OF ok assms(3,4)] that by auto
  ultimately have one: "length (filter (\<lambda>p. should_emit (UniqueOwner ctx p) pl) (routed_positions ctx)) =
      (if in_scope ctx pl then 1 else 0)"
    using cluster.exactly_one [of "routed_positions ctx" _ ctx pl] routed by auto
  have "search_ok (placed_positions pl) p" if "p \<in> set (placed_positions pl)" "placed_mode pl = Selective" for p
    using that ok(2) by (simp add: placement_ok_def search_ok_iff strict_sorted_sorted)
  then show ?thesis using one routed assms by (auto simp: validate_for_shard_def not_le)
qed

definition sample_context :: ownership_context where
  "sample_context = \<lparr>ctx_generation = 3, ctx_shards = 8, routed_positions = [1, 4, 6], broad_evaluator = Some 4\<rparr>"

definition sample_placement :: query_placement where
  "sample_placement = \<lparr>placed_generation = 3, placed_shards = 8, placed_mode = Selective, placed_positions = [0, 4, 6]\<rparr>"

theorem unique_owner_witness:
  "length (filter (\<lambda>p. should_emit (UniqueOwner sample_context p) sample_placement) [1, 4, 6]) = 1"
proof -
  have "context_validate sample_context = Inr ()" "placement_validate sample_placement = Inr ()"
    by (simp_all add: context_validate_ok context_ok_def placement_validate_ok placement_ok_def sample_context_def
        sample_placement_def)
  from unique_owner [OF this] show ?thesis
    by (simp add: sample_context_def sample_placement_def in_scope_def)
qed

text \<open>
  Placement metadata survives a transport or persistence round trip: what
  the raw constructor accepts it stores unchanged, it accepts every validated
  placement and nothing else, and the mode byte decodes to the mode it encodes.
\<close>
theorem placement_raw_roundtrip:
  "placement_from_raw (placed_generation pl) (placed_shards pl) (mode_byte (placed_mode pl)) (placed_positions pl) =
     (case placement_validate pl of Inl e \<Rightarrow> Inl e | Inr _ \<Rightarrow> Inr pl) \<and>
   (mode_from_byte b = Inr mode \<longleftrightarrow> b = mode_byte mode)"
proof -
  have decode: "mode_from_byte (mode_byte m) = Inr m" for m by (cases m) (simp_all add: mode_from_byte_def)
  have "mode_from_byte b = Inr mode \<Longrightarrow> b = mode_byte mode" by (auto simp: mode_from_byte_def split: if_splits)
  then show ?thesis using decode by (cases pl) (auto simp: placement_from_raw_def validated_def)
qed

end
