(* ===== verification/Tag_Filter.thy ===== *)
theory Tag_Filter
  imports Feature_Dict
begin

text \<open>
  Metadata tags: the tag dictionary (\<open>tagdict.rs\<close>), the request's compiled tag
  predicate (\<open>exact.rs\<close>), and the per-segment tag summary that lets a whole
  segment be skipped (\<open>segment/tag_summary.rs\<close>).
\<close>

section \<open>The tag dictionary\<close>

definition TAG_SEP :: rchar where
  "TAG_SEP = 1"

definition SYNTHETIC_TAG_BASE :: tag_id where
  "SYNTHETIC_TAG_BASE = 0x80000000"

definition is_synthetic_tag :: "tag_id \<Rightarrow> bool" where
  "is_synthetic_tag i \<longleftrightarrow> SYNTHETIC_TAG_BASE \<le> i"

definition tag_canonical :: "rstring \<Rightarrow> rstring \<Rightarrow> rstring" where
  "tag_canonical key v = key @ [TAG_SEP] @ v"

definition synthetic_tag_id :: "rstring \<Rightarrow> rstring \<Rightarrow> tag_id" where
  "synthetic_tag_id key v =
     (let h = fnv1a64 (as_bytes (tag_canonical key v));
          folded = ucast (h XOR drop_bit 32 h) :: tag_id
      in SYNTHETIC_TAG_BASE OR (folded AND (SYNTHETIC_TAG_BASE - 1)))"

text \<open>\<open>str::parse::<i64>\<close>: an optional sign, decimal digits, in range.\<close>

definition parse_i64 :: "rstring \<Rightarrow> int option" where
  "parse_i64 s =
     (let neg = (s \<noteq> [] \<and> hd s = 45);
          ds = (if s \<noteq> [] \<and> (hd s = 45 \<or> hd s = 43) then tl s else s);
          v = foldl (\<lambda>a d. a * 10 + int (d - 48)) 0 ds;
          w = (if neg then - v else v)
      in if ds = [] \<or> \<not> list_all (\<lambda>d. 48 \<le> d \<and> d \<le> 57) ds \<or> w < - (2 ^ 63) \<or> w \<ge> 2 ^ 63 then None else Some w)"

record tag_dict =
  tag_map :: "rstring \<rightharpoonup> tag_id"
  tag_keys :: "rstring list"
  priority_values :: "int option list"
  tags_finalized :: bool

definition tag_dict_new :: tag_dict where
  "tag_dict_new = \<lparr>tag_map = Map.empty, tag_keys = [], priority_values = [], tags_finalized = False\<rparr>"

definition tag_intern :: "rstring \<Rightarrow> rstring \<Rightarrow> tag_dict \<Rightarrow> tag_id \<times> tag_dict" where
  "tag_intern key v d =
     (let c = tag_canonical key v
      in case tag_map d c of
          Some i \<Rightarrow> (i, d)
        | None \<Rightarrow>
            let i = of_nat (length (tag_keys d))
            in (i, d\<lparr>tag_map := (tag_map d)(c \<mapsto> i), tag_keys := tag_keys d @ [c],
                  priority_values := priority_values d @
                    [if key = rstr ''priority'' then Some (case parse_i64 v of None \<Rightarrow> 0 | Some n \<Rightarrow> n) else None]\<rparr>))"

definition tag_get :: "tag_dict \<Rightarrow> rstring \<Rightarrow> rstring \<Rightarrow> tag_id option" where
  "tag_get d key v = tag_map d (tag_canonical key v)"

definition tag_get_or_synthetic :: "tag_dict \<Rightarrow> rstring \<Rightarrow> rstring \<Rightarrow> tag_id" where
  "tag_get_or_synthetic d key v =
     (case tag_map d (tag_canonical key v) of Some i \<Rightarrow> i | None \<Rightarrow> synthetic_tag_id key v)"

definition split_once :: "rchar \<Rightarrow> rstring \<Rightarrow> (rstring \<times> rstring) option" where
  "split_once c s =
     (case dropWhile (\<lambda>x. x \<noteq> c) s of [] \<Rightarrow> None | _ # rest \<Rightarrow> Some (takeWhile (\<lambda>x. x \<noteq> c) s, rest))"

definition key_value :: "tag_dict \<Rightarrow> tag_id \<Rightarrow> (rstring \<times> rstring) option" where
  "key_value d i = do { c \<leftarrow> at_index (tag_keys d) (unat i); split_once TAG_SEP c }"

definition legacy_priority :: "tag_dict \<Rightarrow> tag_id \<Rightarrow> int option" where
  "legacy_priority d i = do { p \<leftarrow> at_index (priority_values d) (unat i); p }"

fun legacy_priority_for_tags :: "tag_dict \<Rightarrow> tag_id list \<Rightarrow> int" where
  "legacy_priority_for_tags d [] = 0"
| "legacy_priority_for_tags d (t # ts) =
     (case legacy_priority d t of Some p \<Rightarrow> p | None \<Rightarrow> legacy_priority_for_tags d ts)"

definition tags_mark_finalized :: "tag_dict \<Rightarrow> tag_dict" where
  "tags_mark_finalized d = d\<lparr>tags_finalized := True\<rparr>"

definition tag_fingerprint :: "tag_dict \<Rightarrow> u64" where
  "tag_fingerprint d =
     fnv1a64 (to_le_bytes (of_nat (length (tag_keys d))) @
       concat (map (\<lambda>c. to_le_bytes (of_nat (str_len c)) @ as_bytes c) (tag_keys d)) @
       [if tags_finalized d then 1 else 0])"

section \<open>Tag predicates and summaries\<close>

type_synonym tag_predicate = "tag_id list list"

definition tag_predicate_empty :: tag_predicate where
  "tag_predicate_empty = []"

definition tag_predicate_new :: "tag_id list list \<Rightarrow> tag_predicate" where
  "tag_predicate_new groups = map sort_dedup groups"

definition sorted_intersects :: "tag_id list \<Rightarrow> tag_id list \<Rightarrow> bool" where
  "sorted_intersects a b =
     (let (small, large) = (if length a \<le> length b then (a, b) else (b, a)) in list_ex (search_ok large) small)"

definition tag_predicate_matches :: "tag_predicate \<Rightarrow> tag_id list \<Rightarrow> bool" where
  "tag_predicate_matches pred qtags \<longleftrightarrow> list_all (sorted_intersects qtags) pred"

text \<open>The hash set only removes duplicates before the sort.\<close>

definition tag_summary_build :: "tag_id list \<Rightarrow> tag_id list" where
  "tag_summary_build blob = sort_dedup blob"

definition summary_may_match :: "tag_id list \<Rightarrow> tag_predicate \<Rightarrow> bool" where
  "summary_may_match ids pred \<longleftrightarrow> list_all (sorted_intersects ids) pred"

section \<open>The dictionary invariant\<close>

definition tag_dict_inv :: "tag_dict \<Rightarrow> bool" where
  "tag_dict_inv d \<longleftrightarrow> length (tag_keys d) \<le> 2 ^ 31 \<and> length (priority_values d) = length (tag_keys d) \<and>
     (\<forall>c i. tag_map d c = Some i \<longleftrightarrow> unat i < length (tag_keys d) \<and> tag_keys d ! unat i = c)"

lemma tag_dict_inv_new: "tag_dict_inv tag_dict_new"
  by (simp add: tag_dict_inv_def tag_dict_new_def)

lemma is_synthetic_tag_synthetic [simp]: "is_synthetic_tag (synthetic_tag_id key v)"
  using is_synthetic_synthetic_id [of "tag_canonical key v"]
  by (simp add: is_synthetic_tag_def synthetic_tag_id_def SYNTHETIC_TAG_BASE_def is_synthetic_def synthetic_id_def
      SYNTHETIC_BASE_def)

lemma split_canonical: "TAG_SEP \<notin> set key \<Longrightarrow> split_once TAG_SEP (tag_canonical key v) = Some (key, v)"
  by (induction key) (auto simp: split_once_def tag_canonical_def split: list.splits)

lemma tag_intern_new_id:
  assumes "tag_dict_inv d" "length (tag_keys d) < 2 ^ 31"
  shows "unat (of_nat (length (tag_keys d)) :: tag_id) = length (tag_keys d)"
  using assms(2) by (simp add: unat_of_nat take_bit_nat_eq_self)

lemma tag_intern_inv:
  assumes "tag_dict_inv d" "length (tag_keys d) < 2 ^ 31"
  shows "tag_dict_inv (snd (tag_intern key v d))"
proof (cases "tag_map d (tag_canonical key v)")
  case None
  define n :: tag_id where "n = of_nat (length (tag_keys d))"
  have n: "unat n = length (tag_keys d)" using tag_intern_new_id [OF assms] by (simp add: n_def)
  have old: "tag_map d c = Some i \<longleftrightarrow> unat i < length (tag_keys d) \<and> tag_keys d ! unat i = c" for c i
    using assms(1) by (simp add: tag_dict_inv_def)
  have absent: "unat i < length (tag_keys d) \<Longrightarrow> tag_keys d ! unat i \<noteq> tag_canonical key v" for i :: tag_id
    using old [of "tag_canonical key v" i] None by auto
  have at_end: "unat i = length (tag_keys d) \<longleftrightarrow> i = n" for i :: tag_id by (simp only: word_unat_eq_iff n)
  have "((tag_map d)(tag_canonical key v \<mapsto> n)) c = Some i \<longleftrightarrow>
      unat i < Suc (length (tag_keys d)) \<and> (tag_keys d @ [tag_canonical key v]) ! unat i = c" for c i
    using old [of c i] absent [of i] at_end [of i] n by (auto simp: nth_append less_Suc_eq)
  then show ?thesis
    using None assms by (simp add: tag_intern_def Let_def tag_dict_inv_def n_def [symmetric])
qed (use assms in \<open>simp add: tag_intern_def\<close>)

section \<open>Properties of tags\<close>

text \<open>
  Interning a tag keeps the dictionary invariant and never moves an id: the
  tag is found under the returned id, every tag found before is found under the
  same id, dense ids stay out of the synthetic range that unknown tags resolve
  to, and the key and value are recovered from the id when the key is free of
  the separator.
\<close>
theorem tag_intern_correct:
  assumes "tag_dict_inv d" "length (tag_keys d) < 2 ^ 31" "tag_intern key v d = (i, d')"
  shows "tag_dict_inv d' \<and> tag_get d' key v = Some i \<and> \<not> is_synthetic_tag i \<and>
    (\<forall>k w j. tag_get d k w = Some j \<longrightarrow> tag_get d' k w = Some j) \<and>
    (tag_get d k2 v2 = None \<longrightarrow> is_synthetic_tag (tag_get_or_synthetic d k2 v2)) \<and>
    (TAG_SEP \<notin> set key \<longrightarrow> key_value d' i = Some (key, v))"
proof -
  have inv: "tag_dict_inv d'" using tag_intern_inv [OF assms(1,2)] assms(3) by (metis snd_conv)
  have get: "tag_get d' key v = Some i"
    using assms(3) by (auto simp: tag_intern_def tag_get_def Let_def split: option.splits)
  have range: "unat j < 2 ^ 31" "tag_keys d' ! unat j = c" "unat j < length (tag_keys d')" if "tag_map d' c = Some j" for c j
    using inv that by (auto simp: tag_dict_inv_def)
  have i: "unat i < 2 ^ 31" "tag_keys d' ! unat i = tag_canonical key v" "unat i < length (tag_keys d')"
    using range get by (auto simp: tag_get_def)
  have "\<not> is_synthetic_tag i"
    using i(1) by (simp add: is_synthetic_tag_def SYNTHETIC_TAG_BASE_def word_le_nat_alt)
  moreover have "tag_get d' k w = Some j" if "tag_get d k w = Some j" for k w j
    using that assms(3) by (auto simp: tag_intern_def tag_get_def Let_def split: option.splits)
  moreover have "key_value d' i = Some (key, v)" if "TAG_SEP \<notin> set key"
    using i split_canonical [OF that] by (simp add: key_value_def at_index_def)
  ultimately show ?thesis using inv get by (auto simp: tag_get_or_synthetic_def tag_get_def)
qed

theorem tag_intern_correct_witness:
  "tag_get (snd (tag_intern (rstr ''status'') (rstr ''on'') tag_dict_new)) (rstr ''status'') (rstr ''on'') = Some 0"
proof -
  have "tag_intern (rstr ''status'') (rstr ''on'') tag_dict_new =
      (0, snd (tag_intern (rstr ''status'') (rstr ''on'') tag_dict_new))"
    by (simp add: tag_intern_def tag_dict_new_def Let_def)
  from tag_intern_correct [OF tag_dict_inv_new _ this] show ?thesis by (simp add: tag_dict_new_def)
qed


lemma sorted_intersects_iff:
  assumes "sorted a" "sorted b"
  shows "sorted_intersects a b \<longleftrightarrow> set a \<inter> set b \<noteq> {}"
  using assms by (auto simp: sorted_intersects_def list_ex_iff search_ok_iff)

lemma tag_predicate_new_sorted: "\<forall>g \<in> set (tag_predicate_new groups). sorted g"
  by (auto simp: tag_predicate_new_def)

lemma tag_matches_iff:
  assumes "sorted qtags" "\<forall>g \<in> set pred. sorted g"
  shows "tag_predicate_matches pred qtags \<longleftrightarrow> (\<forall>g \<in> set pred. set qtags \<inter> set g \<noteq> {})"
  using assms by (auto simp: tag_predicate_matches_def list_all_iff sorted_intersects_iff)

text \<open>A summary that rejects a predicate proves that no row of the segment passes it.\<close>

lemma summary_sound:
  assumes "\<forall>g \<in> set pred. sorted g" "sorted qtags" "set qtags \<subseteq> set blob" "tag_predicate_matches pred qtags"
  shows "summary_may_match (tag_summary_build blob) pred"
  using assms tag_matches_iff [OF assms(2,1)]
  by (fastforce simp: summary_may_match_def tag_summary_build_def list_all_iff sorted_intersects_iff)

text \<open>
  C38: A tag filter means what it says: a compiled predicate accepts a row's
  tags exactly when every group shares a tag with them (so no group accepts
  everything and an empty group accepts nothing), and a segment summary never
  rules out a segment that holds an accepted row.
\<close>
theorem tag_filter_correct:
  assumes "sorted qtags"
  shows "(tag_predicate_matches (tag_predicate_new groups) qtags \<longleftrightarrow>
      (\<forall>g \<in> set groups. set qtags \<inter> set g \<noteq> {})) \<and>
    (set qtags \<subseteq> set blob \<longrightarrow> tag_predicate_matches (tag_predicate_new groups) qtags \<longrightarrow>
      summary_may_match (tag_summary_build blob) (tag_predicate_new groups))"
  using tag_matches_iff [OF assms tag_predicate_new_sorted, of groups]
    summary_sound [OF tag_predicate_new_sorted assms, of blob groups]
  by (auto simp: tag_predicate_new_def)

theorem tag_filter_correct_witness:
  "tag_predicate_matches (tag_predicate_new [[9, 2], [5]]) [2, 5] \<and>
   summary_may_match (tag_summary_build [5, 2, 7]) (tag_predicate_new [[9, 2], [5]])"
  using tag_filter_correct [of "[2, 5]" "[[9, 2], [5]]" "[5, 2, 7]"] by simp

end
