(* ===== verification/Exact_Store.thy ===== *)
theory Exact_Store
  imports Predicate_Properties Ownership Tag_Filter
begin

text \<open>
  The exact store (\<open>exact/store.rs\<close> and its submodules, \<open>exact/slices.rs\<close>): one
  row per stored query, kept as parallel columns and shared blobs. \<open>None\<close> is a
  panic (an index or slice outside a column). Offsets are 32 bits and lengths 16
  or 32 bits wide, as in the source, so appending truncates them.
\<close>

section \<open>Columns\<close>

record exact_store =
  req_mask :: "u64 list"
  forb_mask :: "u64 list"
  req_off :: "u32 list"
  req_len :: "u16 list"
  req_blob :: "u32 list"
  forb_off :: "u32 list"
  forb_len :: "u16 list"
  forb_blob :: "u32 list"
  q_group_start :: "u32 list"
  q_group_count :: "u16 list"
  group_off :: "u32 list"
  group_len :: "u16 list"
  anyof_blob :: "u32 list"
  predicate_off :: "u32 list"
  predicate_len :: "u32 list"
  predicate_blob :: "u32 list"
  has_phrase_predicates :: bool
  tag_off :: "u32 list"
  tag_len :: "u16 list"
  tag_blob :: "tag_id list"
  priority :: "int list"
  placement_generation_col :: "u64 list"
  placement_num_shards_col :: "u32 list"
  placement_mode_col :: "u8 list"
  placement_off :: "u32 list"
  placement_len :: "u32 list"
  placement_blob :: "u32 list"
  source_generation :: "u64 list"
  version_col :: "u32 list"
  logical_col :: "u64 list"

definition store_new :: exact_store where
  "store_new = \<lparr>req_mask = [], forb_mask = [], req_off = [], req_len = [], req_blob = [], forb_off = [], forb_len = [],
     forb_blob = [], q_group_start = [], q_group_count = [], group_off = [], group_len = [], anyof_blob = [],
     predicate_off = [], predicate_len = [], predicate_blob = [], has_phrase_predicates = False, tag_off = [],
     tag_len = [], tag_blob = [], priority = [], placement_generation_col = [], placement_num_shards_col = [],
     placement_mode_col = [], placement_off = [], placement_len = [], placement_blob = [], source_generation = [],
     version_col = [], logical_col = []\<rparr>"

definition store_len :: "exact_store \<Rightarrow> nat" where
  "store_len st = length (req_mask st)"

definition store_is_empty :: "exact_store \<Rightarrow> bool" where
  "store_is_empty st \<longleftrightarrow> req_mask st = []"

section \<open>Appending a row\<close>

text \<open>The groups of columns that belong together.\<close>

definition push_masks :: "u64 \<Rightarrow> u64 \<Rightarrow> exact_store \<Rightarrow> exact_store" where
  "push_masks rm fm st = st\<lparr>req_mask := req_mask st @ [rm], forb_mask := forb_mask st @ [fm]\<rparr>"

definition push_req_tail :: "u32 list \<Rightarrow> exact_store \<Rightarrow> exact_store" where
  "push_req_tail fs st = st\<lparr>req_off := req_off st @ [of_nat (length (req_blob st))],
     req_len := req_len st @ [of_nat (length fs)], req_blob := req_blob st @ fs\<rparr>"

definition push_forb_tail :: "u32 list \<Rightarrow> exact_store \<Rightarrow> exact_store" where
  "push_forb_tail fs st = st\<lparr>forb_off := forb_off st @ [of_nat (length (forb_blob st))],
     forb_len := forb_len st @ [of_nat (length fs)], forb_blob := forb_blob st @ fs\<rparr>"

definition push_group :: "u32 list \<Rightarrow> exact_store \<Rightarrow> exact_store" where
  "push_group g st = st\<lparr>group_off := group_off st @ [of_nat (length (anyof_blob st))],
     group_len := group_len st @ [of_nat (length g)], anyof_blob := anyof_blob st @ g\<rparr>"

definition push_groups :: "u32 list list \<Rightarrow> exact_store \<Rightarrow> exact_store" where
  "push_groups gs st = fold push_group gs (st\<lparr>q_group_start := q_group_start st @ [of_nat (length (group_off st))],
     q_group_count := q_group_count st @ [of_nat (length gs)]\<rparr>)"

definition push_predicate_words :: "u32 list \<Rightarrow> exact_store \<Rightarrow> exact_store" where
  "push_predicate_words ws st = st\<lparr>predicate_off := predicate_off st @ [of_nat (length (predicate_blob st))],
     predicate_len := predicate_len st @ [of_nat (length ws)], predicate_blob := predicate_blob st @ ws,
     has_phrase_predicates := (has_phrase_predicates st \<or> predicate_has_phrases ws)\<rparr>"

definition push_tags :: "tag_id list \<Rightarrow> exact_store \<Rightarrow> exact_store" where
  "push_tags ts st = st\<lparr>tag_off := tag_off st @ [of_nat (length (tag_blob st))],
     tag_len := tag_len st @ [of_nat (length ts)], tag_blob := tag_blob st @ ts\<rparr>"

definition push_placement :: "query_placement \<Rightarrow> exact_store \<Rightarrow> exact_store" where
  "push_placement pl st = st\<lparr>placement_off := placement_off st @ [of_nat (length (placement_blob st))],
     placement_len := placement_len st @ [of_nat (length (placed_positions pl))],
     placement_blob := placement_blob st @ placed_positions pl,
     placement_generation_col := placement_generation_col st @ [placed_generation pl],
     placement_num_shards_col := placement_num_shards_col st @ [placed_shards pl],
     placement_mode_col := placement_mode_col st @ [mode_byte (placed_mode pl)]\<rparr>"

definition push_identity :: "u32 \<Rightarrow> u64 \<Rightarrow> int \<Rightarrow> u64 \<Rightarrow> exact_store \<Rightarrow> exact_store" where
  "push_identity ver logical prio gen st = st\<lparr>version_col := version_col st @ [ver],
     logical_col := logical_col st @ [logical], priority := priority st @ [prio],
     source_generation := source_generation st @ [gen]\<rparr>"

text \<open>A feature with a mask bit goes to the mask word, any other to the tail.\<close>

definition mask_of :: "dict \<Rightarrow> feature_id list \<Rightarrow> u64" where
  "mask_of d fs = fold (\<lambda>f m. if mask_bit d f = NO_MASK_BIT then m else m OR mask_of_bit (mask_bit d f)) fs 0"

definition tail_of :: "dict \<Rightarrow> feature_id list \<Rightarrow> feature_id list" where
  "tail_of d fs = filter (\<lambda>f. mask_bit d f = NO_MASK_BIT) fs"

definition title_mask :: "dict \<Rightarrow> feature_id list \<Rightarrow> u64" where
  "title_mask d feats = mask_of d feats"

definition push_encoded_predicate :: "extracted \<Rightarrow> exact_store \<Rightarrow> exact_store" where
  "push_encoded_predicate ex st =
     (let ((off, len), blob) = encode_predicate ex (predicate_blob st)
      in st\<lparr>predicate_off := predicate_off st @ [off], predicate_len := predicate_len st @ [len],
           predicate_blob := blob,
           has_phrase_predicates :=
             (has_phrase_predicates st \<or> required_phrases ex \<noteq> [] \<or> forbidden_phrases ex \<noteq> [])\<rparr>)"

definition push_with_source_generation ::
  "extracted \<Rightarrow> tag_id list \<Rightarrow> dict \<Rightarrow> u32 \<Rightarrow> u64 \<Rightarrow> int \<Rightarrow> query_placement \<Rightarrow> u64 \<Rightarrow> exact_store \<Rightarrow>
   u32 \<times> exact_store" where
  "push_with_source_generation ex tags d ver logical prio pl gen st =
     (of_nat (length (req_mask st)),
      push_identity ver logical prio gen (push_placement pl (push_tags tags
        (push_encoded_predicate ex (push_groups (anyof ex)
        (push_forb_tail (tail_of d (forbidden ex)) (push_req_tail (tail_of d (required ex))
        (push_masks (mask_of d (required ex)) (mask_of d (forbidden ex)) st))))))))"

definition push_ranked_with_placement ::
  "extracted \<Rightarrow> tag_id list \<Rightarrow> dict \<Rightarrow> u32 \<Rightarrow> u64 \<Rightarrow> int \<Rightarrow> query_placement \<Rightarrow> exact_store \<Rightarrow> u32 \<times> exact_store" where
  "push_ranked_with_placement ex tags d ver logical prio pl st =
     push_with_source_generation ex tags d ver logical prio pl 0 st"

definition push_ranked ::
  "extracted \<Rightarrow> tag_id list \<Rightarrow> dict \<Rightarrow> u32 \<Rightarrow> u64 \<Rightarrow> int \<Rightarrow> exact_store \<Rightarrow> u32 \<times> exact_store" where
  "push_ranked ex tags d ver logical prio st =
     push_ranked_with_placement ex tags d ver logical prio placement_standalone st"

definition store_push :: "extracted \<Rightarrow> tag_id list \<Rightarrow> dict \<Rightarrow> u32 \<Rightarrow> u64 \<Rightarrow> exact_store \<Rightarrow> u32 \<times> exact_store" where
  "store_push ex tags d ver logical st = push_ranked ex tags d ver logical 0 st"

section \<open>Reading a row\<close>

text \<open>\<open>&blob[off[i] as usize..off[i] as usize + len[i] as usize]\<close>\<close>

definition column_run :: "'o::len word list \<Rightarrow> 'l::len word list \<Rightarrow> 'a list \<Rightarrow> nat \<Rightarrow> 'a list option" where
  "column_run offs lens blob i =
     do { off \<leftarrow> at_index offs i; n \<leftarrow> at_index lens i; slice blob (unat off) (unat n) }"

definition read_req :: "exact_store \<Rightarrow> nat \<Rightarrow> u32 list option" where
  "read_req st = column_run (req_off st) (req_len st) (req_blob st)"

definition read_forb :: "exact_store \<Rightarrow> nat \<Rightarrow> u32 list option" where
  "read_forb st = column_run (forb_off st) (forb_len st) (forb_blob st)"

definition read_group :: "exact_store \<Rightarrow> nat \<Rightarrow> u32 list option" where
  "read_group st = column_run (group_off st) (group_len st) (anyof_blob st)"

fun read_groups :: "u32 list \<Rightarrow> u16 list \<Rightarrow> u32 list \<Rightarrow> nat \<Rightarrow> nat \<Rightarrow> u32 list list option" where
  "read_groups offs lens blob gi 0 = Some []"
| "read_groups offs lens blob gi (Suc n) =
     do { g \<leftarrow> column_run offs lens blob gi; gs \<leftarrow> read_groups offs lens blob (Suc gi) n; Some (g # gs) }"

definition read_row_groups :: "exact_store \<Rightarrow> nat \<Rightarrow> u32 list list option" where
  "read_row_groups st i =
     do { s \<leftarrow> at_index (q_group_start st) i; n \<leftarrow> at_index (q_group_count st) i;
          read_groups (group_off st) (group_len st) (anyof_blob st) (unat s) (unat n) }"

definition read_predicate :: "exact_store \<Rightarrow> nat \<Rightarrow> u32 list option" where
  "read_predicate st = column_run (predicate_off st) (predicate_len st) (predicate_blob st)"

definition read_tags :: "exact_store \<Rightarrow> nat \<Rightarrow> tag_id list option" where
  "read_tags st = column_run (tag_off st) (tag_len st) (tag_blob st)"

definition tags_of :: "exact_store \<Rightarrow> u32 \<Rightarrow> tag_id list option" where
  "tags_of st row = read_tags st (unat row)"

definition stored_mode :: "u8 \<Rightarrow> placement_mode" where
  "stored_mode m = (if m = 1 then Selective else if m = 2 then ReplicatedAlwaysVisible
     else if m = 3 then ReplicatedBroad else Standalone)"

definition read_placement :: "exact_store \<Rightarrow> nat \<Rightarrow> query_placement option" where
  "read_placement st i =
     do {
       gen \<leftarrow> at_index (placement_generation_col st) i;
       shards \<leftarrow> at_index (placement_num_shards_col st) i;
       m \<leftarrow> at_index (placement_mode_col st) i;
       ps \<leftarrow> column_run (placement_off st) (placement_len st) (placement_blob st) i;
       Some \<lparr>placed_generation = gen, placed_shards = shards,
         placed_mode = stored_mode m, placed_positions = ps\<rparr>
     }"

definition placement_of :: "exact_store \<Rightarrow> u32 \<Rightarrow> query_placement option" where
  "placement_of st row = read_placement st (unat row)"

definition row_has_phrase_predicates :: "exact_store \<Rightarrow> u32 \<Rightarrow> bool option" where
  "row_has_phrase_predicates st row = map_option predicate_has_phrases (read_predicate st (unat row))"

definition count_ones :: "u64 \<Rightarrow> u32" where
  "count_ones w = of_nat (length (filter (bit w) [0..<64]))"

record rank_query_features =
  positive_terms :: u32
  negative_terms_count :: u32
  any_of_groups :: u32
  tag_count :: u32

definition rank_query_features_of :: "exact_store \<Rightarrow> u32 \<Rightarrow> rank_query_features option" where
  "rank_query_features_of st row =
     (let i = unat row in do {
       ws \<leftarrow> read_predicate st i;
       proxies \<leftarrow> at_index (q_group_count st) i;
       (pos, neg, groups) \<leftarrow> predicate_rank_term_counts ws (ucast proxies);
       rm \<leftarrow> at_index (req_mask st) i;
       rl \<leftarrow> at_index (req_len st) i;
       fm \<leftarrow> at_index (forb_mask st) i;
       fl \<leftarrow> at_index (forb_len st) i;
       tl \<leftarrow> at_index (tag_len st) i;
       Some \<lparr>positive_terms = saturating_add (saturating_add (count_ones rm) (ucast rl)) pos,
         negative_terms_count = saturating_add (saturating_add (count_ones fm) (ucast fl)) neg,
         any_of_groups = groups, tag_count = ucast tl\<rparr>
     })"

section \<open>Verifying a row\<close>

text \<open>A tag column shorter than the store (a segment from before tags) reads as untagged.\<close>

definition query_passes_tags :: "exact_store \<Rightarrow> nat \<Rightarrow> tag_predicate \<Rightarrow> bool option" where
  "query_passes_tags st i pred =
     (case (at_index (tag_off st) i, at_index (tag_len st) i) of
        (Some off, Some n) \<Rightarrow> map_option (tag_predicate_matches pred) (slice (tag_blob st) (unat off) (unat n))
      | _ \<Rightarrow> Some (tag_predicate_matches pred []))"

text \<open>The loop over the any-of groups stops at the first group without a present member.\<close>

fun groups_hit :: "exact_store \<Rightarrow> (feature_id \<Rightarrow> bool) \<Rightarrow> nat \<Rightarrow> nat \<Rightarrow> bool option" where
  "groups_hit st has gi 0 = Some True"
| "groups_hit st has gi (Suc n) =
     do { g \<leftarrow> read_group st gi; if list_ex has g then groups_hit st has (Suc gi) n else Some False }"

definition row_groups_hit :: "exact_store \<Rightarrow> (feature_id \<Rightarrow> bool) \<Rightarrow> nat \<Rightarrow> bool option" where
  "row_groups_hit st has i =
     do { s \<leftarrow> at_index (q_group_start st) i; n \<leftarrow> at_index (q_group_count st) i; groups_hit st has (unat s) (unat n) }"

text \<open>The clauses run in order and each one that fails ends the check.\<close>

definition and_also :: "bool option \<Rightarrow> bool option \<Rightarrow> bool option" where
  "and_also a b = (case a of None \<Rightarrow> None | Some False \<Rightarrow> Some False | Some True \<Rightarrow> b)"

definition mask_gate :: "exact_store \<Rightarrow> nat \<Rightarrow> title_view \<Rightarrow> bool option" where
  "mask_gate st i view =
     and_also (map_option (\<lambda>rm. rm AND pos_mask view = rm) (at_index (req_mask st) i))
       (map_option (\<lambda>fm. fm AND neg_mask view = 0) (at_index (forb_mask st) i))"

definition tag_gate :: "exact_store \<Rightarrow> nat \<Rightarrow> tag_predicate \<Rightarrow> bool option" where
  "tag_gate st i pred = (if pred = [] then Some True else query_passes_tags st i pred)"

definition flat_gate :: "exact_store \<Rightarrow> nat \<Rightarrow> title_view \<Rightarrow> bool option" where
  "flat_gate st i view =
     and_also (mask_gate st i view)
       (and_also (map_option (list_all (search_ok (view_pos view))) (read_req st i))
       (and_also (map_option (\<lambda>fs. \<not> list_ex (search_ok (view_neg view)) fs) (read_forb st i))
         (row_groups_hit st (search_ok (view_pos view)) i)))"

definition store_verify :: "exact_store \<Rightarrow> u32 \<Rightarrow> title_view \<Rightarrow> tag_predicate \<Rightarrow> bool option" where
  "store_verify st row view pred =
     (let i = unat row in
      and_also (flat_gate st i view)
        (and_also
          (do { off \<leftarrow> at_index (predicate_off st) i; n \<leftarrow> at_index (predicate_len st) i;
                if n = 0 then Some True
                else do { ws \<leftarrow> slice (predicate_blob st) (unat off) (unat n); verify_predicate ws view } })
          (tag_gate st i pred)))"

text \<open>The kernel on borrowed columns, which a mapped segment shares: a missing predicate column reads as 0.\<close>

definition column_or_zero :: "u32 list \<Rightarrow> nat \<Rightarrow> nat" where
  "column_or_zero xs i = (case at_index xs i of None \<Rightarrow> 0 | Some w \<Rightarrow> unat w)"

definition verify_slices :: "exact_store \<Rightarrow> u32 \<Rightarrow> title_view \<Rightarrow> tag_predicate \<Rightarrow> bool option" where
  "verify_slices cols row view pred =
     (let i = unat row; po = column_or_zero (predicate_off cols) i; pl = column_or_zero (predicate_len cols) i in
      and_also (flat_gate cols i view)
        (and_also
          (if pl = 0 then Some True
           else do { ws \<leftarrow> slice (predicate_blob cols) po pl; verify_predicate ws view })
          (tag_gate cols i pred)))"

definition prefilter_slices :: "exact_store \<Rightarrow> nat \<Rightarrow> u64 \<Rightarrow> (feature_id \<Rightarrow> bool) \<Rightarrow> bool option" where
  "prefilter_slices cols i union_mask occurs =
     and_also (map_option (\<lambda>rm. rm AND union_mask = rm) (at_index (req_mask cols) i))
       (and_also (map_option (list_all occurs) (read_req cols i)) (row_groups_hit cols occurs i))"

definition can_match_batch :: "exact_store \<Rightarrow> u32 \<Rightarrow> u64 \<Rightarrow> (feature_id \<Rightarrow> bool) \<Rightarrow> bool option" where
  "can_match_batch st row union_mask occurs = prefilter_slices st (unat row) union_mask occurs"

section \<open>Verifying a batch of titles\<close>

datatype batch_eval_error = PositionedPredicate

text \<open>The gate bitmap: title \<open>t\<close> is bit \<open>t & 63\<close> of word \<open>t >> 6\<close>.\<close>

fun gate_loop :: "u64 \<Rightarrow> u64 \<Rightarrow> nat \<Rightarrow> u64 list \<Rightarrow> u64 list \<Rightarrow> u64 list option" where
  "gate_loop rm fm t [] acc = Some acc"
| "gate_loop rm fm t (tm # tms) acc =
     (if rm AND tm = rm \<and> fm AND tm = 0
      then (case at_index acc (t div 64) of
              None \<Rightarrow> None
            | Some w \<Rightarrow> gate_loop rm fm (Suc t) tms (acc[t div 64 := w OR mask_of_bit (t mod 64)]))
      else gate_loop rm fm (Suc t) tms acc)"

definition batch_required :: "bitmap_lookup \<Rightarrow> feature_id \<Rightarrow> u64 list \<Rightarrow> u64 list + u64 list" where
  "batch_required look f acc = (case look f of None \<Rightarrow> Inl (fill 0 acc) | Some bm \<Rightarrow> narrow_bits acc bm)"

definition batch_forbidden :: "bitmap_lookup \<Rightarrow> feature_id \<Rightarrow> u64 list \<Rightarrow> u64 list + u64 list" where
  "batch_forbidden look f acc = (case look f of None \<Rightarrow> Inr acc | Some bm \<Rightarrow> narrow_bits acc (map NOT bm))"

fun batch_anyof ::
  "exact_store \<Rightarrow> bitmap_lookup \<Rightarrow> u64 list \<Rightarrow> nat \<Rightarrow> nat \<Rightarrow> u64 list \<Rightarrow> (u64 list + u64 list) option" where
  "batch_anyof cols look grp gi 0 acc = Some (Inr acc)"
| "batch_anyof cols look grp gi (Suc n) acc =
     do {
       g \<leftarrow> read_group cols gi;
       (case narrow_bits acc (fold (or_bitmap look) g (fill 0 grp)) of
          Inl acc' \<Rightarrow> Some (Inl acc')
        | Inr acc' \<Rightarrow> batch_anyof cols look grp (Suc gi) n acc')
     }"

definition batch_row_anyof ::
  "exact_store \<Rightarrow> bitmap_lookup \<Rightarrow> u64 list \<Rightarrow> nat \<Rightarrow> u64 list \<Rightarrow> (u64 list + u64 list) option" where
  "batch_row_anyof cols look grp i acc =
     do { s \<leftarrow> at_index (q_group_start cols) i; n \<leftarrow> at_index (q_group_count cols) i;
          batch_anyof cols look grp (unat s) (unat n) acc }"

definition batch_clauses ::
  "exact_store \<Rightarrow> nat \<Rightarrow> u64 list \<Rightarrow> bitmap_lookup \<Rightarrow> u64 list \<Rightarrow> u64 list \<Rightarrow> u64 list \<Rightarrow> u64 list \<Rightarrow> u32 list \<Rightarrow>
   (u64 list + u64 list) option" where
  "batch_clauses cols i tmasks look acc grp member choice program =
     do {
       rm \<leftarrow> at_index (req_mask cols) i;
       fm \<leftarrow> at_index (forb_mask cols) i;
       gated \<leftarrow> gate_loop rm fm 0 tmasks (fill 0 acc);
       andthen (map_option (\<lambda>fs. try_fold (batch_required look) fs gated) (read_req cols i)) (\<lambda>acc.
       andthen (map_option (\<lambda>fs. try_fold (batch_forbidden look) fs acc) (read_forb cols i)) (\<lambda>acc.
       andthen (batch_row_anyof cols look grp i acc) (\<lambda>acc.
         if program = [] then Some (Inr acc)
         else map_option Inr (eval_predicate_batch program look acc grp member choice))))
     }"

definition eval_batch_slices ::
  "exact_store \<Rightarrow> nat \<Rightarrow> u64 list \<Rightarrow> bitmap_lookup \<Rightarrow> u64 list \<Rightarrow> u64 list \<Rightarrow> u64 list \<Rightarrow> u64 list \<Rightarrow> tag_predicate \<Rightarrow>
   ((batch_eval_error + unit) \<times> u64 list) option" where
  "eval_batch_slices cols i tmasks look acc grp member choice pred =
     do {
       program \<leftarrow> slice (predicate_blob cols) (column_or_zero (predicate_off cols) i)
         (column_or_zero (predicate_len cols) i);
       if predicate_has_phrases program then Some (Inl PositionedPredicate, fill 0 acc)
       else do {
         pass \<leftarrow> tag_gate cols i pred;
         if pass
         then map_option (\<lambda>r. (Inr (), case_sum (\<lambda>a. a) (\<lambda>a. a) r))
           (batch_clauses cols i tmasks look acc grp member choice program)
         else Some (Inr (), fill 0 acc)
       }
     }"

definition store_eval_batch ::
  "exact_store \<Rightarrow> u32 \<Rightarrow> u64 list \<Rightarrow> bitmap_lookup \<Rightarrow> u64 list \<Rightarrow> u64 list \<Rightarrow> u64 list \<Rightarrow> u64 list \<Rightarrow> tag_predicate \<Rightarrow>
   ((batch_eval_error + unit) \<times> u64 list) option" where
  "store_eval_batch st row = eval_batch_slices st (unat row)"

section \<open>Bodies\<close>

definition is_pure_anchor :: "exact_store \<Rightarrow> u32 \<Rightarrow> bool option" where
  "is_pure_anchor st row =
     (let i = unat row in
      and_also (map_option (\<lambda>n. n = 0) (at_index (req_len st) i))
      (and_also (map_option (\<lambda>m. m = 0) (at_index (forb_mask st) i))
      (and_also (map_option (\<lambda>n. n = 0) (at_index (forb_len st) i))
      (and_also (map_option (\<lambda>n. n = 0) (at_index (q_group_count st) i))
      (and_also (map_option (\<lambda>n. n = 0) (at_index (predicate_len st) i))
        (map_option (\<lambda>m. count_ones m = 1) (at_index (req_mask st) i)))))))"

definition pure_tail_anchor :: "exact_store \<Rightarrow> u32 \<Rightarrow> feature_id \<Rightarrow> bool option" where
  "pure_tail_anchor st row anchor =
     (let i = unat row in
      and_also (map_option (\<lambda>m. m = 0) (at_index (req_mask st) i))
      (and_also (map_option (\<lambda>n. n = 1) (at_index (req_len st) i))
      (and_also (map_option (\<lambda>m. m = 0) (at_index (forb_mask st) i))
      (and_also (map_option (\<lambda>n. n = 0) (at_index (forb_len st) i))
      (and_also (map_option (\<lambda>n. n = 0) (at_index (q_group_count st) i))
      (and_also (map_option (\<lambda>n. n = 0) (at_index (predicate_len st) i))
        (do { off \<leftarrow> at_index (req_off st) i; map_option (\<lambda>f. f = anchor) (at_index (req_blob st) (unat off)) })))))))"

definition canonical_groups :: "exact_store \<Rightarrow> nat \<Rightarrow> u32 list list option" where
  "canonical_groups st i = map_option (\<lambda>gs. sort (map sort gs)) (read_row_groups st i)"

text \<open>FNV-1a over the little-endian bytes of each mixed word.\<close>

definition le_bytes64 :: "u64 \<Rightarrow> u64 list" where
  "le_bytes64 v = map (\<lambda>k. take_bit 8 (drop_bit (8 * k) v)) [0..<8]"

definition mix :: "u64 \<Rightarrow> u64 \<Rightarrow> u64" where
  "mix v h = fold (\<lambda>b h. fnv_step h b) (le_bytes64 v) h"

definition body_words :: "u64 \<Rightarrow> u64 \<Rightarrow> u32 list \<Rightarrow> u32 list \<Rightarrow> u32 list list \<Rightarrow> u32 \<times> u32 list \<Rightarrow> u64 list" where
  "body_words rm fm req forb groups prog =
     [rm, fm, 0xA1] @ map ucast req @ [0xA2] @ map ucast forb @ [0xA3] @
     concat (map (\<lambda>g. 0xA4 # map ucast g) groups) @ [0xA5, ucast (fst prog)] @ map ucast (snd prog)"

definition body_signature :: "exact_store \<Rightarrow> u32 \<Rightarrow> u64 option" where
  "body_signature st row =
     (let i = unat row in do {
       rm \<leftarrow> at_index (req_mask st) i;
       fm \<leftarrow> at_index (forb_mask st) i;
       req \<leftarrow> read_req st i;
       forb \<leftarrow> read_forb st i;
       groups \<leftarrow> canonical_groups st i;
       words \<leftarrow> read_predicate st i;
       prog \<leftarrow> predicate_boolean_program words;
       Some (fold mix (body_words rm fm (sort req) (sort forb) groups prog)
         (fnv1a64 (map (of_nat \<circ> of_char) ''body'')))
     })"

definition same :: "'a option \<Rightarrow> 'a option \<Rightarrow> bool option" where
  "same a b = do { x \<leftarrow> a; y \<leftarrow> b; Some (x = y) }"

definition bodies_equal :: "exact_store \<Rightarrow> u32 \<Rightarrow> u32 \<Rightarrow> bool option" where
  "bodies_equal st a b =
     (let ia = unat a; ib = unat b in
      and_also (same (at_index (req_mask st) ia) (at_index (req_mask st) ib))
      (and_also (same (at_index (forb_mask st) ia) (at_index (forb_mask st) ib))
      (and_also (same (at_index (req_len st) ia) (at_index (req_len st) ib))
      (and_also (same (at_index (forb_len st) ia) (at_index (forb_len st) ib))
      (and_also (same (at_index (q_group_count st) ia) (at_index (q_group_count st) ib))
      (and_also (same (map_option sort (read_req st ia)) (map_option sort (read_req st ib)))
      (and_also (same (map_option sort (read_forb st ia)) (map_option sort (read_forb st ib)))
      (and_also (same (canonical_groups st ia) (canonical_groups st ib))
        (same (Option.bind (read_predicate st ia) predicate_boolean_program)
          (Option.bind (read_predicate st ib) predicate_boolean_program))))))))))"

section \<open>Copying and rebuilding rows\<close>

definition push_raw_with_predicate ::
  "u64 \<Rightarrow> u64 \<Rightarrow> u32 list \<Rightarrow> u32 list \<Rightarrow> nat \<times> nat \<times> u32 list \<times> u16 list \<times> u32 list \<Rightarrow> u32 list \<Rightarrow> tag_id list \<Rightarrow>
   u32 \<Rightarrow> u64 \<Rightarrow> int \<Rightarrow> query_placement \<Rightarrow> u64 \<Rightarrow> exact_store \<Rightarrow> (u32 \<times> exact_store) option" where
  "push_raw_with_predicate rm fm req_tail forb_tail groups program tags ver logical prio pl gen st =
     (case groups of (gs, gc, offs, lens, blob) \<Rightarrow>
       map_option (\<lambda>gs. (of_nat (length (req_mask st)),
           push_identity ver logical prio gen (push_placement pl (push_tags tags
             (push_predicate_words program (push_groups gs (push_forb_tail forb_tail (push_req_tail req_tail
               (push_masks rm fm st)))))))))
         (read_groups offs lens blob gs gc))"

definition push_raw_placed_with_source_generation ::
  "u64 \<Rightarrow> u64 \<Rightarrow> u32 list \<Rightarrow> u32 list \<Rightarrow> nat \<times> nat \<times> u32 list \<times> u16 list \<times> u32 list \<Rightarrow> tag_id list \<Rightarrow>
   u32 \<Rightarrow> u64 \<Rightarrow> int \<Rightarrow> query_placement \<Rightarrow> u64 \<Rightarrow> exact_store \<Rightarrow> (u32 \<times> exact_store) option" where
  "push_raw_placed_with_source_generation rm fm req_tail forb_tail groups =
     push_raw_with_predicate rm fm req_tail forb_tail groups []"

definition push_raw_placed ::
  "u64 \<Rightarrow> u64 \<Rightarrow> u32 list \<Rightarrow> u32 list \<Rightarrow> nat \<times> nat \<times> u32 list \<times> u16 list \<times> u32 list \<Rightarrow> tag_id list \<Rightarrow>
   u32 \<Rightarrow> u64 \<Rightarrow> int \<Rightarrow> query_placement \<Rightarrow> exact_store \<Rightarrow> (u32 \<times> exact_store) option" where
  "push_raw_placed rm fm req_tail forb_tail groups tags ver logical prio pl =
     push_raw_placed_with_source_generation rm fm req_tail forb_tail groups tags ver logical prio pl 0"

definition push_raw ::
  "u64 \<Rightarrow> u64 \<Rightarrow> u32 list \<Rightarrow> u32 list \<Rightarrow> nat \<times> nat \<times> u32 list \<times> u16 list \<times> u32 list \<Rightarrow> tag_id list \<Rightarrow>
   u32 \<Rightarrow> u64 \<Rightarrow> int \<Rightarrow> exact_store \<Rightarrow> (u32 \<times> exact_store) option" where
  "push_raw rm fm req_tail forb_tail groups tags ver logical prio =
     push_raw_placed rm fm req_tail forb_tail groups tags ver logical prio placement_standalone"

definition copy_entry :: "exact_store \<Rightarrow> u32 \<Rightarrow> exact_store \<Rightarrow> (u32 \<times> exact_store) option" where
  "copy_entry st row dest =
     (let i = unat row in do {
       rm \<leftarrow> at_index (req_mask st) i;
       fm \<leftarrow> at_index (forb_mask st) i;
       req \<leftarrow> read_req st i;
       forb \<leftarrow> read_forb st i;
       groups \<leftarrow> read_row_groups st i;
       words \<leftarrow> read_predicate st i;
       tags \<leftarrow> tags_of st row;
       ver \<leftarrow> at_index (version_col st) i;
       logical \<leftarrow> at_index (logical_col st) i;
       prio \<leftarrow> at_index (priority st) i;
       pl \<leftarrow> placement_of st row;
       gen \<leftarrow> at_index (source_generation st) i;
       Some (of_nat (length (req_mask dest)),
         push_identity ver logical prio gen (push_placement pl (push_tags tags
           (push_predicate_words words (push_groups groups (push_forb_tail forb (push_req_tail req
             (push_masks rm fm dest))))))))
     })"

definition max_source_generation :: "exact_store \<Rightarrow> u64" where
  "max_source_generation st = (if source_generation st = [] then 0 else Max (set (source_generation st)))"

definition trailing_zeros :: "u64 \<Rightarrow> nat" where
  "trailing_zeros w = length (takeWhile (\<lambda>n. \<not> bit w n) [0..<64])"

lemma clear_lowest_less:
  fixes w :: u64
  assumes "w \<noteq> 0"
  shows "w AND (w - 1) < w"
proof -
  have "0 < unat w" using assms by (simp add: unat_gt_0)
  then have "w - 1 < w" using assms by (simp add: word_less_nat_alt unat_minus_one)
  moreover have "w AND (w - 1) \<le> w - 1" by (rule word_and_le1)
  ultimately show ?thesis by simp
qed

function unmask :: "feature_id option list \<Rightarrow> u64 \<Rightarrow> feature_id list option" where
  "unmask mask_inv bits =
     (if bits = 0 then Some []
      else do {
        f \<leftarrow> at_index mask_inv (trailing_zeros bits);
        fs \<leftarrow> unmask mask_inv (bits AND (bits - 1));
        Some (case f of Some f \<Rightarrow> f # fs | None \<Rightarrow> fs)
      })"
  by pat_completeness auto
termination
  by (relation "measure (unat \<circ> snd)") (auto dest: clear_lowest_less simp: word_less_nat_alt)

definition anchoring_inputs ::
  "exact_store \<Rightarrow> u32 \<Rightarrow> feature_id option list \<Rightarrow> (feature_id list \<times> feature_id list list) option" where
  "anchoring_inputs st row mask_inv =
     (let i = unat row in do {
       bits \<leftarrow> at_index (req_mask st) i;
       masked \<leftarrow> unmask mask_inv bits;
       tail \<leftarrow> read_req st i;
       groups \<leftarrow> read_row_groups st i;
       Some (masked @ tail, groups)
     })"

end
