(* ===== verification/Exact_Rows.thy ===== *)
theory Exact_Rows
  imports Exact_Store
begin

text \<open>
  The exact store as a list of rows. \<open>store_rows\<close> abstracts the columns to one
  record per stored query; every writer (push, raw rebuild, compaction copy)
  appends exactly one row as long as the offset and length columns can hold it.
\<close>

section \<open>Rows\<close>

record stored_row =
  row_rmask :: u64
  row_fmask :: u64
  row_req :: "u32 list"
  row_forb :: "u32 list"
  row_groups :: "u32 list list"
  row_program :: "u32 list"
  row_tags :: "tag_id list"
  row_version :: u32
  row_logical :: u64
  row_priority :: int
  row_placement :: query_placement
  row_generation :: u64

definition read_row :: "exact_store \<Rightarrow> nat \<Rightarrow> stored_row option" where
  "read_row st i =
     do {
       rm \<leftarrow> at_index (req_mask st) i;
       fm \<leftarrow> at_index (forb_mask st) i;
       req \<leftarrow> read_req st i;
       forb \<leftarrow> read_forb st i;
       groups \<leftarrow> read_row_groups st i;
       words \<leftarrow> read_predicate st i;
       tags \<leftarrow> read_tags st i;
       ver \<leftarrow> at_index (version_col st) i;
       logical \<leftarrow> at_index (logical_col st) i;
       prio \<leftarrow> at_index (priority st) i;
       pl \<leftarrow> read_placement st i;
       gen \<leftarrow> at_index (source_generation st) i;
       Some \<lparr>row_rmask = rm, row_fmask = fm, row_req = req, row_forb = forb, row_groups = groups,
         row_program = words, row_tags = tags, row_version = ver, row_logical = logical, row_priority = prio,
         row_placement = pl, row_generation = gen\<rparr>
     }"

definition append_row :: "stored_row \<Rightarrow> exact_store \<Rightarrow> exact_store" where
  "append_row r st =
     push_identity (row_version r) (row_logical r) (row_priority r) (row_generation r)
       (push_placement (row_placement r) (push_tags (row_tags r) (push_predicate_words (row_program r)
       (push_groups (row_groups r) (push_forb_tail (row_forb r) (push_req_tail (row_req r)
       (push_masks (row_rmask r) (row_fmask r) st)))))))"

definition store_rows :: "exact_store \<Rightarrow> stored_row list" where
  "store_rows st = map (\<lambda>i. the (read_row st i)) [0..<store_len st]"

lemma read_row_Some_iff:
  "read_row st i = Some r \<longleftrightarrow>
     at_index (req_mask st) i = Some (row_rmask r) \<and> at_index (forb_mask st) i = Some (row_fmask r) \<and>
     read_req st i = Some (row_req r) \<and> read_forb st i = Some (row_forb r) \<and>
     read_row_groups st i = Some (row_groups r) \<and> read_predicate st i = Some (row_program r) \<and>
     read_tags st i = Some (row_tags r) \<and> at_index (version_col st) i = Some (row_version r) \<and>
     at_index (logical_col st) i = Some (row_logical r) \<and> at_index (priority st) i = Some (row_priority r) \<and>
     read_placement st i = Some (row_placement r) \<and> at_index (source_generation st) i = Some (row_generation r)"
  by (cases r) (auto simp: read_row_def bind_eq_Some_conv)

lemmas read_rowD = read_row_Some_iff [THEN iffD1]

section \<open>Writers append a row\<close>

definition row_of ::
  "extracted \<Rightarrow> tag_id list \<Rightarrow> dict \<Rightarrow> u32 \<Rightarrow> u64 \<Rightarrow> int \<Rightarrow> query_placement \<Rightarrow> u64 \<Rightarrow> stored_row" where
  "row_of ex tags d ver logical prio pl gen =
     \<lparr>row_rmask = mask_of d (required ex), row_fmask = mask_of d (forbidden ex), row_req = tail_of d (required ex),
      row_forb = tail_of d (forbidden ex), row_groups = anyof ex, row_program = program_words_of ex, row_tags = tags,
      row_version = ver, row_logical = logical, row_priority = prio, row_placement = pl, row_generation = gen\<rparr>"

lemma predicate_has_phrases_encoded:
  "predicate_has_phrases (encode_program p) \<longleftrightarrow> prog_phrases p \<noteq> None"
  by (auto simp: encode_program_def program_version_def version_defs is_phrasal_def split: option.splits)

lemma program_words_phrases:
  "predicate_has_phrases (program_words_of ex) \<longleftrightarrow> required_phrases ex \<noteq> [] \<or> forbidden_phrases ex \<noteq> []"
  by (auto simp: program_words_of_def predicate_has_phrases_encoded program_of_def needs_program_def)

lemma push_encoded_predicate_words: "push_encoded_predicate ex st = push_predicate_words (program_words_of ex) st"
  by (simp add: push_encoded_predicate_def push_predicate_words_def encode_predicate_eq program_words_phrases)

lemma push_appends:
  "push_with_source_generation ex tags d ver logical prio pl gen st =
     (of_nat (store_len st), append_row (row_of ex tags d ver logical prio pl gen) st)"
  by (simp add: push_with_source_generation_def append_row_def row_of_def store_len_def push_encoded_predicate_words)

lemma copy_appends:
  "copy_entry st row dest = map_option (\<lambda>r. (of_nat (store_len dest), append_row r dest)) (read_row st (unat row))"
  by (auto simp: copy_entry_def read_row_def append_row_def store_len_def tags_of_def placement_of_def
      Let_def map_option_bind comp_def intro!: Option.bind_cong [OF refl])

section \<open>One column\<close>

lemma at_index_length: "at_index (xs @ [x]) n = Some x" if "length xs = n"
  using that by (auto simp: at_index_def)

lemma at_index_old: "at_index xs i = Some x \<Longrightarrow> at_index (xs @ ys) i = Some x"
  by (rule at_index_append_left)

lemma column_run_new:
  fixes offs :: "'o::len word list" and lens :: "'l::len word list"
  assumes "length offs = n" "length lens = n" "length blob < 2 ^ LENGTH('o)" "length xs < 2 ^ LENGTH('l)"
  shows "column_run (offs @ [of_nat (length blob)] @ offs') (lens @ [of_nat (length xs)] @ lens') (blob @ xs @ blob') n =
    Some xs"
  using assms by (simp add: column_run_def at_index_def nth_append slice_def unat_of_nat take_bit_nat_eq_self)

lemma column_run_old:
  "column_run offs lens blob i = Some xs \<Longrightarrow> column_run (offs @ offs') (lens @ lens') (blob @ blob') i = Some xs"
  by (auto simp: column_run_def bind_eq_Some_conv at_index_append_left slice_append_left)

lemma read_groups_old:
  "read_groups offs lens blob gi n = Some gs \<Longrightarrow>
     read_groups (offs @ offs') (lens @ lens') (blob @ blob') gi n = Some gs"
  by (induction offs lens blob gi n arbitrary: gs rule: read_groups.induct)
    (auto simp: bind_eq_Some_conv column_run_old)

fun group_offsets :: "nat \<Rightarrow> u32 list list \<Rightarrow> u32 list" where
  "group_offsets b [] = []"
| "group_offsets b (g # gs) = of_nat b # group_offsets (b + length g) gs"

lemma fold_push_group:
  "fold push_group gs st = st\<lparr>group_off := group_off st @ group_offsets (length (anyof_blob st)) gs,
     group_len := group_len st @ map (\<lambda>g. of_nat (length g)) gs, anyof_blob := anyof_blob st @ concat gs\<rparr>"
  by (induction gs arbitrary: st) (simp_all add: push_group_def)

lemma length_group_offsets [simp]: "length (group_offsets b gs) = length gs"
  by (induction b gs rule: group_offsets.induct) simp_all

lemma read_groups_new:
  assumes "length offs = n" "length lens = n" "length blob + length (concat gs) < 2 ^ 32" "\<forall>g \<in> set gs. length g < 2 ^ 16"
  shows "read_groups (offs @ group_offsets (length blob) gs) (lens @ map (\<lambda>g. of_nat (length g)) gs)
    (blob @ concat gs) n (length gs) = Some gs"
  using assms
proof (induction gs arbitrary: offs lens blob n)
  case (Cons g gs)
  have "column_run (offs @ [of_nat (length blob)] @ group_offsets (length blob + length g) gs)
      (lens @ [of_nat (length g)] @ map (\<lambda>g. of_nat (length g)) gs) (blob @ g @ concat gs) n = Some g"
    using Cons.prems by (intro column_run_new) simp_all
  moreover have "read_groups ((offs @ [of_nat (length blob)]) @ group_offsets (length (blob @ g)) gs)
      ((lens @ [of_nat (length g)]) @ map (\<lambda>g. of_nat (length g)) gs) ((blob @ g) @ concat gs) (Suc n) (length gs) = Some gs"
    using Cons.prems by (intro Cons.IH) simp_all
  ultimately show ?case by simp
qed simp

section \<open>The store as a list of rows\<close>

text \<open>Per-row columns are as long as the store, and every row can be read.\<close>

definition columns_aligned :: "exact_store \<Rightarrow> bool" where
  "columns_aligned st \<longleftrightarrow>
     list_all (\<lambda>n. n = store_len st)
       [length (forb_mask st), length (req_off st), length (req_len st), length (forb_off st), length (forb_len st),
        length (q_group_start st), length (q_group_count st), length (predicate_off st), length (predicate_len st),
        length (tag_off st), length (tag_len st), length (priority st), length (placement_generation_col st),
        length (placement_num_shards_col st), length (placement_mode_col st), length (placement_off st),
        length (placement_len st), length (source_generation st), length (version_col st), length (logical_col st)] \<and>
     length (group_len st) = length (group_off st)"

definition store_inv :: "exact_store \<Rightarrow> bool" where
  "store_inv st \<longleftrightarrow> columns_aligned st \<and> list_all (\<lambda>i. read_row st i \<noteq> None) [0..<store_len st]"

text \<open>What the column widths can hold: 16-bit lengths, 32-bit offsets and program lengths.\<close>

definition row_fits :: "stored_row \<Rightarrow> bool" where
  "row_fits r \<longleftrightarrow>
     length (row_req r) < 2 ^ 16 \<and> length (row_forb r) < 2 ^ 16 \<and> length (row_groups r) < 2 ^ 16 \<and>
     list_all (\<lambda>g. length g < 2 ^ 16) (row_groups r) \<and> length (row_program r) < 2 ^ 32 \<and>
     length (row_tags r) < 2 ^ 16 \<and> length (placed_positions (row_placement r)) < 2 ^ 32"

definition store_room :: "stored_row \<Rightarrow> exact_store \<Rightarrow> bool" where
  "store_room r st \<longleftrightarrow> row_fits r \<and>
     length (req_blob st) < 2 ^ 32 \<and> length (forb_blob st) < 2 ^ 32 \<and> length (group_off st) < 2 ^ 32 \<and>
     length (anyof_blob st) + length (concat (row_groups r)) < 2 ^ 32 \<and> length (predicate_blob st) < 2 ^ 32 \<and>
     length (tag_blob st) < 2 ^ 32 \<and> length (placement_blob st) < 2 ^ 32"

lemmas push_defs = push_masks_def push_req_tail_def push_forb_tail_def push_groups_def fold_push_group
  push_predicate_words_def push_tags_def push_placement_def push_identity_def

lemma append_row_fields:
  "req_mask (append_row r st) = req_mask st @ [row_rmask r]"
  "forb_mask (append_row r st) = forb_mask st @ [row_fmask r]"
  "req_off (append_row r st) = req_off st @ [of_nat (length (req_blob st))]"
  "req_len (append_row r st) = req_len st @ [of_nat (length (row_req r))]"
  "req_blob (append_row r st) = req_blob st @ row_req r"
  "forb_off (append_row r st) = forb_off st @ [of_nat (length (forb_blob st))]"
  "forb_len (append_row r st) = forb_len st @ [of_nat (length (row_forb r))]"
  "forb_blob (append_row r st) = forb_blob st @ row_forb r"
  "q_group_start (append_row r st) = q_group_start st @ [of_nat (length (group_off st))]"
  "q_group_count (append_row r st) = q_group_count st @ [of_nat (length (row_groups r))]"
  "group_off (append_row r st) = group_off st @ group_offsets (length (anyof_blob st)) (row_groups r)"
  "group_len (append_row r st) = group_len st @ map (\<lambda>g. of_nat (length g)) (row_groups r)"
  "anyof_blob (append_row r st) = anyof_blob st @ concat (row_groups r)"
  "predicate_off (append_row r st) = predicate_off st @ [of_nat (length (predicate_blob st))]"
  "predicate_len (append_row r st) = predicate_len st @ [of_nat (length (row_program r))]"
  "predicate_blob (append_row r st) = predicate_blob st @ row_program r"
  "has_phrase_predicates (append_row r st) \<longleftrightarrow> has_phrase_predicates st \<or> predicate_has_phrases (row_program r)"
  "tag_off (append_row r st) = tag_off st @ [of_nat (length (tag_blob st))]"
  "tag_len (append_row r st) = tag_len st @ [of_nat (length (row_tags r))]"
  "tag_blob (append_row r st) = tag_blob st @ row_tags r"
  "priority (append_row r st) = priority st @ [row_priority r]"
  "source_generation (append_row r st) = source_generation st @ [row_generation r]"
  "version_col (append_row r st) = version_col st @ [row_version r]"
  "logical_col (append_row r st) = logical_col st @ [row_logical r]"
  by (simp_all add: append_row_def push_defs)

lemma append_row_placement_fields:
  "placement_off (append_row r st) = placement_off st @ [of_nat (length (placement_blob st))]"
  "placement_len (append_row r st) = placement_len st @ [of_nat (length (placed_positions (row_placement r)))]"
  "placement_blob (append_row r st) = placement_blob st @ placed_positions (row_placement r)"
  "placement_generation_col (append_row r st) = placement_generation_col st @ [placed_generation (row_placement r)]"
  "placement_num_shards_col (append_row r st) = placement_num_shards_col st @ [placed_shards (row_placement r)]"
  "placement_mode_col (append_row r st) = placement_mode_col st @ [mode_byte (placed_mode (row_placement r))]"
  by (simp_all add: append_row_def push_defs)

lemmas append_fields = append_row_fields append_row_placement_fields

lemma store_len_append [simp]: "store_len (append_row r st) = Suc (store_len st)"
  by (simp add: store_len_def append_fields)

lemma append_aligned: "columns_aligned st \<Longrightarrow> columns_aligned (append_row r st)"
  by (simp add: columns_aligned_def append_fields)

lemma append_row_old:
  assumes "read_row st i = Some q"
  shows "read_row (append_row r st) i = Some q"
proof -
  note q = read_rowD [OF assms]
  have "read_row_groups (append_row r st) i = Some (row_groups q)"
    using q by (auto simp: read_row_groups_def append_fields bind_eq_Some_conv at_index_old read_groups_old)
  moreover have "read_placement (append_row r st) i = Some (row_placement q)"
    using q by (auto simp: read_placement_def append_fields bind_eq_Some_conv at_index_old column_run_old)
  ultimately show ?thesis using q
    by (simp add: read_row_Some_iff read_req_def read_forb_def read_predicate_def read_tags_def append_fields
        at_index_old column_run_old)
qed

lemmas column_run_snoc = column_run_new [where offs' = "[]" and lens' = "[]" and blob' = "[]", simplified]

lemma append_row_new:
  assumes "columns_aligned st" "store_room r st"
  shows "read_row (append_row r st) (store_len st) = Some r"
proof -
  have len: "length (req_mask st) = store_len st" "length (forb_mask st) = store_len st"
    "length (req_off st) = store_len st" "length (req_len st) = store_len st" "length (forb_off st) = store_len st"
    "length (forb_len st) = store_len st" "length (q_group_start st) = store_len st"
    "length (q_group_count st) = store_len st" "length (predicate_off st) = store_len st"
    "length (predicate_len st) = store_len st" "length (tag_off st) = store_len st" "length (tag_len st) = store_len st"
    "length (priority st) = store_len st" "length (placement_generation_col st) = store_len st"
    "length (placement_num_shards_col st) = store_len st" "length (placement_mode_col st) = store_len st"
    "length (placement_off st) = store_len st" "length (placement_len st) = store_len st"
    "length (source_generation st) = store_len st" "length (version_col st) = store_len st"
    "length (logical_col st) = store_len st" "length (group_len st) = length (group_off st)"
    using assms(1) by (simp_all add: columns_aligned_def store_len_def)
  note room = assms(2) [unfolded store_room_def row_fits_def list_all_iff]
  have "read_row_groups (append_row r st) (store_len st) = Some (row_groups r)"
    using read_groups_new [OF refl, of "group_len st" "group_off st" "anyof_blob st" "row_groups r"] room len
    by (simp add: read_row_groups_def append_fields at_index_length unat_of_nat take_bit_nat_eq_self)
  moreover have "read_placement (append_row r st) (store_len st) = Some (row_placement r)"
    using column_run_snoc [of "placement_off st" "store_len st" "placement_len st" "placement_blob st"
        "placed_positions (row_placement r)"] room len
    by (cases "placed_mode (row_placement r)") (simp_all add: read_placement_def append_fields at_index_length stored_mode_def)
  moreover have "read_req (append_row r st) (store_len st) = Some (row_req r)"
    unfolding read_req_def append_fields using room len by (intro column_run_snoc) simp_all
  moreover have "read_forb (append_row r st) (store_len st) = Some (row_forb r)"
    unfolding read_forb_def append_fields using room len by (intro column_run_snoc) simp_all
  moreover have "read_predicate (append_row r st) (store_len st) = Some (row_program r)"
    unfolding read_predicate_def append_fields using room len by (intro column_run_snoc) simp_all
  moreover have "read_tags (append_row r st) (store_len st) = Some (row_tags r)"
    unfolding read_tags_def append_fields using room len by (intro column_run_snoc) simp_all
  ultimately show ?thesis by (simp add: read_row_Some_iff append_fields at_index_length len)
qed

lemma store_invD: "store_inv st \<Longrightarrow> i < store_len st \<Longrightarrow> read_row st i = Some (store_rows st ! i)"
  by (auto simp: store_inv_def list_all_iff store_rows_def)

lemma length_store_rows [simp]: "length (store_rows st) = store_len st"
  by (simp add: store_rows_def)

lemma append_row_inv:
  assumes "store_inv st" "store_room r st"
  shows "store_inv (append_row r st)" "store_rows (append_row r st) = store_rows st @ [r]"
proof -
  have aligned: "columns_aligned st" using assms(1) by (simp add: store_inv_def)
  have old: "read_row (append_row r st) i = Some (store_rows st ! i)" if "i < store_len st" for i
    using append_row_old [OF store_invD [OF assms(1) that]] .
  note new = append_row_new [OF aligned assms(2)]
  show "store_inv (append_row r st)"
    using old new append_aligned [OF aligned] by (auto simp: store_inv_def list_all_iff less_Suc_eq)
  have "map (\<lambda>i. the (read_row (append_row r st) i)) [0..<store_len st] = store_rows st"
    using old by (intro nth_equalityI) simp_all
  then show "store_rows (append_row r st) = store_rows st @ [r]" using new by (simp add: store_rows_def)
qed

lemma store_new_inv [simp]: "store_inv store_new" "store_rows store_new = []"
  by (simp_all add: store_inv_def columns_aligned_def store_new_def store_len_def store_rows_def)

lemma push_raw_appends:
  "push_raw_with_predicate rm fm req_tail forb_tail (gs, gc, offs, lens, blob) program tags ver logical prio pl gen st =
     map_option (\<lambda>groups. (of_nat (store_len st),
         append_row \<lparr>row_rmask = rm, row_fmask = fm, row_req = req_tail, row_forb = forb_tail, row_groups = groups,
           row_program = program, row_tags = tags, row_version = ver, row_logical = logical, row_priority = prio,
           row_placement = pl, row_generation = gen\<rparr> st))
       (read_groups offs lens blob gs gc)"
  by (simp add: push_raw_with_predicate_def append_row_def store_len_def)

section \<open>The contract of an append-only row log\<close>

locale row_log =
  fixes inv :: "'s \<Rightarrow> bool" and rows :: "'s \<Rightarrow> 'r list" and append_to :: "'r \<Rightarrow> 's \<Rightarrow> 's"
    and room :: "'r \<Rightarrow> 's \<Rightarrow> bool"
  assumes append_inv: "inv s \<Longrightarrow> room r s \<Longrightarrow> inv (append_to r s)"
    and append_rows: "inv s \<Longrightarrow> room r s \<Longrightarrow> rows (append_to r s) = rows s @ [r]"
begin

lemma append_all:
  assumes "inv s" "\<And>i. i < length rs \<Longrightarrow> room (rs ! i) (fold append_to (take i rs) s)"
  shows "inv (fold append_to rs s) \<and> rows (fold append_to rs s) = rows s @ rs"
  using assms(2)
proof (induction rs rule: rev_induct)
  case (snoc r rs)
  have "room (rs ! i) (fold append_to (take i rs) s)" if "i < length rs" for i
    using snoc.prems [of i] that by (simp add: nth_append)
  then have "inv (fold append_to rs s) \<and> rows (fold append_to rs s) = rows s @ rs" by (rule snoc.IH)
  moreover have "room r (fold append_to rs s)" using snoc.prems [of "length rs"] by (simp add: nth_append)
  ultimately show ?case by (simp add: append_inv append_rows)
qed (simp add: assms(1))

end

interpretation store_log: row_log store_inv store_rows append_row store_room
  by unfold_locales (simp_all add: append_row_inv)

end
