(* ===== verification/Exact_Verify.thy ===== *)
theory Exact_Verify
  imports Exact_Rows
begin

text \<open>
  What the verifiers of the exact store decide: the scalar verifier and its slice
  twin on a stored row, the columnar verifier and its batch pre-reject, equality
  of bodies, and the anchoring inputs that compaction reads back.
\<close>

section \<open>The scalar verifier on a row\<close>

definition row_flat :: "stored_row \<Rightarrow> title_view \<Rightarrow> bool" where
  "row_flat r view \<longleftrightarrow>
     row_rmask r AND pos_mask view = row_rmask r \<and> row_fmask r AND neg_mask view = 0 \<and>
     list_all (search_ok (view_pos view)) (row_req r) \<and> \<not> list_ex (search_ok (view_neg view)) (row_forb r) \<and>
     list_all (list_ex (search_ok (view_pos view))) (row_groups r)"

definition row_passes :: "stored_row \<Rightarrow> tag_predicate \<Rightarrow> bool" where
  "row_passes r pred \<longleftrightarrow> pred = [] \<or> tag_predicate_matches pred (row_tags r)"

lemma and_also_Some [simp]: "and_also (Some a) (Some b) = Some (a \<and> b)" "and_also (Some False) x = Some False"
  "and_also (Some True) x = x" "and_also None x = None"
  by (auto simp: and_also_def split: bool.split)

lemma groups_hit_read:
  "read_groups (group_off st) (group_len st) (anyof_blob st) gi n = Some gs \<Longrightarrow>
     groups_hit st has gi n = Some (list_all (list_ex has) gs)"
  by (induction st has gi n arbitrary: gs rule: groups_hit.induct) (auto simp: bind_eq_Some_conv read_group_def)

lemma row_groups_hit_read:
  "read_row_groups st i = Some gs \<Longrightarrow> row_groups_hit st has i = Some (list_all (list_ex has) gs)"
  by (auto simp: read_row_groups_def row_groups_hit_def bind_eq_Some_conv groups_hit_read)

lemma flat_gate_row:
  assumes "read_row st i = Some r"
  shows "flat_gate st i view = Some (row_flat r view)"
  using read_rowD [OF assms] row_groups_hit_read
  by (auto simp: flat_gate_def mask_gate_def row_flat_def and_also_def split: bool.split)

lemma tag_gate_row:
  assumes "read_row st i = Some r"
  shows "tag_gate st i pred = Some (row_passes r pred)"
  using read_rowD [OF assms]
  by (auto simp: tag_gate_def row_passes_def query_passes_tags_def read_tags_def column_run_def bind_eq_Some_conv)

lemma program_column_row:
  assumes "read_row st i = Some r"
  shows "slice (predicate_blob st) (column_or_zero (predicate_off st) i) (column_or_zero (predicate_len st) i) =
    Some (row_program r)"
  using read_rowD [OF assms] by (auto simp: read_predicate_def column_run_def column_or_zero_def bind_eq_Some_conv)

lemma slice_length: "slice xs off n = Some ys \<Longrightarrow> length ys = n"
  by (auto simp: slice_def split: if_splits)

lemma verify_slices_row:
  assumes "read_row st (unat row) = Some r"
  shows "verify_slices st row view pred =
    and_also (Some (row_flat r view)) (and_also (verify_predicate (row_program r) view) (Some (row_passes r pred)))"
  using program_column_row [OF assms] slice_length [OF program_column_row [OF assms]]
  by (simp add: verify_slices_def Let_def flat_gate_row [OF assms] tag_gate_row [OF assms])
    (auto simp: verify_predicate_def)

lemma store_verify_slices:
  assumes "read_row st (unat row) = Some r"
  shows "store_verify st row view pred = verify_slices st row view pred"
  using read_rowD [OF assms]
  by (auto simp: store_verify_def verify_slices_def Let_def read_predicate_def column_run_def column_or_zero_def
      bind_eq_Some_conv unat_eq_zero)

lemmas store_verify_row = store_verify_slices [THEN trans, OF _ verify_slices_row]

section \<open>A row of a compiled query\<close>

lemma bit_fold_mask:
  "bit (fold (\<lambda>f m. if mask_bit d f = NO_MASK_BIT then m else m OR mask_of_bit (mask_bit d f)) fs a) n \<longleftrightarrow>
     bit a n \<or> (n < 64 \<and> (\<exists>f \<in> set fs. mask_bit d f = n \<and> n \<noteq> NO_MASK_BIT))"
  by (induction fs arbitrary: a) (auto simp: bit_or_iff bit_mask_of_bit)

lemma bit_mask_of: "bit (mask_of d fs) n \<longleftrightarrow> n < 64 \<and> (\<exists>f \<in> set fs. mask_bit d f = n \<and> n \<noteq> NO_MASK_BIT)"
  by (simp add: mask_of_def bit_fold_mask)

lemma mask_bit_cases: "dict_inv d \<Longrightarrow> mask_bit d f = NO_MASK_BIT \<or> mask_bit d f < 64"
  by (auto simp: dict_inv_def mask_bits_ok_def mask_bit_def list_all_iff NO_MASK_BIT_def)
    (metis nth_mem linorder_neqE_nat not_le)

lemma mask_bit_in:
  assumes "dict_inv d" "mask_bit d f \<noteq> NO_MASK_BIT"
  shows "bit (mask_of d fs) (mask_bit d f) \<longleftrightarrow> f \<in> set fs"
  using assms mask_bit_cases [OF assms(1), of f] mask_bit_inj [OF assms(1)] by (auto simp: bit_mask_of)

lemma required_split:
  assumes "dict_inv d" "sorted pos"
  shows "(mask_of d fs AND title_mask d pos = mask_of d fs) \<and> list_all (search_ok pos) (tail_of d fs) \<longleftrightarrow>
    list_all (search_ok pos) fs"
proof -
  have "(mask_of d fs AND title_mask d pos = mask_of d fs) \<longleftrightarrow>
      (\<forall>f \<in> set fs. mask_bit d f \<noteq> NO_MASK_BIT \<longrightarrow> f \<in> set pos)"
    using mask_bit_in [OF assms(1)] mask_bit_cases [OF assms(1)]
    by (auto simp: mask_subset_iff title_mask_def bit_mask_of [of d fs]) blast+
  then show ?thesis using assms(2) by (auto simp: list_all_iff tail_of_def search_ok_iff)
qed

lemma forbidden_split:
  assumes "dict_inv d" "sorted neg"
  shows "(mask_of d fs AND title_mask d neg = 0) \<and> \<not> list_ex (search_ok neg) (tail_of d fs) \<longleftrightarrow>
    \<not> list_ex (search_ok neg) fs"
proof -
  have "(mask_of d fs AND title_mask d neg = 0) \<longleftrightarrow>
      (\<forall>f \<in> set fs. mask_bit d f \<noteq> NO_MASK_BIT \<longrightarrow> f \<notin> set neg)"
    using mask_bit_in [OF assms(1)] mask_bit_cases [OF assms(1)]
    by (auto simp: mask_disjoint_iff title_mask_def bit_mask_of [of d fs]) blast+
  then show ?thesis using assms(2) by (auto simp: list_ex_iff tail_of_def search_ok_iff)
qed

text \<open>The view of a title: its masks are those of its features.\<close>

lemma row_flat_of:
  assumes "dict_inv d" "sorted (view_pos view)" "sorted (view_neg view)"
    and "pos_mask view = title_mask d (view_pos view)" "neg_mask view = title_mask d (view_neg view)"
  shows "row_flat (row_of ex tags d ver logical prio pl gen) view \<longleftrightarrow>
    list_all (search_ok (view_pos view)) (required ex) \<and> \<not> list_ex (search_ok (view_neg view)) (forbidden ex) \<and>
    list_all (list_ex (search_ok (view_pos view))) (anyof ex)"
  using required_split [OF assms(1,2), of "required ex"] forbidden_split [OF assms(1,3), of "forbidden ex"]
  by (auto simp: row_flat_def row_of_def assms(4,5))

lemma verify_program_words:
  assumes "column_overflow ex = None" "wf_extracted ex"
  shows "verify_predicate (program_words_of ex) (view_dual_positioned probe pm pos pp pa pc nm neg np na Free) =
    Some (matches_positioned (ex\<lparr>required := [], forbidden := [], anyof := []\<rparr>) pos neg pp pa pc np na)"
proof (cases "needs_program ex")
  case True
  then show ?thesis
    using verify_program [OF usable_program_of [OF assms]] program_matches_of [OF refl]
    by (simp add: program_words_of_def)
next
  case False
  then show ?thesis using program_words_of_trivial by (simp add: program_words_of_def verify_predicate_def)
qed

lemma matches_positioned_split:
  "matches_positioned ex pos neg pp pa pc np na \<longleftrightarrow>
     list_all (search_ok pos) (required ex) \<and> \<not> list_ex (search_ok neg) (forbidden ex) \<and>
     list_all (list_ex (search_ok pos)) (anyof ex) \<and>
     matches_positioned (ex\<lparr>required := [], forbidden := [], anyof := []\<rparr>) pos neg pp pa pc np na"
  by (auto simp: matches_positioned_def matches_flat_features_def)

lemma row_fits_of:
  assumes "column_overflow ex = None" "length (program_words_of ex) < 2 ^ 32" "length tags < 2 ^ 16"
    "length (placed_positions pl) < 2 ^ 32"
  shows "row_fits (row_of ex tags d ver logical prio pl gen)"
proof -
  have "length (required ex) < 2 ^ 16" "length (forbidden ex) < 2 ^ 16" "length (anyof ex) < 2 ^ 16"
    "\<forall>g \<in> set (anyof ex). length g < 2 ^ 16"
    using assms(1)
    by (auto simp: column_overflow_def u16_ceiling_def find_None_iff split: if_splits option.splits)
  moreover have "length (tail_of d fs) \<le> length fs" for fs by (simp add: tail_of_def)
  ultimately show ?thesis
    using assms(2-4) le_less_trans by (fastforce simp: row_fits_def row_of_def list_all_iff)
qed

end
