(* ===== verification/Exact_Batch.thy ===== *)
theory Exact_Batch
  imports Exact_Verify
begin

text \<open>
  The columnar verifier: each clause narrows the bitmap of titles still alive, and
  the result is, bit by bit, what the scalar verifier decides.
\<close>

section \<open>Narrowing steps\<close>

text \<open>
  A step narrows the accumulator to the titles with \<open>P\<close>; it may return early
  only when no title is left.
\<close>

definition narrows :: "nat \<Rightarrow> (nat \<Rightarrow> bool) \<Rightarrow> u64 list \<Rightarrow> u64 list + u64 list \<Rightarrow> bool" where
  "narrows n P acc r \<longleftrightarrow> (\<exists>a. length a = n \<and> (\<forall>t. bit_at a t \<longleftrightarrow> bit_at acc t \<and> P t) \<and>
     (r = Inr a \<or> r = Inl a \<and> (\<forall>t. \<not> bit_at a t)))"

lemma narrowsI:
  "length a = n \<Longrightarrow> (\<And>t. bit_at a t \<longleftrightarrow> bit_at acc t \<and> P t) \<Longrightarrow> r = Inr a \<or> r = Inl a \<and> (\<forall>t. \<not> bit_at a t) \<Longrightarrow>
     narrows n P acc r"
  by (auto simp: narrows_def)

lemma narrows_cong: "narrows n P acc r \<Longrightarrow> (\<And>t. bit_at acc t \<Longrightarrow> P t \<longleftrightarrow> Q t) \<Longrightarrow> narrows n Q acc r"
  unfolding narrows_def by blast

lemma narrows_bits:
  assumes "length acc = n" "length keep = n"
  shows "narrows n (bit_at keep) acc (narrow_bits acc keep)"
proof (rule narrowsI [where a = "zip_into (AND) acc keep"])
  show "bit_at (zip_into (AND) acc keep) t \<longleftrightarrow> bit_at acc t \<and> bit_at keep t" for t
    using assms by (simp add: bit_at_zip_into)
qed (use assms in \<open>simp_all add: narrow_bits_def Let_def any_nonzero_iff\<close>)

text \<open>The same with the panic value around it; the next step runs unless the first one returned early.\<close>

definition narrows_opt :: "nat \<Rightarrow> (nat \<Rightarrow> bool) \<Rightarrow> u64 list \<Rightarrow> (u64 list + u64 list) option \<Rightarrow> bool" where
  "narrows_opt n P acc r \<longleftrightarrow> (\<exists>x. r = Some x \<and> narrows n P acc x)"

lemma narrows_opt_Some [simp]: "narrows_opt n P acc (Some x) \<longleftrightarrow> narrows n P acc x"
  by (simp add: narrows_opt_def)

lemma narrows_andthen:
  assumes "narrows_opt n P acc r"
    and "\<And>a. length a = n \<Longrightarrow> (\<And>t. bit_at a t \<Longrightarrow> bit_at acc t) \<Longrightarrow> narrows_opt n Q a (k a)"
  shows "narrows_opt n (\<lambda>t. P t \<and> Q t) acc (andthen r k)"
proof -
  obtain x a where x: "r = Some x" and a: "length a = n" "\<forall>t. bit_at a t \<longleftrightarrow> bit_at acc t \<and> P t"
    and "x = Inr a \<or> x = Inl a \<and> (\<forall>t. \<not> bit_at a t)"
    using assms(1) by (auto simp: narrows_opt_def narrows_def)
  then show ?thesis
  proof (elim disjE conjE)
    assume "x = Inr a"
    moreover have "narrows_opt n Q a (k a)" using a by (intro assms(2)) auto
    ultimately show ?thesis using x a(2) by (auto simp: narrows_opt_def narrows_def)
  next
    assume "x = Inl a" "\<forall>t. \<not> bit_at a t"
    then show ?thesis using x a by (auto intro!: narrowsI [of a])
  qed
qed

lemma narrows_try_fold:
  assumes "\<And>x a. x \<in> set xs \<Longrightarrow> length a = n \<Longrightarrow> narrows n (P x) a (f x a)" "length acc = n"
  shows "narrows n (\<lambda>t. \<forall>x \<in> set xs. P x t) acc (try_fold f xs acc)"
  using assms
proof (induction xs arbitrary: acc)
  case (Cons x xs)
  have "narrows_opt n (\<lambda>t. P x t \<and> (\<forall>y \<in> set xs. P y t)) acc (andthen (Some (f x acc)) (\<lambda>a. Some (try_fold f xs a)))"
    using Cons.prems by (intro narrows_andthen) (simp_all add: Cons.IH)
  then show ?case by (simp add: andthen_def split: sum.splits)
qed (auto intro: narrowsI)

section \<open>The clauses\<close>

lemma bit_at_update:
  assumes "t div 64 < length acc"
  shows "bit_at (acc[t div 64 := acc ! (t div 64) OR mask_of_bit (t mod 64)]) u \<longleftrightarrow> bit_at acc u \<or> u = t"
proof -
  have "u = t \<longleftrightarrow> u div 64 = t div 64 \<and> u mod 64 = t mod 64" by (metis div_mult_mod_eq)
  then show ?thesis using assms
    by (auto simp: bit_at_def nth_list_update bit_or_iff bit_mask_of_bit)
qed

lemma gate_loop_bits:
  assumes "t + length tms \<le> 64 * length acc"
  shows "\<exists>a. gate_loop rm fm t tms acc = Some a \<and> length a = length acc \<and>
    (\<forall>u. bit_at a u \<longleftrightarrow> bit_at acc u \<or>
      (t \<le> u \<and> u < t + length tms \<and> rm AND tms ! (u - t) = rm \<and> fm AND tms ! (u - t) = 0))"
  using assms
proof (induction tms arbitrary: t acc)
  case (Cons tm tms)
  have range: "t div 64 < length acc" using Cons.prems by (simp add: less_mult_imp_div_less mult.commute)
  have split: "(t \<le> u \<and> u < t + length (tm # tms) \<and> Q ((tm # tms) ! (u - t))) \<longleftrightarrow>
      u = t \<and> Q tm \<or> (Suc t \<le> u \<and> u < Suc t + length tms \<and> Q (tms ! (u - Suc t)))" for u Q
    by (cases "u = t") (auto simp: nth_Cons' not_less_eq_eq le_Suc_eq)
  show ?case
  proof (cases "rm AND tm = rm \<and> fm AND tm = 0")
    case True
    then show ?thesis
      using Cons.IH [of "Suc t" "acc[t div 64 := acc ! (t div 64) OR mask_of_bit (t mod 64)]"] Cons.prems range
        split [where Q = "\<lambda>m. rm AND m = rm \<and> fm AND m = 0"] bit_at_update [OF range]
      by (auto simp: at_index_def)
  next
    case False
    then show ?thesis
      using Cons.IH [of "Suc t" acc] Cons.prems split [where Q = "\<lambda>m. rm AND m = rm \<and> fm AND m = 0"] by auto
  qed
qed auto

lemma narrows_required:
  assumes "bitmaps_of_length n look" "length acc = n"
  shows "narrows n (\<lambda>t. present look t f) acc (batch_required look f acc)"
proof (cases "look f")
  case None
  then show ?thesis
    using assms by (intro narrowsI [of "fill 0 acc"]) (simp_all add: batch_required_def present_def)
next
  case (Some bm)
  moreover have "length bm = n" using assms(1) Some by (simp add: bitmaps_of_length_def)
  ultimately show ?thesis using narrows_bits [OF assms(2), of bm] by (simp add: batch_required_def present_def)
qed

lemma narrows_forbidden:
  assumes "bitmaps_of_length n look" "length acc = n"
  shows "narrows n (\<lambda>t. \<not> present look t f) acc (batch_forbidden look f acc)"
proof (cases "look f")
  case None
  then show ?thesis using assms by (intro narrowsI [of acc]) (simp_all add: batch_forbidden_def present_def)
next
  case (Some bm)
  have len: "length bm = n" using assms(1) Some by (simp add: bitmaps_of_length_def)
  have "narrows n (bit_at (map NOT bm)) acc (narrow_bits acc (map NOT bm))"
    using len by (intro narrows_bits assms) simp
  then show ?thesis using Some len assms(2)
    by (simp add: batch_forbidden_def present_def) (erule narrows_cong, auto simp: bit_at_def bit_not_iff)
qed

lemma narrows_group:
  assumes "bitmaps_of_length n look" "length acc = n" "length grp = n"
  shows "narrows n (\<lambda>t. list_ex (present look t) g) acc (narrow_bits acc (fold (or_bitmap look) g (fill 0 grp)))"
proof -
  have bits: "length (fold (or_bitmap look) g (fill 0 grp)) = n"
    "bit_at (fold (or_bitmap look) g (fill 0 grp)) t \<longleftrightarrow> list_ex (present look t) g" for t
    using or_bitmaps [of "fill 0 grp" look g t] assms(1,3) by simp_all
  show ?thesis by (rule narrows_cong [OF narrows_bits [OF assms(2) bits(1)]]) (simp add: bits(2))
qed

lemma narrows_anyof:
  assumes "bitmaps_of_length n look" "length grp = n"
    and "read_groups (group_off st) (group_len st) (anyof_blob st) gi k = Some gs" "length acc = n"
  shows "narrows_opt n (\<lambda>t. \<forall>g \<in> set gs. list_ex (present look t) g) acc (batch_anyof st look grp gi k acc)"
  using assms(3,4)
proof (induction k arbitrary: gi gs acc)
  case 0
  then show ?case by (auto intro!: narrowsI [of acc])
next
  case (Suc k)
  then obtain g gs' where g: "gs = g # gs'" "read_group st gi = Some g"
    "read_groups (group_off st) (group_len st) (anyof_blob st) (Suc gi) k = Some gs'"
    by (auto simp: bind_eq_Some_conv read_group_def)
  have "narrows_opt n (\<lambda>t. list_ex (present look t) g \<and> (\<forall>g \<in> set gs'. list_ex (present look t) g)) acc
      (andthen (Some (narrow_bits acc (fold (or_bitmap look) g (fill 0 grp)))) (batch_anyof st look grp (Suc gi) k))"
    using narrows_group [OF assms(1) Suc.prems(2) assms(2)] Suc.IH [OF g(3)] by (intro narrows_andthen) simp_all
  then show ?case by (simp add: g andthen_def)
qed

lemma narrows_row_anyof:
  assumes "bitmaps_of_length n look" "length grp = n" "read_row_groups st i = Some gs" "length acc = n"
  shows "narrows_opt n (\<lambda>t. \<forall>g \<in> set gs. list_ex (present look t) g) acc (batch_row_anyof st look grp i acc)"
  using assms narrows_anyof [OF assms(1,2) _ assms(4)]
  by (auto simp: read_row_groups_def batch_row_anyof_def bind_eq_Some_conv)

section \<open>The whole row\<close>

text \<open>A stored program is validated before it is used; its words have 32-bit lengths.\<close>

definition row_validated :: "stored_row \<Rightarrow> bool" where
  "row_validated r \<longleftrightarrow> length (row_program r) < 2 ^ 64 \<and> validate_predicate (row_program r) = Some (Inr ())"

lemma narrows_program:
  assumes "length words < 2 ^ 64" "validate_predicate words = Some (Inr ())" "\<not> predicate_has_phrases words"
    and "bitmaps_of_length n look" "length acc = n" "length grp = n" "length member = n" "length choice = n"
    and "\<And>t f. bit_at acc t \<Longrightarrow> present look t f \<longleftrightarrow> search_ok (feats t) f"
  shows "narrows_opt n (\<lambda>t. verify_predicate words (view_single (m t) (feats t)) = Some True) acc
    (map_option Inr (eval_predicate_batch words look acc grp member choice))"
  using assms(1,2)
proof (rule validated_cases)
  assume "words = []"
  then show ?thesis using assms(5) by (auto simp: verify_predicate_def eval_predicate_batch_def intro!: narrowsI [of acc])
next
  fix p
  assume p: "usable_program p" "words = encode_program p"
  then have "sized_program p" by (simp add: usable_program_def)
  moreover have "program_matches p (view_single (m t) (feats t)) \<longleftrightarrow>
      groups_match (search_ok (feats t)) (prog_groups p) \<and> negatives_match (search_ok (feats t)) (prog_negatives p)" for t
    using assms(3) by (cases "prog_phrases p")
      (simp_all add: program_matches_def view_single_def p(2) predicate_has_phrases_encoded)
  moreover have "present look t = search_ok (feats t)" if "bit_at acc t" for t using assms(9) that by blast
  ultimately show ?thesis
    using eval_program [OF _ assms(4-8), of p] p(2) verify_program [OF p(1)] by (auto simp: narrows_opt_def narrows_def)
qed

lemma narrows_flat:
  assumes "read_row st i = Some r" "bitmaps_of_length n look" "length grp = n" "length acc = n"
    and "\<And>a. length a = n \<Longrightarrow> (\<And>t. bit_at a t \<Longrightarrow> bit_at acc t) \<Longrightarrow> narrows_opt n Q a (k a)"
  shows "narrows_opt n (\<lambda>t. (\<forall>f \<in> set (row_req r). present look t f) \<and>
      (\<forall>f \<in> set (row_forb r). \<not> present look t f) \<and> (\<forall>g \<in> set (row_groups r). list_ex (present look t) g) \<and> Q t) acc
    (andthen (map_option (\<lambda>fs. try_fold (batch_required look) fs acc) (read_req st i)) (\<lambda>a.
     andthen (map_option (\<lambda>fs. try_fold (batch_forbidden look) fs a) (read_forb st i)) (\<lambda>a.
     andthen (batch_row_anyof st look grp i a) k)))"
proof -
  note cols = read_rowD [OF assms(1)]
  have req: "narrows_opt n (\<lambda>t. \<forall>f \<in> set (row_req r). present look t f) acc
      (map_option (\<lambda>fs. try_fold (batch_required look) fs acc) (read_req st i))"
    using cols narrows_try_fold [of "row_req r", OF narrows_required [OF assms(2)] assms(4)] by simp
  have forb: "narrows_opt n (\<lambda>t. \<forall>f \<in> set (row_forb r). \<not> present look t f) a
      (map_option (\<lambda>fs. try_fold (batch_forbidden look) fs a) (read_forb st i))" if "length a = n" for a
    using cols narrows_try_fold [of "row_forb r", OF narrows_forbidden [OF assms(2)] that] by simp
  have anyof: "narrows_opt n (\<lambda>t. \<forall>g \<in> set (row_groups r). list_ex (present look t) g) a (batch_row_anyof st look grp i a)"
    if "length a = n" for a using narrows_row_anyof [OF assms(2,3) _ that] cols by blast
  show ?thesis by (intro narrows_andthen req forb anyof assms(5)) blast+
qed

lemma batch_clauses_row:
  assumes "read_row st i = Some r" "row_validated r" "\<not> predicate_has_phrases (row_program r)"
    and "bitmaps_of_length n look" "length acc = n" "length grp = n" "length member = n" "length choice = n"
    and "length tmasks \<le> 64 * n"
    and "\<And>t f. t < length tmasks \<Longrightarrow> present look t f \<longleftrightarrow> search_ok (feats t) f"
  shows "\<exists>x a. batch_clauses st i tmasks look acc grp member choice (row_program r) = Some x \<and>
    (x = Inl a \<or> x = Inr a) \<and> length a = n \<and>
    (\<forall>t. bit_at a t \<longleftrightarrow> t < length tmasks \<and> row_flat r (view_single (tmasks ! t) (feats t)) \<and>
      verify_predicate (row_program r) (view_single (tmasks ! t) (feats t)) = Some True)"
proof -
  note cols = read_rowD [OF assms(1)]
  obtain gated where gated: "gate_loop (row_rmask r) (row_fmask r) 0 tmasks (fill 0 acc) = Some gated" "length gated = n"
    "\<And>t. bit_at gated t \<longleftrightarrow> t < length tmasks \<and> row_rmask r AND tmasks ! t = row_rmask r \<and> row_fmask r AND tmasks ! t = 0"
    using gate_loop_bits [of 0 tmasks "fill 0 acc" "row_rmask r" "row_fmask r"] assms(5,9) by auto
  have same: "present look t f \<longleftrightarrow> search_ok (feats t) f" if "bit_at gated t" for t f
    using that assms(10) by (simp add: gated(3))
  let ?V = "\<lambda>t. verify_predicate (row_program r) (view_single (tmasks ! t) (feats t)) = Some True"
  have prog: "narrows_opt n ?V a (if row_program r = [] then Some (Inr a)
      else map_option Inr (eval_predicate_batch (row_program r) look a grp member choice))"
    if "length a = n" "\<And>t. bit_at a t \<Longrightarrow> bit_at gated t" for a
    using narrows_program [OF _ _ assms(3,4) that(1) assms(6-8), of feats "\<lambda>t. tmasks ! t"] assms(2) that same
    by (auto simp: row_validated_def verify_predicate_def intro!: narrowsI [of a])
  have "narrows_opt n (\<lambda>t. (\<forall>f \<in> set (row_req r). present look t f) \<and> (\<forall>f \<in> set (row_forb r). \<not> present look t f) \<and>
      (\<forall>g \<in> set (row_groups r). list_ex (present look t) g) \<and> ?V t) gated
      (batch_clauses st i tmasks look acc grp member choice (row_program r))"
    using narrows_flat [OF assms(1,4,6) gated(2), where Q = ?V, OF prog] cols gated(1)
    by (simp add: batch_clauses_def)
  then obtain x a where a: "batch_clauses st i tmasks look acc grp member choice (row_program r) = Some x"
    "x = Inl a \<or> x = Inr a" "length a = n" "\<And>t. bit_at a t \<longleftrightarrow> bit_at gated t \<and>
      (\<forall>f \<in> set (row_req r). present look t f) \<and> (\<forall>f \<in> set (row_forb r). \<not> present look t f) \<and>
      (\<forall>g \<in> set (row_groups r). list_ex (present look t) g) \<and> ?V t"
    by (auto simp: narrows_opt_def narrows_def)
  have "bit_at a t \<longleftrightarrow> t < length tmasks \<and> row_flat r (view_single (tmasks ! t) (feats t)) \<and> ?V t" for t
    using assms(10) [of t] by (auto simp: a(4) gated(3) row_flat_def view_single_def list_all_iff list_ex_iff)
  then show ?thesis using a(1-3) by blast
qed

end
