(* ===== verification/Exact_Properties.thy ===== *)
theory Exact_Properties
  imports Exact_Batch
begin

text \<open>
  The properties of the exact store: its writers refine appending a row, its
  verifiers decide the compiled query, equal bodies match alike, and compaction
  recovers the anchoring inputs.
\<close>

section \<open>Clearing bits\<close>

lemma odd_minus_one: "u - 1 = u AND NOT 1" if "bit u 0" for u :: u64
proof -
  have "(u AND NOT 1) + 1 = (u AND NOT 1) OR 1"
    by (rule disjunctive_add) (auto simp: bit_simps)
  also have "\<dots> = u" using that by (intro bit_eqI) (auto simp: bit_simps)
  finally have "u = (u AND NOT 1) + 1" by (rule sym)
  then show ?thesis by (metis add_diff_cancel_right')
qed

lemma trailing_zeros_bit:
  assumes "w \<noteq> 0"
  shows "bit w (trailing_zeros w) \<and> (\<forall>n < trailing_zeros w. \<not> bit w n)"
proof -
  obtain b where "bit w b" using assms by (auto simp: bit_eq_iff)
  then have ex: "\<exists>n \<in> set [0..<64]. bit w n" using bit_u64_bound by auto
  have less: "trailing_zeros w < 64"
  proof (rule ccontr)
    assume "\<not> trailing_zeros w < 64"
    then have "takeWhile (\<lambda>n. \<not> bit w n) [0..<64] = [0..<64]"
      using takeWhile_eq_take [of "\<lambda>n. \<not> bit w n" "[0..<64]"] by (simp add: trailing_zeros_def)
    then show False using ex unfolding takeWhile_eq_all_conv by blast
  qed
  then have "bit w ([0..<64] ! trailing_zeros w)"
    using nth_length_takeWhile [of "\<lambda>n. \<not> bit w n" "[0..<64]"] by (simp add: trailing_zeros_def)
  moreover have "\<not> bit w n" if "n < trailing_zeros w" for n
    using takeWhile_nth [of n "\<lambda>n. \<not> bit w n" "[0..<64]"] set_takeWhileD [of n "\<lambda>n. \<not> bit w n" "[0..<64]"] that less
    by (metis add_0 nth_mem nth_upt order_less_trans trailing_zeros_def)
  ultimately show ?thesis using less by simp
qed

lemma bit_clear_lowest:
  fixes w :: u64
  assumes "w \<noteq> 0"
  shows "bit (w AND (w - 1)) n \<longleftrightarrow> bit w n \<and> n \<noteq> trailing_zeros w"
proof -
  let ?k = "trailing_zeros w"
  define u where "u = drop_bit ?k w"
  have k: "bit w ?k" "\<And>n. n < ?k \<Longrightarrow> \<not> bit w n" using trailing_zeros_bit [OF assms] by auto
  have w: "w = push_bit ?k u"
  proof (rule bit_eqI)
    show "bit w n \<longleftrightarrow> bit (push_bit ?k u) n" if "possible_bit TYPE(u64) n" for n
      using that k(2) [of n] by (cases "?k \<le> n") (auto simp: u_def bit_simps)
  qed
  have "bit u 0" using k(1) by (simp add: u_def bit_simps)
  then have "u - 1 = u AND NOT 1" by (rule odd_minus_one)
  then have u: "bit (u - 1) m \<longleftrightarrow> bit w (?k + m) \<and> m \<noteq> 0" for m
    using bit_u64_bound [of w "?k + m"] by (auto simp: u_def bit_and_iff bit_not_iff bit_drop_bit_eq bit_1_iff add.commute)
  have "w - 1 = push_bit ?k (u - 1) + mask ?k"
    by (subst w) (simp add: push_bit_eq_mult mask_eq_exp_minus_1 algebra_simps)
  also have "\<dots> = push_bit ?k (u - 1) OR mask ?k"
    by (rule disjunctive_add) (auto simp: bit_simps)
  finally have "bit (w - 1) n \<longleftrightarrow> n < 64 \<and> (n < ?k \<or> ?k < n \<and> bit w n)"
    using bit_u64_bound [of w n] by (auto simp: bit_or_iff bit_push_bit_iff bit_mask_iff u)
  then show ?thesis using k bit_u64_bound [of w n] by (auto simp: bit_and_iff)
qed

declare unmask.simps [simp del]

lemma unmask_set:
  assumes "length tbl = 64"
  shows "\<exists>fs. unmask tbl bits = Some fs \<and> set fs = {f. \<exists>b. bit bits b \<and> tbl ! b = Some f}"
  using assms
proof (induction tbl bits rule: unmask.induct)
  case (1 tbl bits)
  show ?case
  proof (cases "bits = 0")
    case True
    then show ?thesis by (simp add: unmask.simps)
  next
    case False
    let ?k = "trailing_zeros bits"
    have k: "bit bits ?k" using trailing_zeros_bit [OF False] by simp
    then have at: "at_index tbl ?k = Some (tbl ! ?k)" using bit_u64_bound 1(2) by (simp add: at_index_def)
    obtain fs where fs: "unmask tbl (bits AND (bits - 1)) = Some fs"
      "set fs = {f. \<exists>b. (bit bits b \<and> b \<noteq> ?k) \<and> tbl ! b = Some f}"
      using 1(1) [OF False at 1(2)] by (auto simp: bit_clear_lowest [OF False])
    then have "unmask tbl bits = Some (case tbl ! ?k of Some f \<Rightarrow> f # fs | None \<Rightarrow> fs)"
      using False at by (simp add: unmask.simps [of tbl bits])
    then show ?thesis using fs(2) k by (auto split: option.split)
  qed
qed

text \<open>The mask bits and the tail of the required features together give the set back.\<close>

lemma unmask_required:
  assumes "dict_inv d"
  shows "\<exists>fs'. unmask (mask_inverse d) (mask_of d fs) = Some fs' \<and> set (fs' @ tail_of d fs) = set fs"
proof -
  have "length (mask_inverse d) = 64" by (simp add: mask_inverse_def)
  then obtain fs' where fs': "unmask (mask_inverse d) (mask_of d fs) = Some fs'"
    "set fs' = {f. \<exists>b. bit (mask_of d fs) b \<and> mask_inverse d ! b = Some f}" using unmask_set by blast
  have "(bit (mask_of d fs) b \<and> mask_inverse d ! b = Some f) \<longleftrightarrow>
      b < 64 \<and> mask_bit d f = b \<and> f \<in> set fs" for b f
    using mask_inverse_nth [OF assms, of b f] mask_bit_in [OF assms, of f fs] bit_u64_bound [of "mask_of d fs" b]
    by (auto simp: NO_MASK_BIT_def)
  then have "set fs' = {f \<in> set fs. mask_bit d f < 64}" unfolding fs'(2) by auto
  then have "set (fs' @ tail_of d fs) = set fs"
    using mask_bit_cases [OF assms] by (auto simp: tail_of_def NO_MASK_BIT_def)
  then show ?thesis using fs'(1) by blast
qed

section \<open>Equal bodies\<close>

lemma sort_eq_set: "sort xs = sort ys \<Longrightarrow> set xs = set ys"
  by (metis set_sort)

lemma canonical_groups_hit:
  assumes "sort (map sort gs) = sort (map sort hs)"
  shows "list_all (list_ex has) gs \<longleftrightarrow> list_all (list_ex has) hs"
proof -
  have "list_all (list_ex has) gs \<longleftrightarrow> (\<forall>g \<in> set (map sort gs). list_ex has g)" for gs :: "'a::linorder list list"
    by (auto simp: list_all_iff list_ex_iff)
  then show ?thesis using sort_eq_set [OF assms] by presburger
qed

lemma same_Some: "same a b = Some True \<longleftrightarrow> (\<exists>x. a = Some x \<and> b = Some x)"
  by (auto simp: same_def bind_eq_Some_conv)

lemma and_also_True: "and_also a b = Some True \<longleftrightarrow> a = Some True \<and> b = Some True"
  by (auto simp: and_also_def split: option.splits bool.splits)

lemma bodies_equalD:
  assumes "read_row st (unat a) = Some r" "read_row st (unat b) = Some q" "bodies_equal st a b = Some True"
  shows "row_rmask r = row_rmask q" "row_fmask r = row_fmask q" "sort (row_req r) = sort (row_req q)"
    "sort (row_forb r) = sort (row_forb q)" "sort (map sort (row_groups r)) = sort (map sort (row_groups q))"
    "predicate_boolean_program (row_program r) = predicate_boolean_program (row_program q)"
  using read_rowD [OF assms(1)] read_rowD [OF assms(2)] assms(3)
  by (auto simp: bodies_equal_def Let_def and_also_True same_Some canonical_groups_def bind_eq_Some_conv)

lemma column_run_length:
  "column_run offs lens blob i = Some xs \<Longrightarrow> \<exists>n. at_index lens i = Some n \<and> unat n = length xs"
  by (auto simp: column_run_def bind_eq_Some_conv slice_length)

lemma read_groups_length: "read_groups offs lens blob gi n = Some gs \<Longrightarrow> length gs = n"
  by (induction offs lens blob gi n arbitrary: gs rule: read_groups.induct) (auto simp: bind_eq_Some_conv)

lemma read_row_lengths:
  assumes "read_row st i = Some r"
  shows "\<exists>n. at_index (req_len st) i = Some n \<and> unat n = length (row_req r)"
    "\<exists>n. at_index (forb_len st) i = Some n \<and> unat n = length (row_forb r)"
    "\<exists>n. at_index (q_group_count st) i = Some n \<and> unat n = length (row_groups r)"
  using read_rowD [OF assms]
  by (auto simp: read_req_def read_forb_def read_row_groups_def bind_eq_Some_conv read_groups_length
      dest: column_run_length)

text \<open>Rows of the same query are recognised, whatever tags, version and ids they carry.\<close>

lemma bodies_equalI:
  assumes "read_row st (unat a) = Some r" "read_row st (unat b) = Some q"
    and "row_rmask r = row_rmask q" "row_fmask r = row_fmask q" "row_req r = row_req q" "row_forb r = row_forb q"
    and "row_groups r = row_groups q" "row_program r = row_program q" "predicate_boolean_program (row_program r) = Some p"
  shows "bodies_equal st a b = Some True"
  using read_rowD [OF assms(1)] read_rowD [OF assms(2)] read_row_lengths [OF assms(1)] read_row_lengths [OF assms(2)] assms(3-)
  by (auto simp: bodies_equal_def Let_def and_also_True same_Some canonical_groups_def word_unat_eq_iff)

lemma row_flat_bodies:
  assumes "row_rmask r = row_rmask q" "row_fmask r = row_fmask q" "sort (row_req r) = sort (row_req q)"
    "sort (row_forb r) = sort (row_forb q)" "sort (map sort (row_groups r)) = sort (map sort (row_groups q))"
  shows "row_flat r view \<longleftrightarrow> row_flat q view"
  using assms(1,2) sort_eq_set [OF assms(3)] sort_eq_set [OF assms(4)] canonical_groups_hit [OF assms(5)]
  by (simp add: row_flat_def list_all_iff list_ex_iff)

lemma body_signature_row:
  assumes "read_row st (unat a) = Some r"
  shows "body_signature st a = map_option (\<lambda>prog. fold mix (body_words (row_rmask r) (row_fmask r) (sort (row_req r))
      (sort (row_forb r)) (sort (map sort (row_groups r))) prog) (fnv1a64 (map (of_nat \<circ> of_char) ''body'')))
    (predicate_boolean_program (row_program r))"
  using read_rowD [OF assms]
  by (cases "predicate_boolean_program (row_program r)") (simp_all add: body_signature_def Let_def canonical_groups_def)

section \<open>Properties\<close>

text \<open>
  C15: The writers of the exact store refine appending one row to a list of rows.
  Pushing a compiled query, copying an entry of another store and rebuilding a
  row from raw columns keep every column aligned and every row readable, leave
  the earlier rows as they were, and add exactly the given row, whose id is the
  former number of rows.
\<close>
theorem store_writes_refine:
  assumes "store_inv st"
  shows "(store_room (row_of ex tags d ver logical prio pl gen) st \<longrightarrow>
      (case push_with_source_generation ex tags d ver logical prio pl gen st of (row, st') \<Rightarrow>
        row = of_nat (length (store_rows st)) \<and> store_inv st' \<and>
        store_rows st' = store_rows st @ [row_of ex tags d ver logical prio pl gen])) \<and>
    (store_inv src \<and> unat row < store_len src \<and> store_room (store_rows src ! unat row) st \<longrightarrow>
      (\<exists>st'. copy_entry src row st = Some (of_nat (length (store_rows st)), st') \<and> store_inv st' \<and>
        store_rows st' = store_rows st @ [store_rows src ! unat row])) \<and>
    (store_room \<lparr>row_rmask = rm, row_fmask = fm, row_req = rq, row_forb = fb, row_groups = gs, row_program = ws,
          row_tags = tags, row_version = ver, row_logical = logical, row_priority = prio, row_placement = pl,
          row_generation = gen\<rparr> st \<and> read_groups offs lens blob g0 k = Some gs \<longrightarrow>
      (\<exists>st'. push_raw_with_predicate rm fm rq fb (g0, k, offs, lens, blob) ws tags ver logical prio pl gen st =
          Some (of_nat (length (store_rows st)), st') \<and> store_inv st' \<and>
        store_rows st' = store_rows st @ [\<lparr>row_rmask = rm, row_fmask = fm, row_req = rq, row_forb = fb, row_groups = gs,
          row_program = ws, row_tags = tags, row_version = ver, row_logical = logical, row_priority = prio,
          row_placement = pl, row_generation = gen\<rparr>]))"
  using store_log.append_inv [OF assms] store_log.append_rows [OF assms]
  by (auto simp: push_appends copy_appends push_raw_appends store_invD)

lemma sample_room: "store_room (row_of sample_compound [4] dict_new 1 77 0 placement_standalone 9) store_new"
proof -
  have "row_fits (row_of sample_compound [4] dict_new 1 77 0 placement_standalone 9)"
    by (intro row_fits_of sample_compound_ok) (simp_all add: sample_compound_words placement_standalone_def)
  then show ?thesis by (simp add: store_room_def store_new_def row_of_def sample_compound_simps)
qed

theorem store_writes_refine_witness:
  "store_rows (snd (push_with_source_generation sample_compound [4] dict_new 1 77 0 placement_standalone 9 store_new)) =
     [row_of sample_compound [4] dict_new 1 77 0 placement_standalone 9]"
  using conjunct1 [OF store_writes_refine [OF store_new_inv(1),
      of sample_compound "[4]" dict_new 1 77 0 placement_standalone 9]] sample_room
  by (simp add: case_prod_beta)

text \<open>
  C14: Verification of a stored row is exact. For a query pushed under a
  dictionary, and a title view whose mask words are those of its sorted feature
  lists, the scalar verifier never panics and accepts exactly when the title
  satisfies the compiled query and the row passes the tag filter; the slice
  kernel that mapped segments share agrees with it on every view.
\<close>
theorem store_verify_exact:
  assumes "store_inv st" "unat row < store_len st"
    and "store_rows st ! unat row = row_of ex tags d ver logical prio pl gen"
    and "dict_inv d" "column_overflow ex = None" "wf_extracted ex" "sorted pos" "sorted neg"
  shows "store_verify st row
      (view_dual_positioned probe (title_mask d pos) pos pp pa pc (title_mask d neg) neg np na Free) pred =
      Some (matches_positioned ex pos neg pp pa pc np na \<and> (pred = [] \<or> tag_predicate_matches pred tags)) \<and>
    verify_slices st row view pred = store_verify st row view pred"
proof -
  let ?view = "view_dual_positioned probe (title_mask d pos) pos pp pa pc (title_mask d neg) neg np na Free"
  have row: "read_row st (unat row) = Some (row_of ex tags d ver logical prio pl gen)"
    using store_invD [OF assms(1,2)] assms(3) by simp
  have "row_flat (row_of ex tags d ver logical prio pl gen) ?view \<longleftrightarrow>
      list_all (search_ok pos) (required ex) \<and> \<not> list_ex (search_ok neg) (forbidden ex) \<and>
      list_all (list_ex (search_ok pos)) (anyof ex)"
    using row_flat_of [OF assms(4), of ?view ex tags ver logical prio pl gen] assms(7,8)
    by (simp add: view_dual_positioned_def)
  then show ?thesis
    using store_verify_row [OF row row] store_verify_slices [OF row] matches_positioned_split [of ex]
      verify_program_words [OF assms(5,6)]
    by (auto simp: row_of_def row_passes_def)
qed

definition sample_store :: exact_store where
  "sample_store = snd (push_with_source_generation sample_compound [4] dict_new 1 77 0 placement_standalone 9 store_new)"

lemma sample_stored:
  "store_inv sample_store" "unat (0 :: u32) < store_len sample_store"
  "store_rows sample_store ! unat (0 :: u32) = row_of sample_compound [4] dict_new 1 77 0 placement_standalone 9"
  using append_row_inv [OF store_new_inv(1) sample_room]
  by (simp_all add: sample_store_def push_appends)

theorem store_verify_exact_witness:
  "store_verify sample_store 0
     (view_dual_positioned [1, 2, 5] (title_mask dict_new [1, 2, 5]) [1, 2, 5] 0 [] True
       (title_mask dict_new [1, 2, 5]) [1, 2, 5] 0 [] Free) [[4]] = Some True"
proof -
  have "matches_positioned sample_compound [1, 2, 5] [1, 2, 5] 0 [] True 0 []"
    by (simp add: sample_compound_simps matches_positioned_def matches_flat_features_def search_ok_iff)
  moreover have "tag_predicate_matches [[4]] [4]" by (simp add: tag_matches_iff)
  ultimately show ?thesis
    using store_verify_exact [OF sample_stored dict_inv_new sample_compound_ok,
        where pos = "[1, 2, 5]" and neg = "[1, 2, 5]" and probe = "[1, 2, 5]" and pp = 0 and pa = "[]" and pc = True
          and np = 0 and na = "[]" and pred = "[[4]]"]
    by simp
qed

text \<open>
  C16: The columnar verifier is the transpose of the scalar one. On a row with a
  validated program it never panics; a row with quoted graphs is refused with a
  cleared bitmap, and otherwise the bit of a title is set exactly when the scalar
  verifier accepts the row on that title. The batch pre-reject is sound: when it
  fails, no title of the batch matches.
\<close>
theorem eval_batch_transposes_verify:
  assumes "store_inv st" "unat row < store_len st" "row_validated (store_rows st ! unat row)"
    and "bitmaps_of_length n look" "length acc = n" "length grp = n" "length member = n" "length choice = n"
    and "length tmasks \<le> 64 * n"
    and "\<And>t f. t < length tmasks \<Longrightarrow> present look t f \<longleftrightarrow> search_ok (feats t) f"
    and "\<And>t f. t < length tmasks \<Longrightarrow> search_ok (feats t) f \<Longrightarrow> occurs f"
    and "\<And>t. t < length tmasks \<Longrightarrow> tmasks ! t AND union_mask = tmasks ! t"
  shows "(if predicate_has_phrases (row_program (store_rows st ! unat row))
      then store_eval_batch st row tmasks look acc grp member choice pred = Some (Inl PositionedPredicate, replicate n 0)
      else \<exists>acc'. store_eval_batch st row tmasks look acc grp member choice pred = Some (Inr (), acc') \<and> length acc' = n \<and>
        (\<forall>t. bit_at acc' t \<longleftrightarrow> t < length tmasks \<and>
          store_verify st row (view_single (tmasks ! t) (feats t)) pred = Some True)) \<and>
    (can_match_batch st row union_mask occurs = Some False \<longrightarrow>
      (\<forall>t < length tmasks. store_verify st row (view_single (tmasks ! t) (feats t)) pred \<noteq> Some True))"
proof -
  let ?r = "store_rows st ! unat row"
  note r = store_invD [OF assms(1,2)]
  note verify = store_verify_row [OF r r]
  have batch: "\<exists>acc'. store_eval_batch st row tmasks look acc grp member choice pred = Some (Inr (), acc') \<and> length acc' = n \<and>
      (\<forall>t. bit_at acc' t \<longleftrightarrow> t < length tmasks \<and> store_verify st row (view_single (tmasks ! t) (feats t)) pred = Some True)"
    if "\<not> predicate_has_phrases (row_program ?r)"
    using batch_clauses_row [OF r assms(3) that assms(4-9), of feats] assms(5,10) that
    by (auto simp: store_eval_batch_def eval_batch_slices_def program_column_row [OF r] tag_gate_row [OF r] verify
        and_also_True)
  have "\<not> row_flat ?r (view_single (tmasks ! t) (feats t))"
    if "can_match_batch st row union_mask occurs = Some False" "t < length tmasks" for t
  proof
    assume flat: "row_flat ?r (view_single (tmasks ! t) (feats t))"
    have "row_rmask ?r AND union_mask = row_rmask ?r"
      using flat assms(12) [OF that(2)] by (auto simp: row_flat_def view_single_def mask_subset_iff)
    moreover have "list_all occurs (row_req ?r)" "list_all (list_ex occurs) (row_groups ?r)"
      using flat assms(11) [OF that(2)]
      by (fastforce simp: row_flat_def view_single_def list_all_iff list_ex_iff)+
    ultimately show False
      using that(1) read_rowD [OF r] row_groups_hit_read by (simp add: can_match_batch_def prefilter_slices_def)
  qed
  then show ?thesis
    using batch assms(5)
    by (auto simp: store_eval_batch_def eval_batch_slices_def program_column_row [OF r] verify and_also_True fill_def)
qed

lemma sample_validated: "row_validated (row_of sample_compound tags d ver logical prio pl gen)"
proof -
  have "validate_predicate [] = Some (Inr ())" by (simp add: validate_predicate_def)
  then have "validate_predicate (program_words_of sample_compound) = Some (Inr ())"
    using validate_sound [OF sample_compound_valid(2,1)] by (simp add: program_words_of_def)
  moreover have "length (program_words_of sample_compound) < 2 ^ 64" by (simp add: sample_compound_words)
  ultimately show ?thesis by (simp add: row_validated_def row_of_def)
qed

lemma sample_verifies:
  "store_verify sample_store 0
     (view_single 0 [1, 2, 5]) [[4]] = Some True"
proof -
  let ?r = "row_of sample_compound [4] dict_new 1 77 0 placement_standalone 9"
  note row = store_invD [OF sample_stored(1,2), unfolded sample_stored(3)]
  have "row_flat ?r (view_single 0 [1, 2, 5])"
    by (simp add: row_flat_def row_of_def view_single_def sample_compound_simps mask_of_def tail_of_def mask_bit_def
        dict_new_def search_ok_iff)
  moreover have "row_passes ?r [[4]]" by (simp add: row_passes_def row_of_def tag_matches_iff)
  moreover have "verify_predicate (row_program ?r) (view_single 0 [1, 2, 5]) = Some True"
  proof -
    have "program_matches (program_of sample_compound) (view_single 0 [1, 2, 5])"
      by (simp add: sample_compound_program program_matches_def view_single_def groups_match_def member_matches_def
          negatives_match_def search_ok_iff)
    then show ?thesis
      using verify_program [OF usable_program_of [OF sample_compound_ok]]
      by (simp add: row_of_def program_words_of_def verify_predicate_def [of "[]"])
  qed
  ultimately show ?thesis
    unfolding store_verify_row [OF row row] by simp
qed

theorem eval_batch_transposes_verify_witness:
  "\<exists>acc'. store_eval_batch
      sample_store 0 [0]
      (\<lambda>f. if f \<in> {1, 2, 5} then Some [1] else None) [0] [0] [0] [0] [[4]] = Some (Inr (), acc') \<and> bit_at acc' 0"
proof -
  let ?look = "\<lambda>f :: u32. if f \<in> {1, 2, 5} then Some [1 :: u64] else None"
  have plain: "\<not> predicate_has_phrases (row_program (store_rows sample_store ! unat (0 :: u32)))"
    unfolding sample_stored(3) by (simp add: row_of_def program_words_phrases sample_compound_simps)
  have "row_validated (store_rows sample_store ! unat (0 :: u32))" unfolding sample_stored(3) by (rule sample_validated)
  note exact = conjunct1 [OF eval_batch_transposes_verify [OF sample_stored(1,2) this, where n = 1 and look = ?look
      and acc = "[0]" and grp = "[0]" and member = "[0]" and choice = "[0]" and tmasks = "[0]"
      and feats = "\<lambda>_. [1, 2, 5]" and occurs = "\<lambda>f. f \<in> {1, 2, 5}" and union_mask = 0 and pred = "[[4]]"]]
  have "bitmaps_of_length 1 ?look" by (auto simp: bitmaps_of_length_def split: if_splits)
  then have "\<exists>acc'. store_eval_batch sample_store 0 [0] ?look [0] [0] [0] [0] [[4]] = Some (Inr (), acc') \<and> length acc' = 1 \<and>
      (\<forall>t. bit_at acc' t \<longleftrightarrow> t < length [0] \<and> store_verify sample_store 0 (view_single ([0] ! t) [1, 2, 5]) [[4]] = Some True)"
    using exact plain by (auto simp: present_def bit_at_def search_ok_iff)
  then show ?thesis using sample_verifies by auto
qed

text \<open>
  C17: Deduplication by body is sound and complete up to its definition. Rows whose
  canonical bodies are equal have the same body signature, so a bucket by
  signature never separates them, and the verifier gives them the same answer on
  every title view, whatever their tags, versions and ranking words.
\<close>
theorem bodies_equal_same_answers:
  assumes "store_inv st" "unat a < store_len st" "unat b < store_len st"
    and "row_validated (store_rows st ! unat a)" "row_validated (store_rows st ! unat b)"
    and "bodies_equal st a b = Some True"
  shows "store_verify st a view [] = store_verify st b view [] \<and> body_signature st a = body_signature st b \<and>
    body_signature st a \<noteq> None"
proof -
  note ra = store_invD [OF assms(1,2)] and rb = store_invD [OF assms(1,3)]
  note eq = bodies_equalD [OF ra rb assms(6)]
  have "verify_predicate (row_program (store_rows st ! unat a)) view = verify_predicate (row_program (store_rows st ! unat b)) view"
    "predicate_boolean_program (row_program (store_rows st ! unat a)) \<noteq> None"
    using validated_boolean [of "row_program (store_rows st ! unat a)" view]
      validated_boolean [of "row_program (store_rows st ! unat b)" view] assms(4,5) eq(6)
    by (auto simp: row_validated_def)
  then show ?thesis
    using store_verify_row [OF ra ra] store_verify_row [OF rb rb] row_flat_bodies [OF eq(1-5)]
      body_signature_row [OF ra] body_signature_row [OF rb] eq
    by (auto simp: row_passes_def)
qed

definition sample_pair :: exact_store where
  "sample_pair = append_row (row_of sample_compound [6] dict_new 2 78 5 placement_standalone 10)
     (append_row (row_of sample_compound [4] dict_new 1 77 0 placement_standalone 9) store_new)"

lemma sample_pair_rows:
  "store_inv sample_pair" "store_rows sample_pair = [row_of sample_compound [4] dict_new 1 77 0 placement_standalone 9,
     row_of sample_compound [6] dict_new 2 78 5 placement_standalone 10]"
proof -
  let ?st = "append_row (row_of sample_compound [4] dict_new 1 77 0 placement_standalone 9) store_new"
  have fields: "required sample_compound = [5]" "forbidden sample_compound = []" "anyof sample_compound = [[1, 3]]"
    by (simp_all add: sample_compound_simps)
  have "row_fits (row_of sample_compound [6] dict_new 2 78 5 placement_standalone 10)"
    by (intro row_fits_of sample_compound_ok) (simp_all add: sample_compound_words placement_standalone_def)
  then have "store_room (row_of sample_compound [6] dict_new 2 78 5 placement_standalone 10) ?st"
    by (simp add: store_room_def append_fields store_new_def row_of_def fields sample_compound_words
        placement_standalone_def tail_of_def)
  from append_row_inv [OF append_row_inv(1) [OF store_new_inv(1) sample_room] this]
    append_row_inv(2) [OF store_new_inv(1) sample_room]
  show "store_inv sample_pair" "store_rows sample_pair = [row_of sample_compound [4] dict_new 1 77 0 placement_standalone 9,
      row_of sample_compound [6] dict_new 2 78 5 placement_standalone 10]"
    by (simp_all add: sample_pair_def)
qed

theorem bodies_equal_same_answers_witness:
  "body_signature sample_pair 0 = body_signature sample_pair 1 \<and> body_signature sample_pair 0 \<noteq> None"
proof -
  have len: "unat (0 :: u32) < store_len sample_pair" "unat (1 :: u32) < store_len sample_pair"
    using arg_cong [OF sample_pair_rows(2), of length] by simp_all
  have valid: "row_validated (store_rows sample_pair ! unat (0 :: u32))" "row_validated (store_rows sample_pair ! unat (1 :: u32))"
    by (simp_all add: sample_pair_rows(2) sample_validated)
  obtain p where "predicate_boolean_program (program_words_of sample_compound) = Some p"
    using validated_boolean [of "program_words_of sample_compound" "view_single 0 []"] sample_validated
    by (auto simp: row_validated_def row_of_def)
  then have "bodies_equal sample_pair 0 1 = Some True"
    by (intro bodies_equalI [OF store_invD [OF sample_pair_rows(1) len(1)] store_invD [OF sample_pair_rows(1) len(2)]])
      (simp_all add: sample_pair_rows(2) row_of_def)
  then show ?thesis using bodies_equal_same_answers [OF sample_pair_rows(1) len valid] by blast
qed

text \<open>
  Compaction can plan a row again from its columns: reading the mask word
  through the inverse of the frozen mask and appending the tail gives exactly the
  required features of the compiled query, and the any-of groups come back as
  they were.
\<close>
theorem anchoring_inputs_recovered:
  assumes "store_inv st" "unat row < store_len st"
    and "store_rows st ! unat row = row_of ex tags d ver logical prio pl gen" "dict_inv d"
  shows "\<exists>req. anchoring_inputs st row (mask_inverse d) = Some (req, anyof ex) \<and> set req = set (required ex)"
proof -
  have row: "read_row st (unat row) = Some (row_of ex tags d ver logical prio pl gen)"
    using store_invD [OF assms(1,2)] assms(3) by simp
  obtain fs where "unmask (mask_inverse d) (mask_of d (required ex)) = Some fs"
    "set (fs @ tail_of d (required ex)) = set (required ex)"
    using unmask_required [OF assms(4)] by blast
  then show ?thesis using read_rowD [OF row]
    by (intro exI [of _ "fs @ tail_of d (required ex)"]) (simp add: anchoring_inputs_def row_of_def)
qed

theorem anchoring_inputs_recovered_witness:
  "\<exists>req. anchoring_inputs
      sample_store 0
      (mask_inverse dict_new) = Some (req, [[1, 3]]) \<and> set req = {5}"
  using anchoring_inputs_recovered [OF sample_stored dict_inv_new] by (simp add: sample_compound_simps)

end
