(* ===== verification/Query_Extraction_Correct.thy ===== *)
theory Query_Extraction_Correct
  imports Query_Extraction
begin

text \<open>
  What the extraction guarantees: the read-only pass and the interning pass both compute a
  query whose semantic predicate is the meaning of the syntax tree, and equivalence expansion
  is idempotent and only widens what a query accepts.
\<close>

section \<open>Meaning of a tree\<close>

definition ast_matches :: "normalizer \<Rightarrow> dict \<Rightarrow> ast \<Rightarrow> feature_id list \<Rightarrow> feature_id list \<Rightarrow>
    u32 \<Rightarrow> position_arc list \<Rightarrow> bool \<Rightarrow> u32 \<Rightarrow> position_arc list \<Rightarrow> bool" where
  "ast_matches norm d a pos neg pp pa pc np na \<longleftrightarrow>
     clauses_ok (\<lambda>t. compile_features_readonly norm t d) (\<lambda>t. compile_phrase_readonly norm t d)
       (dict_equivalences d) (set pos) (set neg)
       (\<lambda>p. phrase_graph_matches_bounded p pp pa pc \<noteq> Some False)
       (\<lambda>p. phrase_graph_matches_bounded p np na True = Some True) [] (clauses a)"

lemma extract_readonly_sat:
  assumes "eqv_ok (dict_equivalences d)" "\<And>t. arcs_valid (query_arcs_readonly norm t d)"
  shows "wf_extracted (extract_readonly a norm d) \<and>
    (sat [] P N rp fp (extract_readonly a norm d) \<longleftrightarrow>
     clauses_ok (\<lambda>t. compile_features_readonly norm t d) (\<lambda>t. compile_phrase_readonly norm t d)
       (dict_equivalences d) P N rp fp [] (clauses a))"
proof -
  obtain ws ex where f: "fold (extract_clause_readonly norm d) (clauses a) ([], empty_extracted) = (ws, ex)"
    by fastforce
  note s = extract_clauses_readonly_sat [OF f sat_empty(2) assms(2)]
  let ?ex = "ex\<lparr>required := sort_dedup (flush_positive_run_readonly norm ws d (required ex)),
                 forbidden := sort_dedup (forbidden ex)\<rparr>"
  have wf: "wf_extracted ?ex" using s by (simp add: wf_extracted_def)
  have "extract_readonly a norm d = expand_equivalences (dict_equivalences d) ?ex"
    by (simp add: extract_readonly_def f)
  then show ?thesis
    using wf_expand [OF assms(1) wf] sat_expand [OF assms(1) wf] s
    by (simp add: sat_sorted sat_flush)
qed

section \<open>The interning extraction\<close>

text \<open>
  A dictionary grows when it only gains names. The interning calls of the normalizer return
  features of the grown dictionary, and the read-only calls return the same on every later
  dictionary.
\<close>

definition dict_grows :: "dict \<Rightarrow> dict \<Rightarrow> bool" where
  "dict_grows d d' \<longleftrightarrow> id_map d \<subseteq>\<^sub>m id_map d' \<and> length (freqs d) \<le> length (freqs d') \<and> equivs d' = equivs d"

definition ids_in_range :: "dict \<Rightarrow> bool" where
  "ids_in_range d \<longleftrightarrow> length (freqs d) = length (names d) \<and>
     (\<forall>n i. id_map d n = Some i \<longrightarrow> unat i < length (freqs d))"

definition interns_features :: "normalizer \<Rightarrow> bool" where
  "interns_features norm \<longleftrightarrow> (\<forall>t d fs d'. ids_in_range d \<and> compile_features norm t d = (fs, d') \<longrightarrow>
     ids_in_range d' \<and> dict_grows d d' \<and> (\<forall>f \<in> set fs. unat f < length (freqs d')) \<and>
     (\<forall>d''. dict_grows d' d'' \<longrightarrow> compile_features_readonly norm t d'' = fs))"

definition interns_arcs :: "normalizer \<Rightarrow> bool" where
  "interns_arcs norm \<longleftrightarrow> (\<forall>t d r d'. ids_in_range d \<and> query_arcs norm t d = (r, d') \<longrightarrow>
     ids_in_range d' \<and> dict_grows d d' \<and> arcs_valid r \<and>
     (\<forall>a \<in> set (snd r). unat (pa_feature a) < length (freqs d')) \<and>
     (\<forall>d''. dict_grows d' d'' \<longrightarrow> query_arcs_readonly norm t d'' = r))"

lemma dict_grows_refl [simp]: "dict_grows d d"
  by (simp add: dict_grows_def)

lemma dict_grows_trans: "dict_grows a b \<Longrightarrow> dict_grows b c \<Longrightarrow> dict_grows a c"
  by (auto simp: dict_grows_def intro: map_le_trans)

lemma bump_freq_total:
  assumes "ids_in_range d" "unat f < length (freqs d)"
  shows "\<exists>d'. bump_freq f d = Some d' \<and> ids_in_range d' \<and> dict_grows d d' \<and> dict_grows d' d \<and>
    length (freqs d') = length (freqs d)"
  using assms by (auto simp: bump_freq_def ids_in_range_def dict_grows_def)

lemma bump_all_total:
  assumes "ids_in_range d" "\<forall>f \<in> set fs. unat f < length (freqs d)"
  shows "\<exists>d'. bump_all fs d = Some d' \<and> dict_grows d d'"
  using assms
proof (induction fs arbitrary: d)
  case (Cons f fs)
  obtain d1 where d1: "bump_freq f d = Some d1" "ids_in_range d1" "dict_grows d d1"
    "length (freqs d1) = length (freqs d)"
    using bump_freq_total [of d f] Cons.prems by auto
  then obtain d2 where "bump_all fs d1 = Some d2" "dict_grows d1 d2"
    using Cons.IH [of d1] Cons.prems(2) by auto
  then show ?case using d1 dict_grows_trans by auto
qed simp

text \<open>Every feature a compiled query may bump is interned.\<close>

definition in_range :: "nat \<Rightarrow> extracted \<Rightarrow> bool" where
  "in_range n ex \<longleftrightarrow> (\<forall>f \<in> set (required ex). unat f < n) \<and>
     (\<forall>g \<in> set (anyof ex). \<forall>f \<in> set g. unat f < n) \<and>
     (\<forall>p \<in> set (required_phrases ex). \<forall>f \<in> set (phrase_proxy p). unat f < n)"

lemma in_range_mono: "in_range n ex \<Longrightarrow> n \<le> m \<Longrightarrow> in_range m ex"
  unfolding in_range_def by (meson less_le_trans)

lemma frequency_features_in_range: "in_range n ex \<Longrightarrow> \<forall>f \<in> set (frequency_features ex). unat f < n"
  by (auto simp: in_range_def frequency_features_def)

lemma set_phrase_proxy: "set (phrase_proxy p) = (\<lambda>(s, e, f). f) ` edges (arcs p)"
  by (force simp: phrase_proxy_def edges_def)

abbreviation features_at :: "normalizer \<Rightarrow> dict \<Rightarrow> rstring \<Rightarrow> feature_id list" where
  "features_at norm d \<equiv> (\<lambda>t. compile_features_readonly norm t d)"

abbreviation phrase_at :: "normalizer \<Rightarrow> dict \<Rightarrow> rstring \<Rightarrow> phrase_graph" where
  "phrase_at norm d \<equiv> (\<lambda>t. compile_phrase_readonly norm t d)"

text \<open>A step from \<open>d\<close> to \<open>d'\<close> that returned features \<open>fs\<close>.\<close>

definition interned :: "dict \<Rightarrow> dict \<Rightarrow> feature_id set \<Rightarrow> bool" where
  "interned d d' S \<longleftrightarrow> ids_in_range d' \<and> dict_grows d d' \<and> (\<forall>f \<in> S. unat f < length (freqs d'))"

lemma interned_trans:
  assumes "interned d d1 S" "interned d1 d2 T" shows "interned d d2 (S \<union> T)"
proof -
  have "length (freqs d1) \<le> length (freqs d2)" using assms(2) by (simp add: interned_def dict_grows_def)
  then show ?thesis using assms dict_grows_trans unfolding interned_def by (metis Un_iff less_le_trans)
qed

lemma compile_features_interned:
  assumes "interns_features norm" "ids_in_range d" "compile_features norm t d = (fs, d')"
  shows "interned d d' (set fs)" "dict_grows d' D \<Longrightarrow> features_at norm D t = fs"
  using assms unfolding interns_features_def interned_def by blast+

lemma flush_interned:
  assumes "interns_features norm" "ids_in_range d" "flush_positive_run norm ws d req = (req', d')"
  shows "\<exists>fs. req' = req @ fs \<and> interned d d' (set fs) \<and>
    (\<forall>D. dict_grows d' D \<longrightarrow> flush_positive_run_readonly norm ws D req = req @ fs)"
proof (cases "ws = []")
  case True
  then show ?thesis using assms
    by (simp add: flush_positive_run_def flush_positive_run_readonly_def interned_def)
next
  case False
  obtain fs d1 where c: "compile_features norm (join_words ws) d = (fs, d1)" by fastforce
  then have "req' = req @ fs" "d' = d1" using assms(3) False by (simp_all add: flush_positive_run_def)
  then show ?thesis using compile_features_interned [OF assms(1,2) c] False
    by (simp add: flush_positive_run_readonly_def)
qed

lemma compile_members_interned:
  assumes "interns_features norm" "ids_in_range d" "compile_members norm ms d = (fss, d')"
  shows "interned d d' (\<Union>(set ` set fss)) \<and> (\<forall>D. dict_grows d' D \<longrightarrow> map (features_at norm D) ms = fss)"
  using assms(2,3)
proof (induction ms arbitrary: d fss)
  case Nil
  then show ?case by (simp add: interned_def)
next
  case (Cons m ms)
  obtain fs d1 where c: "compile_features norm m d = (fs, d1)" by fastforce
  obtain rest d2 where r: "compile_members norm ms d1 = (rest, d2)" by fastforce
  have out: "fss = fs # rest" "d' = d2" using Cons.prems(2) c r by simp_all
  note ci = compile_features_interned [OF assms(1) Cons.prems(1) c]
  have "ids_in_range d1" using ci(1) by (simp add: interned_def)
  note ih = Cons.IH [OF this r [folded out(2)]]
  then have grows: "dict_grows d1 d'" by (simp add: interned_def)
  have "interned d d' (set fs \<union> \<Union>(set ` set rest))" using interned_trans [OF ci(1)] ih by blast
  moreover have "map (features_at norm D) (m # ms) = fss" if "dict_grows d' D" for D
    using ci(2) [OF dict_grows_trans [OF grows that]] ih that out(1) by simp
  ultimately show ?case using out(1) by simp
qed

lemma compile_phrase_interned:
  assumes "interns_arcs norm" "ids_in_range d" "compile_phrase norm t d = (p, d')"
  shows "interned d d' (set (phrase_proxy p))" "arcs p \<noteq> [] \<Longrightarrow> wf_graph p"
    "dict_grows d' D \<Longrightarrow> phrase_at norm D t = p"
proof -
  obtain n as where q: "query_arcs norm t d = ((n, as), d')" and p: "p = phrase_graph_of n as"
    using assms(3) by (auto simp: compile_phrase_def split: prod.splits)
  have law: "ids_in_range d'" "dict_grows d d'" "arcs_valid (n, as)"
    "\<forall>a \<in> set as. unat (pa_feature a) < length (freqs d')"
    "\<And>D. dict_grows d' D \<Longrightarrow> query_arcs_readonly norm t D = (n, as)"
    using assms(1,2) q unfolding interns_arcs_def by fastforce+
  show "interned d d' (set (phrase_proxy p))"
    using law by (auto simp: interned_def set_phrase_proxy p edges_phrase_graph_of arc_key_def)
  show "arcs p \<noteq> [] \<Longrightarrow> wf_graph p" using phrase_graph_of_wf [OF law(3)] p by simp
  show "phrase_at norm D t = p" if "dict_grows d' D"
    using law(5) [OF that] by (simp add: compile_phrase_readonly_def p)
qed

lemma in_range_required: "in_range n ex \<Longrightarrow> \<forall>f \<in> set fs. unat f < n \<Longrightarrow> in_range n (ex\<lparr>required := required ex @ fs\<rparr>)"
  by (auto simp: in_range_def)

lemma in_range_forbidden: "in_range n ex \<Longrightarrow> in_range n (push_forbidden_term fs ex)"
  by (auto simp: push_forbidden_term_def in_range_def split: list.splits)

lemma in_range_fold_forbidden: "in_range n ex \<Longrightarrow> in_range n (fold push_forbidden_term fss ex)"
  by (induction fss arbitrary: ex) (auto simp: in_range_forbidden)

lemma in_range_phrase:
  "in_range n ex \<Longrightarrow> \<forall>f \<in> set (phrase_proxy p). unat f < n \<Longrightarrow> in_range n (push_phrase neg p ex)"
  by (auto simp: push_phrase_def in_range_def)

lemma in_range_lower:
  assumes "in_range n ex" "\<forall>fs \<in> set fss. \<forall>f \<in> set fs. unat f < n"
  shows "in_range n (lower_anyof frq (List.map_filter from_features fss) ex)"
proof -
  define ms where "ms = sort_dedup (List.map_filter from_features fss)"
  note low = lower_anyof_cases [OF ms_def, where frq = frq and ex = ex]
  have mem: "\<exists>fs \<in> set fss. m = simple_member fs" if "m \<in> set ms" for m
    using that by (auto simp: ms_def set_members_from_features)
  have proxies: "\<forall>f \<in> set (proxies_of frq ms). unat f < n"
  proof
    fix f assume "f \<in> set (proxies_of frq ms)"
    then obtain m where "m \<in> set ms" "min_by_key frq (first_alternatives m) = Some f"
      by (auto simp: proxies_of_def set_map_filter)
    then show "unat f < n" using mem [of m] assms(2) by (auto simp: first_alternatives_simple dest!: min_by_key_in)
  qed
  have one: "in_range n (ex\<lparr>required := required ex @ concat (requirements m)\<rparr>)" if "m \<in> set ms" for m
    using mem [OF that] assms by (intro in_range_required) (auto simp: simple_member_def)
  consider "ms = []" | m where "ms = [m]" | "length ms > 1"
    by (cases ms; cases "tl ms") auto
  then show ?thesis
  proof cases
    case 3
    then obtain n' k where "lower_anyof frq (List.map_filter from_features fss) ex =
       ex\<lparr>semantic_anyof_groups := n', semantic_anyof_terms := k,
          anyof := (if proxies_of frq ms \<noteq> [] then anyof ex @ [proxies_of frq ms] else anyof ex),
          anyof_predicates := (if list_ex (\<lambda>m. length (requirements m) > 1) ms
            then anyof_predicates ex @ [AnyOfPredicate ms] else anyof_predicates ex)\<rparr>"
      using low(3) by blast
    then show ?thesis using proxies assms(1) by (simp add: in_range_def)
  qed (use low assms(1) one in \<open>simp_all\<close>)
qed

definition good_state :: "extracted \<Rightarrow> dict \<Rightarrow> bool" where
  "good_state ex d \<longleftrightarrow> ids_in_range d \<and> in_range (length (freqs d)) ex \<and> wf_extracted ex"

definition positive_term :: "clause \<Rightarrow> bool" where
  "positive_term cl \<longleftrightarrow> \<not> negated cl \<and> (\<exists>w. atom_of cl = Term w)"

lemma good_flush:
  assumes "interns_features norm" "good_state ex d" "flush_positive_run norm ws d (required ex) = (req, d0)"
  shows "good_state (ex\<lparr>required := req\<rparr>) d0 \<and> dict_grows d d0 \<and>
    (\<forall>D. dict_grows d0 D \<longrightarrow> (sat eqv P N rp fp (ex\<lparr>required := req\<rparr>) \<longleftrightarrow>
       sat eqv P N rp fp ex \<and> run_ok (features_at norm D) (holds eqv P) ws))"
proof -
  have ids: "ids_in_range d" using assms(2) by (simp add: good_state_def)
  obtain fs where fs: "req = required ex @ fs" "interned d d0 (set fs)"
    "\<And>D. dict_grows d0 D \<Longrightarrow> flush_positive_run_readonly norm ws D (required ex) = required ex @ fs"
    using flush_interned [OF assms(1) ids assms(3)] by blast
  have "in_range (length (freqs d0)) (ex\<lparr>required := req\<rparr>)"
    using assms(2) fs(1,2) in_range_mono
    by (auto simp: good_state_def interned_def dict_grows_def intro!: in_range_required)
  moreover have "sat eqv P N rp fp (ex\<lparr>required := req\<rparr>) \<longleftrightarrow>
       sat eqv P N rp fp ex \<and> run_ok (features_at norm D) (holds eqv P) ws" if "dict_grows d0 D" for D
    using sat_flush [where ex = ex and ws = ws and d = D and norm = norm] fs(1) fs(3) [OF that] by simp
  ultimately show ?thesis using assms(2) fs(2)
    by (simp add: good_state_def interned_def wf_required)
qed

lemma good_state_grow:
  assumes "good_state ex d" "interned d d' S"
  shows "ids_in_range d'" "in_range (length (freqs d')) ex" "wf_extracted ex" "dict_grows d d'"
    "\<forall>f \<in> S. unat f < length (freqs d')"
  using assms in_range_mono by (auto simp: good_state_def interned_def dict_grows_def)

lemma extract_clause_interned:
  assumes laws: "interns_features norm" "interns_arcs norm" and good: "good_state ex d"
    and step: "extract_clause norm cl (ws, ex, d) = (ws', ex', d')" and "\<not> positive_term cl"
  shows "good_state ex' d' \<and> dict_grows d d' \<and> ws' = [] \<and>
    (\<forall>D. dict_grows d' D \<longrightarrow> (sat eqv P N rp fp ex' \<longleftrightarrow> sat eqv P N rp fp ex \<and>
       run_ok (features_at norm D) (holds eqv P) ws \<and>
       clause_ok (features_at norm D) (phrase_at norm D) eqv P N rp fp cl))"
proof -
  obtain req d0 where fl: "flush_positive_run norm ws d (required ex) = (req, d0)" by fastforce
  define ex0 where "ex0 = ex\<lparr>required := req\<rparr>"
  note gf = good_flush [OF laws(1) good fl, folded ex0_def]
  have ids0: "ids_in_range d0" and good0: "good_state ex0 d0" using gf by (auto simp: good_state_def)
  have main: ?thesis if inter: "interned d0 d' S" and "ws' = []"
    and ok: "in_range (length (freqs d')) ex'" "wf_extracted ex'"
    and s: "\<And>D. dict_grows d' D \<Longrightarrow> sat eqv P N rp fp ex' \<longleftrightarrow>
      sat eqv P N rp fp ex0 \<and> clause_ok (features_at norm D) (phrase_at norm D) eqv P N rp fp cl" for S
  proof -
    have "dict_grows d0 d'" "ids_in_range d'" using inter by (simp_all add: interned_def)
    then show ?thesis using gf that dict_grows_trans unfolding good_state_def by blast
  qed
  show ?thesis
  proof (cases "atom_of cl")
    case (Term w)
    then have neg: "negated cl" using assms(5) by (auto simp: positive_term_def)
    obtain fs d1 where c: "compile_features norm w d0 = (fs, d1)" by fastforce
    have out: "ws' = []" "ex' = push_forbidden_term fs ex0" "d' = d1"
      using step fl c Term neg by (simp_all add: extract_clause_def ex0_def Let_def)
    note ci = compile_features_interned [OF laws(1) ids0 c, folded out(3)]
    note gs = good_state_grow [OF good0 ci(1)]
    show ?thesis
      by (rule main [OF ci(1)])
         (use gs ci(2) Term in \<open>simp_all add: out(1,2) in_range_forbidden wf_push_forbidden
            sat_push_forbidden clause_ok_def\<close>)
  next
    case (Phrase w)
    obtain p d1 where c: "compile_phrase norm w d0 = (p, d1)" by fastforce
    have out: "ws' = []" "ex' = push_phrase (negated cl) p ex0" "d' = d1"
      using step fl c Phrase by (simp_all add: extract_clause_def ex0_def Let_def)
    note ci = compile_phrase_interned [OF laws(2) ids0 c, folded out(3)]
    note gs = good_state_grow [OF good0 ci(1)]
    show ?thesis
      by (rule main [OF ci(1)])
         (use gs ci(2,3) Phrase in \<open>simp_all add: out(1,2) in_range_phrase wf_push_phrase
            sat_push_phrase clause_ok_def\<close>)
  next
    case (AnyOf ms)
    obtain fss d1 where c: "compile_members norm ms d0 = (fss, d1)" by fastforce
    have out: "ws' = []" "d' = d1" "ex' = (if negated cl then fold push_forbidden_term fss ex0
        else lower_anyof (freq d1) (List.map_filter from_features fss) ex0)"
      using step fl c AnyOf by (auto simp: extract_clause_def ex0_def Let_def split: if_splits)
    note ci = compile_members_interned [OF laws(1) ids0 c, folded out(2)]
    note gs = good_state_grow [OF good0 conjunct1 [OF ci]]
    have members: "(\<forall>m \<in> set ms. \<not> neg_hit N (features_at norm D m)) \<longleftrightarrow> (\<forall>fs \<in> set fss. \<not> neg_hit N fs)"
      "map (features_at norm D) ms = fss" if "dict_grows d' D" for D
    proof -
      have fss: "map (features_at norm D) ms = fss" using ci that by blast
      then show "map (features_at norm D) ms = fss" .
      show "(\<forall>m \<in> set ms. \<not> neg_hit N (features_at norm D m)) \<longleftrightarrow> (\<forall>fs \<in> set fss. \<not> neg_hit N fs)"
        by (simp flip: fss)
    qed
    show ?thesis
    proof (rule main [OF conjunct1 [OF ci] out(1)])
      show "in_range (length (freqs d')) ex'" "wf_extracted ex'"
        using gs out(3) by (auto intro: in_range_fold_forbidden in_range_lower wf_fold_forbidden wf_lower_anyof)
      show "sat eqv P N rp fp ex' \<longleftrightarrow>
        sat eqv P N rp fp ex0 \<and> clause_ok (features_at norm D) (phrase_at norm D) eqv P N rp fp cl"
        if "dict_grows d' D" for D
        using members [OF that] AnyOf out(3)
        by (simp add: clause_ok_def sat_fold_forbidden sat_lower_anyof)
    qed
  qed
qed

lemma extract_clauses_fold_interned:
  assumes laws: "interns_features norm" "interns_arcs norm"
    and "good_state ex d" "fold (extract_clause norm) cls (ws, ex, d) = (ws', ex', d')"
  shows "good_state ex' d' \<and> dict_grows d d' \<and>
    (\<forall>D. dict_grows d' D \<longrightarrow> (sat eqv P N rp fp ex' \<and> run_ok (features_at norm D) (holds eqv P) ws' \<longleftrightarrow>
       sat eqv P N rp fp ex \<and> clauses_ok (features_at norm D) (phrase_at norm D) eqv P N rp fp ws cls))"
  using assms(3,4)
proof (induction cls arbitrary: ws ex d)
  case (Cons cl cls)
  obtain ws1 ex1 d1 where step: "extract_clause norm cl (ws, ex, d) = (ws1, ex1, d1)" by (metis prod_cases3)
  then have rest: "fold (extract_clause norm) cls (ws1, ex1, d1) = (ws', ex', d')"
    using Cons.prems(2) by simp
  show ?case
  proof (cases "positive_term cl")
    case True
    then obtain w where w: "atom_of cl = Term w" "\<not> negated cl" by (auto simp: positive_term_def)
    then have "ws1 = ws @ [w]" "ex1 = ex" "d1 = d" using step by (simp_all add: extract_clause_def)
    then show ?thesis using Cons.IH [of ex d] Cons.prems(1) rest w by simp
  next
    case False
    note c = extract_clause_interned [OF laws Cons.prems(1) step False, of eqv P N rp fp]
    note ih = Cons.IH [OF conjunct1 [OF c] rest]
    have cons: "clauses_ok F G eqv P N rp fp ws (cl # cls) \<longleftrightarrow> run_ok F (holds eqv P) ws \<and>
        clause_ok F G eqv P N rp fp cl \<and> clauses_ok F G eqv P N rp fp [] cls" for F G
      using False by (auto simp: positive_term_def split: atom.splits bool.splits)
    have "dict_grows d1 D" if "dict_grows d' D" for D
      using ih that dict_grows_trans by blast
    moreover have "dict_grows d d'" using ih c dict_grows_trans by blast
    moreover have "ws1 = []" using c by blast
    ultimately show ?thesis using ih c unfolding cons by blast
  qed
qed simp

lemma extract_clauses_interned:
  assumes laws: "interns_features norm" "interns_arcs norm"
    and "ids_in_range d" "extract_clauses norm cls d = (ex, d')"
  shows "good_state ex d' \<and> dict_grows d d' \<and>
    (\<forall>D. dict_grows d' D \<longrightarrow> (sat eqv P N rp fp ex \<longleftrightarrow>
       clauses_ok (features_at norm D) (phrase_at norm D) eqv P N rp fp [] cls))"
proof -
  obtain ws1 ex1 d1 where f: "fold (extract_clause norm) cls ([], empty_extracted, d) = (ws1, ex1, d1)"
    by (metis prod_cases3)
  obtain req d2 where fl: "flush_positive_run norm ws1 d1 (required ex1) = (req, d2)" by fastforce
  have out: "d' = d2" "ex = ex1\<lparr>required := sort_dedup req, forbidden := sort_dedup (forbidden ex1)\<rparr>"
    using assms(4) f fl by (simp_all add: extract_clauses_def)
  have "good_state empty_extracted d"
    using assms(3) by (simp add: good_state_def in_range_def empty_extracted_def wf_extracted_def)
  note g = extract_clauses_fold_interned [OF laws this f, of eqv P N rp fp]
  note h = good_flush [OF laws(1) conjunct1 [OF g] fl, of eqv P N rp fp, folded out(1)]
  have "sat eqv P N rp fp ex \<longleftrightarrow> sat eqv P N rp fp (ex1\<lparr>required := req\<rparr>)"
    unfolding out(2) by (rule sat_sorted)
  moreover have "good_state ex d'"
    using h unfolding out(2) by (simp add: good_state_def in_range_def wf_extracted_def)
  moreover have "dict_grows d d'" using g h dict_grows_trans by blast
  moreover have "dict_grows d1 D" if "dict_grows d' D" for D using h that dict_grows_trans by blast
  ultimately show ?thesis using g h by simp
qed

section \<open>Expansion only widens\<close>















section \<open>Properties\<close>

text \<open>A normalizer for the examples: a text is one feature, its own name.\<close>

definition sample_normalizer :: normalizer where
  "sample_normalizer = \<lparr>
     compile_features = (\<lambda>t d. case intern t Generic d of (i, d') \<Rightarrow> ([i], d')),
     compile_features_readonly = (\<lambda>t d. [get_or_synthetic d t]),
     query_arcs = (\<lambda>t d. case intern t Generic d of (i, d') \<Rightarrow> ((1, [PositionArc i 0 1]), d')),
     query_arcs_readonly = (\<lambda>t d. (1, [PositionArc (get_or_synthetic d t) 0 1]))\<rparr>"

lemma sample_intern:
  assumes "ids_in_range d" "intern t k d = (i, d')"
  shows "ids_in_range d' \<and> dict_grows d d' \<and> unat i < length (freqs d') \<and>
    (\<forall>D. dict_grows d' D \<longrightarrow> get_or_synthetic D t = i)"
proof -
  have look: "get_or_synthetic D t = i" if "dict_grows d' D" "id_map d' t = Some i" for D
    using that by (auto simp: dict_grows_def get_or_synthetic_def map_le_def dom_def)
  have wrap: "unat (of_nat n :: u32) \<le> n" for n by (simp add: unat_of_nat take_bit_nat_less_eq_self)
  show ?thesis
  proof (cases "id_map d t")
    case None
    then have d': "i = of_nat (length (names d))" "d' = d\<lparr>id_map := (id_map d)(t \<mapsto> i), names := names d @ [t],
       kinds := kinds d @ [k], freqs := freqs d @ [0], mask_bits := mask_bits d @ [NO_MASK_BIT]\<rparr>"
      using assms(2) by (auto simp: intern_def Let_def)
    have "unat i < length (freqs d')" using assms(1) wrap by (simp add: d' ids_in_range_def less_Suc_eq_le)
    moreover have "ids_in_range d'" using assms(1) wrap
      by (auto simp: d' ids_in_range_def less_Suc_eq_le intro: less_imp_le)
    moreover have "dict_grows d d'" using None by (auto simp: d' dict_grows_def map_le_def)
    ultimately show ?thesis using look by (auto simp: d')
  next
    case (Some j)
    then show ?thesis using assms look by (auto simp: intern_def ids_in_range_def)
  qed
qed

lemma sample_normalizer_laws: "interns_features sample_normalizer" "interns_arcs sample_normalizer"
  using sample_intern
  by (fastforce simp: interns_features_def interns_arcs_def sample_normalizer_def arcs_valid_def
      split: prod.splits)+

lemma ids_in_range_new: "ids_in_range dict_new"
  by (simp add: ids_in_range_def dict_new_def)

text \<open>C19: the read-only extraction of a query, equivalence expansion included, matches a title
  exactly when the syntax tree does: every run of positive words, every phrase and every
  any-of group holds, up to the equivalence classes, and no negated text is hit.\<close>

theorem extract_readonly_correct:
  assumes "sorted pos" "sorted neg" "eqv_ok (dict_equivalences d)"
    and "\<And>t. arcs_valid (query_arcs_readonly norm t d)"
  shows "matches_positioned (extract_readonly a norm d) pos neg pp pa pc np na \<longleftrightarrow>
         ast_matches norm d a pos neg pp pa pc np na"
  using extract_readonly_sat [OF assms(3,4), of a]
  by (simp add: matches_positioned_sat [OF assms(1,2)] ast_matches_def)

theorem extract_readonly_correct_witness:
  "matches_positioned (extract_readonly \<lparr>clauses = [\<lparr>negated = False, atom_of = Term (rstr ''a'')\<rparr>]\<rparr>
       sample_normalizer dict_new) [synthetic_id (rstr ''a'')] [] 0 [] True 0 []"
proof -
  have "ast_matches sample_normalizer dict_new \<lparr>clauses = [\<lparr>negated = False, atom_of = Term (rstr ''a'')\<rparr>]\<rparr>
      [synthetic_id (rstr ''a'')] [] 0 [] True 0 []"
    by (simp add: ast_matches_def sample_normalizer_def run_ok_def holds_def dict_equivalences_def
        dict_new_def get_or_synthetic_def)
  moreover have "eqv_ok (dict_equivalences dict_new)"
    by (simp add: eqv_ok_def dict_equivalences_def dict_new_def)
  moreover have "arcs_valid (query_arcs_readonly sample_normalizer t dict_new)" for t
    by (simp add: arcs_valid_def sample_normalizer_def)
  ultimately show ?thesis by (subst extract_readonly_correct) simp_all
qed

text \<open>C20: the interning extraction never indexes the frequency vector out of range, only grows
  the dictionary, and compiles the query to the meaning the tree has under the grown
  dictionary.\<close>

theorem extract_ast_correct:
  assumes "interns_features norm" "interns_arcs norm" "ids_in_range d" "eqv_ok (dict_equivalences d)"
    and "sorted pos" "sorted neg"
  shows "\<exists>ex d'. extract_ast a norm d = Some (ex, d') \<and> dict_grows d d' \<and>
    (matches_positioned ex pos neg pp pa pc np na \<longleftrightarrow> ast_matches norm d' a pos neg pp pa pc np na)"
proof -
  obtain ex d1 where e: "extract_clauses norm (clauses a) d = (ex, d1)" by fastforce
  note g = extract_clauses_interned [OF assms(1-3) e]
  then have "ids_in_range d1" "in_range (length (freqs d1)) ex" "wf_extracted ex"
    by (auto simp: good_state_def)
  then obtain d2 where d2: "bump_all (frequency_features ex) d1 = Some d2" "dict_grows d1 d2"
    using bump_all_total frequency_features_in_range by blast
  have grows: "dict_grows d d2" using g d2(2) dict_grows_trans by blast
  then have ok: "eqv_ok (dict_equivalences d2)" using assms(4) by (simp add: dict_grows_def dict_equivalences_def)
  let ?ex = "expand_equivalences (dict_equivalences d2) ex"
  have "extract_ast a norm d = Some (?ex, d2)" by (simp add: extract_ast_def e d2(1))
  moreover have "matches_positioned ?ex pos neg pp pa pc np na \<longleftrightarrow> ast_matches norm d2 a pos neg pp pa pc np na"
    using g d2(2) sat_expand [OF ok \<open>wf_extracted ex\<close>]
    by (simp add: matches_positioned_sat [OF assms(5,6) wf_expand [OF ok \<open>wf_extracted ex\<close>]] ast_matches_def)
  ultimately show ?thesis using grows by blast
qed

theorem extract_ast_correct_witness:
  "\<exists>ex d'. extract_ast \<lparr>clauses = []\<rparr> sample_normalizer dict_new = Some (ex, d') \<and> dict_grows dict_new d' \<and>
    (matches_positioned ex [] [] 0 [] True 0 [] \<longleftrightarrow>
     ast_matches sample_normalizer d' \<lparr>clauses = []\<rparr> [] [] 0 [] True 0 [])"
proof (rule extract_ast_correct [OF sample_normalizer_laws ids_in_range_new])
  show "eqv_ok (dict_equivalences dict_new)" by (simp add: eqv_ok_def dict_equivalences_def dict_new_def)
qed simp_all



end
