(* ===== verification/Anchor_Plan.thy ===== *)
theory Anchor_Plan
  imports Query_Extraction_Correct
begin

text \<open>
  The signature cover optimizer of \<open>engine/src/compile/plan.rs\<close>: which feature groups of a
  compiled query become index keys, in which of the three lanes, and its cost class. The
  cover is lossless: a title that satisfies the query generates one of the groups.
\<close>

section \<open>Plans\<close>

record compiled_query =
  cq_logical_id :: u64
  cq_version :: u32
  cq_extracted :: extracted
  cq_main_sigs :: "u64 list"
  cq_broad_sigs :: "u64 list"
  cq_hot_sigs :: "u64 list"
  cq_cost_class :: cost_class

record sig_plan =
  main_sigs :: "u64 list"
  broad_sigs :: "u64 list"
  hot_sigs :: "u64 list"
  sig_class :: cost_class
  sig_would_be_hot :: bool

record anchors =
  main_anchors :: "feature_id list list"
  broad_anchors :: "feature_id list list"
  hot_anchors :: "feature_id list list"
  plan_class :: cost_class
  would_be_hot :: bool

definition DEFAULT_HOT_ANCHOR_THETA :: u32 where
  "DEFAULT_HOT_ANCHOR_THETA = 1024"

definition pin_visible :: "sig_plan \<Rightarrow> sig_plan" where
  "pin_visible p =
     (if sig_class p = ClassC
      then p\<lparr>main_sigs := main_sigs p @ broad_sigs p, broad_sigs := [], sig_class := ClassB\<rparr>
      else p)"

definition max_freq :: "dict \<Rightarrow> feature_id list \<Rightarrow> u32 option" where
  "max_freq d g = (if g = [] then None else Some (Max (set (map (freq d) g))))"

definition worst_freq :: "dict \<Rightarrow> feature_id list \<Rightarrow> u32" where
  "worst_freq d g = (case max_freq d g of Some m \<Rightarrow> m | None \<Rightarrow> - 1)"

definition singletons :: "feature_id list \<Rightarrow> feature_id list list" where
  "singletons g = map (\<lambda>f. [f]) g"

definition phrase_proxy_plan :: "extracted \<Rightarrow> dict \<Rightarrow> anchors option" where
  "phrase_proxy_plan ex d =
     (case min_by_key (worst_freq d) (filter (\<lambda>g. g \<noteq> []) (map phrase_proxy (required_phrases ex))) of
        None \<Rightarrow> None
      | Some best \<Rightarrow> Some \<lparr>main_anchors = singletons best, broad_anchors = [], hot_anchors = [],
          plan_class = ClassB, would_be_hot = False\<rparr>)"

definition anyof_cover :: "extracted \<Rightarrow> dict \<Rightarrow> u32 \<Rightarrow> anchors option" where
  "anyof_cover ex d theta =
     (case min_by_key (worst_freq d) (filter (\<lambda>g. \<not> list_ex (is_hot d) g) (anyof ex)) of
        None \<Rightarrow> None
      | Some best \<Rightarrow>
          let worst = (case max_freq d best of Some m \<Rightarrow> m | None \<Rightarrow> 0) in
          Some (if theta \<noteq> 0 \<and> worst \<ge> theta
            then \<lparr>main_anchors = [], broad_anchors = [], hot_anchors = singletons best,
                  plan_class = ClassH, would_be_hot = False\<rparr>
            else \<lparr>main_anchors = singletons best, broad_anchors = [], hot_anchors = [],
                  plan_class = ClassB,
                  would_be_hot = (theta = 0 \<and> worst \<ge> DEFAULT_HOT_ANCHOR_THETA)\<rparr>))"

definition uses_required_phrase_proxy :: "extracted \<Rightarrow> dict \<Rightarrow> bool" where
  "uses_required_phrase_proxy ex d \<longleftrightarrow> required_phrases ex \<noteq> [] \<and>
     (required ex = [] \<or> length (required ex) = 1 \<and> is_hot d (hd (required ex)))"

definition class_d_plan :: anchors where
  "class_d_plan = \<lparr>main_anchors = [], broad_anchors = [[]], hot_anchors = [],
     plan_class = ClassD, would_be_hot = False\<rparr>"

text \<open>The branch for a non-empty required list, sorted rarest first by a stable sort.\<close>

definition required_plan :: "extracted \<Rightarrow> dict \<Rightarrow> u32 \<Rightarrow> feature_id list \<Rightarrow> anchors" where
  "required_plan ex d theta r =
     (let r1 = hd r in
      if is_hot d r1 then
        if length r \<ge> 2 then
          let r2 = r ! 1; ab = (if r1 < r2 then [r1, r2] else [r2, r1]) in
          \<lparr>main_anchors = [ab], broad_anchors = [], hot_anchors = [], plan_class = ClassB, would_be_hot = False\<rparr>
        else case phrase_proxy_plan ex d of
          Some plan \<Rightarrow> plan
        | None \<Rightarrow> (case anyof_cover ex d theta of
            Some plan \<Rightarrow> plan
          | None \<Rightarrow> \<lparr>main_anchors = [], broad_anchors = [[r1]], hot_anchors = [], plan_class = ClassC,
              would_be_hot = False\<rparr>)
      else if theta \<noteq> 0 \<and> freq d r1 \<ge> theta then
        \<lparr>main_anchors = [], broad_anchors = [], hot_anchors = [[r1]], plan_class = ClassH, would_be_hot = False\<rparr>
      else
        \<lparr>main_anchors = [[r1]], broad_anchors = [], hot_anchors = [], plan_class = ClassA,
          would_be_hot = (theta = 0 \<and> freq d r1 \<ge> DEFAULT_HOT_ANCHOR_THETA)\<rparr>)"

definition anchor_plan :: "extracted \<Rightarrow> dict \<Rightarrow> u32 \<Rightarrow> anchors" where
  "anchor_plan ex d theta =
     (if required ex = [] \<and> anyof ex = [] \<and> required_phrases ex = [] then class_d_plan
      else if required ex = [] \<and> required_phrases ex \<noteq> [] then
        (case phrase_proxy_plan ex d of Some plan \<Rightarrow> plan | None \<Rightarrow> class_d_plan)
      else if required ex = [] then
        (case anyof_cover ex d theta of
           Some plan \<Rightarrow> plan
         | None \<Rightarrow> (case min_by_key (worst_freq d) (anyof ex) of
             Some best \<Rightarrow> \<lparr>main_anchors = [], broad_anchors = singletons best, hot_anchors = [],
               plan_class = ClassC, would_be_hot = False\<rparr>
           | None \<Rightarrow> class_d_plan))
      else required_plan ex d theta (sort_key (freq d) (required ex)))"

definition build_signatures :: "extracted \<Rightarrow> dict \<Rightarrow> u32 \<Rightarrow> sig_plan" where
  "build_signatures ex d theta =
     (let plan = anchor_plan ex d theta in
      \<lparr>main_sigs = map sig_key (main_anchors plan), broad_sigs = map sig_key (broad_anchors plan),
       hot_sigs = map sig_key (hot_anchors plan), sig_class = plan_class plan,
       sig_would_be_hot = would_be_hot plan\<rparr>)"

definition compiled_with :: "u64 \<Rightarrow> u32 \<Rightarrow> extracted \<Rightarrow> sig_plan \<Rightarrow> compiled_query" where
  "compiled_with lid version ex plan =
     \<lparr>cq_logical_id = lid, cq_version = version, cq_extracted = ex, cq_main_sigs = main_sigs plan,
      cq_broad_sigs = broad_sigs plan, cq_hot_sigs = hot_sigs plan, cq_cost_class = sig_class plan\<rparr>"

text \<open>\<open>compile_one\<close>: the outer None is the panic of the extraction; a parse error leaves the
  dictionary as it was.\<close>

definition compile_one :: "desc_sort \<Rightarrow> rstring \<Rightarrow> u64 \<Rightarrow> u32 \<Rightarrow> normalizer \<Rightarrow> dict \<Rightarrow> u32 \<Rightarrow>
    ((parse_error + compiled_query) \<times> dict) option" where
  "compile_one srt query_text lid version norm d theta = (case parse query_text of
     Inl e \<Rightarrow> Some (Inl e, d)
   | Inr a \<Rightarrow> (case extract_ast a norm d of
       None \<Rightarrow> None
     | Some (ex, d1) \<Rightarrow>
         let d2 = (if finalized d1 then d1 else finalize_mask srt d1) in
         Some (Inr (compiled_with lid version ex (build_signatures ex d2 theta)), d2)))"

definition compile_one_readonly ::
  "rstring \<Rightarrow> u64 \<Rightarrow> normalizer \<Rightarrow> dict \<Rightarrow> u32 \<Rightarrow> parse_error + compiled_query" where
  "compile_one_readonly query_text lid norm d theta = (case parse query_text of
     Inl e \<Rightarrow> Inl e
   | Inr a \<Rightarrow>
       let ex = extract_readonly a norm d in
       Inr (compiled_with lid 0 ex (build_signatures ex d theta)))"

section \<open>What a title probes\<close>

text \<open>
  The groups the match path generates: every feature of the probe view and every pair with a
  hot feature on the main lane, every feature on the hot lane, every feature and the empty
  group on the broad lane.
\<close>

definition pair_group :: "feature_id \<Rightarrow> feature_id \<Rightarrow> feature_id list" where
  "pair_group a b = (if a < b then [a, b] else [b, a])"

definition main_probes :: "dict \<Rightarrow> feature_id set \<Rightarrow> feature_id set \<Rightarrow> feature_id list set" where
  "main_probes d probe P = {[f] | f. f \<in> probe} \<union> {pair_group h f | h f. h \<in> P \<and> f \<in> P \<and> is_hot d h \<and> f \<noteq> h}"

definition hot_probes :: "feature_id set \<Rightarrow> feature_id list set" where
  "hot_probes P = {[f] | f. f \<in> P}"

definition broad_probes :: "feature_id set \<Rightarrow> feature_id list set" where
  "broad_probes P = insert [] {[f] | f. f \<in> P}"

definition covered :: "dict \<Rightarrow> feature_id set \<Rightarrow> feature_id set \<Rightarrow> anchors \<Rightarrow> bool" where
  "covered d probe P plan \<longleftrightarrow> (case plan_class plan of
     ClassA \<Rightarrow> set (main_anchors plan) \<inter> main_probes d probe P \<noteq> {}
   | ClassB \<Rightarrow> set (main_anchors plan) \<inter> main_probes d probe P \<noteq> {}
   | ClassH \<Rightarrow> set (hot_anchors plan) \<inter> hot_probes P \<noteq> {}
   | _ \<Rightarrow> set (broad_anchors plan) \<inter> broad_probes P \<noteq> {})"

text \<open>A plan uses the lane of its class and no other.\<close>

definition one_lane :: "anchors \<Rightarrow> bool" where
  "one_lane plan \<longleftrightarrow> (case plan_class plan of
     ClassA \<Rightarrow> hot_anchors plan = [] \<and> broad_anchors plan = []
   | ClassB \<Rightarrow> hot_anchors plan = [] \<and> broad_anchors plan = []
   | ClassH \<Rightarrow> main_anchors plan = [] \<and> broad_anchors plan = []
   | _ \<Rightarrow> main_anchors plan = [] \<and> hot_anchors plan = [])"

text \<open>The positive part of a query over a title: what the cover relies on.\<close>

definition positive_sat :: "extracted \<Rightarrow> feature_id set \<Rightarrow> feature_id set \<Rightarrow> bool" where
  "positive_sat ex probe P \<longleftrightarrow> set (required ex) \<subseteq> P \<and> (\<forall>g \<in> set (anyof ex). set g \<inter> P \<noteq> {}) \<and>
     (\<forall>p \<in> set (required_phrases ex). set (phrase_proxy p) \<inter> probe \<noteq> {})"

section \<open>The cover is lossless\<close>

lemma singletons_covered:
  assumes "set g \<inter> P \<noteq> {}"
  shows "set (singletons g) \<inter> main_probes d P Q \<noteq> {}" "set (singletons g) \<inter> hot_probes P \<noteq> {}"
    "set (singletons g) \<inter> broad_probes P \<noteq> {}"
  using assms by (auto simp: singletons_def main_probes_def hot_probes_def broad_probes_def)

lemma phrase_proxy_plan_covered:
  assumes "phrase_proxy_plan ex d = Some plan" "positive_sat ex probe P"
  shows "covered d probe P plan \<and> one_lane plan \<and> \<not> is_opt_in (plan_class plan)"
proof -
  obtain best where best: "min_by_key (worst_freq d)
      (filter (\<lambda>g. g \<noteq> []) (map phrase_proxy (required_phrases ex))) = Some best"
    and plan: "plan = \<lparr>main_anchors = singletons best, broad_anchors = [], hot_anchors = [],
          plan_class = ClassB, would_be_hot = False\<rparr>"
    using assms(1) by (auto simp: phrase_proxy_plan_def split: option.splits)
  have "set best \<inter> probe \<noteq> {}"
    using min_by_key_in [OF best] assms(2) by (auto simp: positive_sat_def)
  then show ?thesis
    using singletons_covered(1) [of best probe d P] by (simp add: plan covered_def one_lane_def)
qed

lemma anyof_cover_covered:
  assumes "anyof_cover ex d theta = Some plan" "positive_sat ex probe P" "P \<subseteq> probe"
  shows "covered d probe P plan \<and> one_lane plan \<and> \<not> is_opt_in (plan_class plan)"
proof -
  obtain best where best: "min_by_key (worst_freq d) (filter (\<lambda>g. \<not> list_ex (is_hot d) g) (anyof ex)) = Some best"
    using assms(1) by (auto simp: anyof_cover_def split: option.splits)
  then have "best \<in> set (anyof ex)" by (auto dest: min_by_key_in)
  then have "set best \<inter> P \<noteq> {}" using assms(2) by (auto simp: positive_sat_def)
  moreover from this have "set best \<inter> probe \<noteq> {}" using assms(3) by blast
  ultimately show ?thesis
    using assms(1) best singletons_covered(2) [of best P] singletons_covered(1) [of best probe d P]
    by (simp add: anyof_cover_def Let_def covered_def one_lane_def split: if_splits) auto
qed

lemma required_plan_covered:
  assumes "positive_sat ex probe P" "P \<subseteq> probe" "distinct r" "r \<noteq> []" "set r = set (required ex)"
  shows "covered d probe P (required_plan ex d theta r) \<and> one_lane (required_plan ex d theta r)"
proof -
  have in_P: "f \<in> P" if "f \<in> set r" for f using that assms(1,5) by (auto simp: positive_sat_def)
  then have r1: "hd r \<in> P" using assms(4) by simp
  show ?thesis
  proof (cases "is_hot d (hd r)")
    case hot: True
    show ?thesis
    proof (cases "length r \<ge> 2")
      case True
      then have r2: "r ! 1 \<in> P" "r ! 1 \<noteq> hd r"
        using in_P assms(3,4) by (auto simp: hd_conv_nth nth_eq_iff_index_eq)
      have "(if hd r < r ! 1 then [hd r, r ! 1] else [r ! 1, hd r]) \<in> main_probes d probe P"
        using hot r1 r2 unfolding main_probes_def pair_group_def by blast
      then show ?thesis using hot True
        by (simp add: required_plan_def Let_def covered_def one_lane_def split: if_splits)
    next
      case False
      then show ?thesis
        using hot r1 phrase_proxy_plan_covered [OF _ assms(1)] anyof_cover_covered [OF _ assms(1,2)]
        by (auto simp: required_plan_def Let_def covered_def one_lane_def broad_probes_def split: option.splits)
    qed
  next
    case False
    then show ?thesis using r1 assms(2)
      by (auto simp: required_plan_def Let_def covered_def one_lane_def hot_probes_def main_probes_def)
  qed
qed

lemma anchor_plan_covered:
  assumes sat: "positive_sat ex probe P" and sub: "P \<subseteq> probe" and "distinct (required ex)"
  shows "covered d probe P (anchor_plan ex d theta) \<and> one_lane (anchor_plan ex d theta)"
proof -
  have d_plan: "covered d probe P class_d_plan" "one_lane class_d_plan"
    by (simp_all add: class_d_plan_def covered_def one_lane_def broad_probes_def)
  show ?thesis
  proof (cases "required ex = []")
    case False
    let ?r = "sort_key (freq d) (required ex)"
    have "covered d probe P (required_plan ex d theta ?r) \<and> one_lane (required_plan ex d theta ?r)"
    proof (rule required_plan_covered [OF sat sub])
      show "?r \<noteq> []" using False by (metis set_empty set_sort)
    qed (use assms(3) in simp_all)
    then show ?thesis using False by (simp add: anchor_plan_def)
  next
    case True
    have broad: "covered d probe P \<lparr>main_anchors = [], broad_anchors = singletons best, hot_anchors = [],
               plan_class = ClassC, would_be_hot = False\<rparr>"
      if "min_by_key (worst_freq d) (anyof ex) = Some best" for best
    proof -
      have "set best \<inter> P \<noteq> {}" using min_by_key_in [OF that] sat by (auto simp: positive_sat_def)
      then show ?thesis using singletons_covered(3) [of best P] by (simp add: covered_def)
    qed
    then show ?thesis
      using True d_plan phrase_proxy_plan_covered [OF _ sat] anyof_cover_covered [OF _ sat sub]
      by (auto simp: anchor_plan_def one_lane_def split: option.splits)
  qed
qed

lemma phrase_occurs_proxy:
  assumes "phrase_occurs p n t" shows "set (phrase_proxy p) \<inter> pa_feature ` set t \<noteq> {}"
proof -
  obtain s e where "positions p \<noteq> 0" "(product_step p t)\<^sup>*\<^sup>* (0, s) (positions p, e)"
    using assms by (auto simp: phrase_occurs_def)
  then obtain y where "product_step p t (0, s) y" by (auto elim: converse_rtranclpE)
  then obtain qa ta where "qa \<in> set (arcs p)" "ta \<in> set t" "pa_feature ta \<in> set (alternatives qa)"
    by (auto simp: product_step_def)
  then show ?thesis by (auto simp: phrase_proxy_def)
qed

section \<open>Visibility\<close>

lemma anyof_cover_visible:
  "anyof_cover ex d theta = None \<longleftrightarrow> anyof_cover ex d 0 = None"
  "anyof_cover ex d theta = Some plan \<Longrightarrow> \<not> is_opt_in (plan_class plan)"
  by (auto simp: anyof_cover_def Let_def split: option.splits if_splits)

lemma phrase_proxy_plan_visible: "phrase_proxy_plan ex d = Some plan \<Longrightarrow> plan_class plan = ClassB"
  by (auto simp: phrase_proxy_plan_def split: option.splits)

lemma required_plan_visible:
  "is_opt_in (plan_class (required_plan ex d theta r)) \<longleftrightarrow>
     is_hot d (hd r) \<and> length r < 2 \<and> phrase_proxy_plan ex d = None \<and> anyof_cover ex d 0 = None"
  using anyof_cover_visible(1) [of ex d theta]
  by (auto simp: required_plan_def Let_def split: option.splits if_splits
      dest: anyof_cover_visible(2) phrase_proxy_plan_visible)

lemma anchor_plan_visible:
  "is_opt_in (plan_class (anchor_plan ex d theta)) \<longleftrightarrow> is_opt_in (plan_class (anchor_plan ex d 0))"
proof (cases "required ex = []")
  case True
  then show ?thesis using anyof_cover_visible(1) [of ex d theta]
    by (auto simp: anchor_plan_def split: option.splits
        dest: anyof_cover_visible(2))
next
  case False
  then show ?thesis by (simp add: anchor_plan_def required_plan_visible)
qed

section \<open>Properties\<close>

text \<open>C18: the signature cover is lossless. If a title satisfies the flat part of a query and its
  graph has every required phrase, then in the lane of the query's class the title generates
  one of the query's anchor groups; and a plan has anchors in the lane of its class only.\<close>

theorem anchor_plan_lossless:
  assumes "sorted pos" "sorted neg" "matches_flat_features ex pos neg"
    and "list_all (\<lambda>p. phrase_occurs p n t) (required_phrases ex)"
    and "set pos \<subseteq> set probe" "pa_feature ` set t \<subseteq> set probe" "distinct (required ex)"
  shows "covered d (set probe) (set pos) (anchor_plan ex d theta) \<and> one_lane (anchor_plan ex d theta)"
proof -
  note m = assms(3) [unfolded matches_flat_iff [OF assms(1,2)]]
  have "set (phrase_proxy p) \<inter> set probe \<noteq> {}" if "p \<in> set (required_phrases ex)" for p
    using phrase_occurs_proxy [of p n t] that assms(4,6) by (auto simp: list_all_iff)
  moreover have "set (required ex) \<subseteq> set pos" using m by (simp add: subset_iff)
  moreover have "\<forall>g \<in> set (anyof ex). set g \<inter> set pos \<noteq> {}" using m by fast
  ultimately have "positive_sat ex (set probe) (set pos)" by (simp add: positive_sat_def)
  then show ?thesis by (rule anchor_plan_covered [OF _ assms(5,7)])
qed

theorem anchor_plan_lossless_witness:
  "covered dict_new {3, 7} {3, 7} (anchor_plan (empty_extracted\<lparr>required := [3]\<rparr>) dict_new 0)"
  using anchor_plan_lossless [of "[3, 7]" "[]" "empty_extracted\<lparr>required := [3]\<rparr>" 0 "[]" "[3, 7]" dict_new 0]
  by (simp add: matches_flat_iff empty_extracted_def)

text \<open>The hot-anchor threshold moves queries between the two always-visible lanes only: whether
  a plan is opt-in does not depend on it. Nor does a plan depend on any negative predicate.\<close>

theorem anchor_plan_visibility:
  "(is_opt_in (plan_class (anchor_plan ex d theta)) \<longleftrightarrow> is_opt_in (plan_class (anchor_plan ex d theta'))) \<and>
   anchor_plan (ex\<lparr>forbidden := fs, forbidden_conjunctions := fcs, forbidden_phrases := fps\<rparr>) d theta =
   anchor_plan ex d theta"
proof -
  let ?ex = "ex\<lparr>forbidden := fs, forbidden_conjunctions := fcs, forbidden_phrases := fps\<rparr>"
  have pp: "phrase_proxy_plan ?ex d = phrase_proxy_plan ex d" by (simp add: phrase_proxy_plan_def)
  have ac: "anyof_cover ?ex d theta = anyof_cover ex d theta" by (simp add: anyof_cover_def)
  have rp: "required_plan ?ex d theta r = required_plan ex d theta r" for r
    by (simp only: required_plan_def pp ac)
  have fields: "required ?ex = required ex" "anyof ?ex = anyof ex" "required_phrases ?ex = required_phrases ex"
    by simp_all
  have "anchor_plan ?ex d theta = anchor_plan ex d theta"
    by (simp only: anchor_plan_def pp ac rp fields)
  then show ?thesis using anchor_plan_visible [of ex d theta] anchor_plan_visible [of ex d theta'] by blast
qed

text \<open>Pinning a plan keeps every signature, empties the opt-in lane of a class C plan and makes
  it visible; every other plan is left alone.\<close>

theorem pin_visible_correct:
  "set (main_sigs (pin_visible p)) \<union> set (broad_sigs (pin_visible p)) = set (main_sigs p) \<union> set (broad_sigs p) \<and>
   sig_class (pin_visible p) \<noteq> ClassC \<and>
   (if sig_class p = ClassC then broad_sigs (pin_visible p) = [] \<and> \<not> is_opt_in (sig_class (pin_visible p))
    else pin_visible p = p)"
  by (auto simp: pin_visible_def)

end
