(* ===== verification/Candidate_Index.thy ===== *)
theory Candidate_Index
  imports Prelude "HOL-Library.AList"
begin

text \<open>
  The candidate index of a segment (\<open>index.rs\<close>): a map from signature keys to
  posting lists of local query ids. A posting starts inline, moves to a heap
  vector, and ends as a roaring bitmap. The bitmap is a third-party container,
  so its operations are the record \<open>roaring\<close>, and what the index relies on is
  \<open>roaring_ok\<close>: an ascending set of ids. The client's view of an index is the
  locale \<open>candidate_source\<close>.
\<close>

section \<open>Postings\<close>

definition INLINE_CAP :: nat where
  "INLINE_CAP = 8"

definition ROARING_THRESHOLD :: nat where
  "ROARING_THRESHOLD = 256"

record 'bm roaring =
  rb_new :: 'bm
  rb_insert :: "u32 \<Rightarrow> 'bm \<Rightarrow> 'bm"
  rb_iter :: "'bm \<Rightarrow> u32 list"
  rb_len :: "'bm \<Rightarrow> nat"

definition roaring_ok :: "'bm roaring \<Rightarrow> bool" where
  "roaring_ok rb \<longleftrightarrow> rb_iter rb (rb_new rb) = [] \<and>
     (\<forall>bm. strict_sorted (rb_iter rb bm) \<and> rb_len rb bm = length (rb_iter rb bm)) \<and>
     (\<forall>x bm. set (rb_iter rb (rb_insert rb x bm)) = insert x (set (rb_iter rb bm)))"

datatype 'bm posting = Inline "u32 list" u8 | Heap "u32 list" | Roaring 'bm

definition posting_new :: "u32 \<Rightarrow> 'bm posting" where
  "posting_new first = Inline ((replicate INLINE_CAP 0)[0 := first]) 1"

fun posting_push :: "'bm roaring \<Rightarrow> u32 \<Rightarrow> 'bm posting \<Rightarrow> 'bm posting" where
  "posting_push rb i (Inline ids len) =
     (if unat len < INLINE_CAP then Inline (ids[unat len := i]) (len + 1) else Heap (ids @ [i]))"
| "posting_push rb i (Heap v) =
     (let v' = v @ [i]
      in if ROARING_THRESHOLD < length v' then Roaring (fold (rb_insert rb) v' (rb_new rb)) else Heap v')"
| "posting_push rb i (Roaring bm) = Roaring (rb_insert rb i bm)"

text \<open>The ids a posting visits, in order, and the iteration that a callback may stop.\<close>

fun posting_ids :: "'bm roaring \<Rightarrow> 'bm posting \<Rightarrow> u32 list" where
  "posting_ids rb (Inline ids len) = take (unat len) ids"
| "posting_ids rb (Heap v) = v"
| "posting_ids rb (Roaring bm) = rb_iter rb bm"

fun iterate_while :: "('a \<Rightarrow> 's \<Rightarrow> bool \<times> 's) \<Rightarrow> 'a list \<Rightarrow> 's \<Rightarrow> 's" where
  "iterate_while f [] s = s"
| "iterate_while f (x # xs) s = (case f x s of (True, s') \<Rightarrow> iterate_while f xs s' | (False, s') \<Rightarrow> s')"

definition for_each_while :: "'bm roaring \<Rightarrow> (u32 \<Rightarrow> 's \<Rightarrow> bool \<times> 's) \<Rightarrow> 'bm posting \<Rightarrow> 's \<Rightarrow> 's" where
  "for_each_while rb f p s = iterate_while f (posting_ids rb p) s"

definition for_each :: "'bm roaring \<Rightarrow> (u32 \<Rightarrow> 's \<Rightarrow> 's) \<Rightarrow> 'bm posting \<Rightarrow> 's \<Rightarrow> 's" where
  "for_each rb f p s = for_each_while rb (\<lambda>i s. (True, f i s)) p s"

fun posting_len :: "'bm roaring \<Rightarrow> 'bm posting \<Rightarrow> nat" where
  "posting_len rb (Inline ids len) = unat len"
| "posting_len rb (Heap v) = length v"
| "posting_len rb (Roaring bm) = rb_len rb bm"

definition posting_is_empty :: "'bm roaring \<Rightarrow> 'bm posting \<Rightarrow> bool" where
  "posting_is_empty rb p \<longleftrightarrow> posting_len rb p = 0"

section \<open>The index\<close>

text \<open>The hash map is an association list with one entry per key; its iteration
  order is the insertion order of the keys, one of the orders a hash map may have.\<close>

type_synonym 'bm candidate_index = "(u64 \<times> 'bm posting) list"

definition index_new :: "'bm candidate_index" where
  "index_new = []"

definition index_insert :: "'bm roaring \<Rightarrow> u64 \<Rightarrow> u32 \<Rightarrow> 'bm candidate_index \<Rightarrow> 'bm candidate_index" where
  "index_insert rb sig local_id ix =
     AList.map_default sig (posting_new local_id) (posting_push rb local_id) ix"

definition index_get :: "'bm candidate_index \<Rightarrow> u64 \<Rightarrow> 'bm posting option" where
  "index_get ix sig = map_of ix sig"

definition num_signatures :: "'bm candidate_index \<Rightarrow> nat" where
  "num_signatures ix = length ix"

definition total_postings :: "'bm roaring \<Rightarrow> 'bm candidate_index \<Rightarrow> nat" where
  "total_postings rb ix = sum_list (map (posting_len rb \<circ> snd) ix)"

definition for_each_posting :: "(u64 \<Rightarrow> 'bm posting \<Rightarrow> 's \<Rightarrow> 's) \<Rightarrow> 'bm candidate_index \<Rightarrow> 's \<Rightarrow> 's" where
  "for_each_posting f ix s = fold (\<lambda>(key, p). f key p) ix s"

definition index_keys :: "'bm candidate_index \<Rightarrow> u64 list" where
  "index_keys ix = map fst ix"

definition max_posting_len :: "'bm roaring \<Rightarrow> 'bm candidate_index \<Rightarrow> nat" where
  "max_posting_len rb ix = Max (insert 0 (set (map (posting_len rb \<circ> snd) ix)))"

definition count_over :: "'bm roaring \<Rightarrow> nat \<Rightarrow> 'bm candidate_index \<Rightarrow> nat" where
  "count_over rb threshold ix = length (filter (\<lambda>e. threshold < posting_len rb (snd e)) ix)"

definition collect_posting_lens :: "'bm roaring \<Rightarrow> u32 list \<Rightarrow> 'bm candidate_index \<Rightarrow> u32 list" where
  "collect_posting_lens rb into ix = into @ map (\<lambda>e. of_nat (posting_len rb (snd e))) ix"

text \<open>What a probe of one signature visits: nothing for an absent key.\<close>

definition index_ids :: "'bm roaring \<Rightarrow> 'bm candidate_index \<Rightarrow> u64 \<Rightarrow> u32 list" where
  "index_ids rb ix sig = (case index_get ix sig of None \<Rightarrow> [] | Some p \<Rightarrow> posting_ids rb p)"

section \<open>Postings keep their ids through every tier\<close>

fun posting_inv :: "'bm posting \<Rightarrow> bool" where
  "posting_inv (Inline ids len) \<longleftrightarrow> length ids = INLINE_CAP \<and> 0 < unat len \<and> unat len \<le> INLINE_CAP"
| "posting_inv (Heap v) \<longleftrightarrow> INLINE_CAP < length v \<and> length v \<le> ROARING_THRESHOLD"
| "posting_inv (Roaring bm) \<longleftrightarrow> True"

text \<open>The representation a posting of \<open>n\<close> distinct ids must have.\<close>

fun tier_of :: "nat \<Rightarrow> 'bm posting \<Rightarrow> bool" where
  "tier_of n (Inline ids len) \<longleftrightarrow> n \<le> INLINE_CAP"
| "tier_of n (Heap v) \<longleftrightarrow> INLINE_CAP < n \<and> n \<le> ROARING_THRESHOLD"
| "tier_of n (Roaring bm) \<longleftrightarrow> ROARING_THRESHOLD < n"

lemma unat_u8_one [simp]: "unat (1 :: u8) = 1"
  by simp

lemma unat_inline_succ: "unat (len :: u8) < INLINE_CAP \<Longrightarrow> unat (len + 1) = Suc (unat len)"
  by (subst unat_word_ariths) (simp add: INLINE_CAP_def)

lemma posting_new_inv [simp]: "posting_inv (posting_new x)"
  by (simp add: posting_new_def INLINE_CAP_def)

lemma posting_ids_new [simp]: "posting_ids rb (posting_new x) = [x]"
  by (simp add: posting_new_def INLINE_CAP_def eval_nat_numeral)

lemma posting_push_inv [simp]: "posting_inv p \<Longrightarrow> posting_inv (posting_push rb x p)"
  by (cases p) (auto simp: Let_def INLINE_CAP_def ROARING_THRESHOLD_def unat_inline_succ)

lemma rb_fold_insert:
  assumes "roaring_ok rb"
  shows "set (rb_iter rb (fold (rb_insert rb) xs bm)) = set xs \<union> set (rb_iter rb bm)"
  using assms by (induction xs arbitrary: bm) (auto simp: roaring_ok_def)

lemma set_posting_push:
  assumes "roaring_ok rb" "posting_inv p"
  shows "set (posting_ids rb (posting_push rb x p)) = insert x (set (posting_ids rb p))"
proof (cases p)
  case (Inline ids len)
  then show ?thesis using assms(2)
    by (auto simp: unat_inline_succ take_Suc_conv_app_nth)
next
  case (Heap v)
  then show ?thesis using assms rb_fold_insert [OF assms(1), of "v @ [x]" "rb_new rb"]
    by (auto simp: Let_def roaring_ok_def)
next
  case (Roaring bm)
  then show ?thesis using assms by (auto simp: roaring_ok_def)
qed

lemma roaring_ids_eqI:
  assumes "roaring_ok rb" "set (rb_iter rb bm) = set xs" "strict_sorted xs"
  shows "rb_iter rb bm = xs"
  using assms by (metis roaring_ok_def strict_sorted_eqI)

text \<open>Appending an id above all stored ones appends it to the visited list.\<close>

lemma posting_push_ascending:
  assumes "roaring_ok rb" "posting_inv p" "strict_sorted (posting_ids rb p @ [x])"
  shows "posting_ids rb (posting_push rb x p) = posting_ids rb p @ [x]"
proof (cases p)
  case (Inline ids len)
  then show ?thesis using assms(2)
    by (auto simp: unat_inline_succ take_Suc_conv_app_nth)
next
  case (Heap v)
  have "rb_iter rb (fold (rb_insert rb) (v @ [x]) (rb_new rb)) = v @ [x]"
    using assms Heap rb_fold_insert [OF assms(1), of "v @ [x]" "rb_new rb"]
    by (intro roaring_ids_eqI) (auto simp: roaring_ok_def)
  then show ?thesis using Heap by (auto simp: Let_def)
next
  case (Roaring bm)
  then show ?thesis using assms by (auto simp: roaring_ok_def intro!: roaring_ids_eqI)
qed

lemma posting_len_ids:
  "roaring_ok rb \<Longrightarrow> posting_inv p \<Longrightarrow> posting_len rb p = length (posting_ids rb p)"
  by (cases p) (auto simp: roaring_ok_def)

lemma tier_of_push:
  assumes "roaring_ok rb" "posting_inv p" "strict_sorted (posting_ids rb p @ [x])" "tier_of (posting_len rb p) p"
  shows "tier_of (Suc (posting_len rb p)) (posting_push rb x p)"
  using assms by (cases p) (auto simp: Let_def INLINE_CAP_def ROARING_THRESHOLD_def)

lemma fold_push_ascending:
  assumes "roaring_ok rb" "posting_inv p" "strict_sorted (posting_ids rb p @ xs)" "tier_of (posting_len rb p) p"
  shows "posting_inv (fold (posting_push rb) xs p) \<and>
    posting_ids rb (fold (posting_push rb) xs p) = posting_ids rb p @ xs \<and>
    tier_of (posting_len rb p + length xs) (fold (posting_push rb) xs p)"
  using assms(2-)
proof (induction xs arbitrary: p)
  case (Cons x xs)
  have asc: "strict_sorted (posting_ids rb p @ [x])" using Cons.prems(2) by (auto simp: sorted_wrt_append)
  note push = posting_push_ascending [OF assms(1) Cons.prems(1) asc]
  have len: "posting_len rb (posting_push rb x p) = Suc (posting_len rb p)"
    using push Cons.prems(1) by (simp add: posting_len_ids assms(1))
  have "tier_of (posting_len rb (posting_push rb x p)) (posting_push rb x p)"
    using tier_of_push [OF assms(1) Cons.prems(1) asc Cons.prems(3)] len by simp
  then show ?case using Cons.IH [of "posting_push rb x p"] Cons.prems push len by simp
qed simp

section \<open>The client's view of an index\<close>

text \<open>A segment relies on an index only through the ids a probe of a signature
  can reach: the id of a row under exactly the signatures it was inserted under.\<close>

locale candidate_source =
  fixes inv :: "'ix \<Rightarrow> bool"
    and reach :: "'ix \<Rightarrow> u64 \<Rightarrow> u32 set"
    and ins :: "u64 \<Rightarrow> u32 \<Rightarrow> 'ix \<Rightarrow> 'ix"
  assumes ins_inv: "inv ix \<Longrightarrow> inv (ins sig i ix)"
    and reach_ins: "inv ix \<Longrightarrow> reach (ins sig i ix) s = (if s = sig then insert i (reach ix s) else reach ix s)"
begin

lemma insert_all:
  "inv ix \<Longrightarrow> inv (fold (\<lambda>sig. ins sig i) sigs ix) \<and>
     reach (fold (\<lambda>sig. ins sig i) sigs ix) s = reach ix s \<union> (if s \<in> set sigs then {i} else {})"
  by (induction sigs arbitrary: ix) (auto simp: ins_inv reach_ins)

lemma insert_ops:
  "inv ix \<Longrightarrow> inv (fold (\<lambda>(sig, i). ins sig i) ops ix) \<and>
     reach (fold (\<lambda>(sig, i). ins sig i) ops ix) s = reach ix s \<union> {i. (s, i) \<in> set ops}"
  by (induction ops arbitrary: ix) (auto simp: ins_inv reach_ins split: if_splits)

end

definition index_inv :: "'bm roaring \<Rightarrow> 'bm candidate_index \<Rightarrow> bool" where
  "index_inv rb ix \<longleftrightarrow> roaring_ok rb \<and> distinct (map fst ix) \<and> (\<forall>e \<in> set ix. posting_inv (snd e))"

definition index_reach :: "'bm roaring \<Rightarrow> 'bm candidate_index \<Rightarrow> u64 \<Rightarrow> u32 set" where
  "index_reach rb ix sig = set (index_ids rb ix sig)"

lemma map_default_inv:
  assumes "\<forall>e \<in> set ix. P (snd e)" "P v" "\<And>p. P p \<Longrightarrow> P (f p)"
  shows "\<forall>e \<in> set (AList.map_default k v f ix). P (snd e)"
  using assms by (induction ix) auto

lemma index_inv_new [simp]: "roaring_ok rb \<Longrightarrow> index_inv rb index_new"
  by (simp add: index_inv_def index_new_def)

lemma index_inv_insert: "index_inv rb ix \<Longrightarrow> index_inv rb (index_insert rb sig x ix)"
  unfolding index_inv_def index_insert_def
  using map_default_inv [of ix posting_inv "posting_new x" "posting_push rb x" sig]
  by (simp add: distinct_map_default)

lemma index_get_insert:
  "index_get (index_insert rb sig x ix) s =
     (if s = sig then Some (case index_get ix sig of None \<Rightarrow> posting_new x | Some p \<Rightarrow> posting_push rb x p)
      else index_get ix s)"
  by (simp add: index_get_def index_insert_def map_of_map_default split: option.split)

lemma index_get_inv: "index_inv rb ix \<Longrightarrow> index_get ix s = Some p \<Longrightarrow> posting_inv p"
  by (auto simp: index_inv_def index_get_def dest: map_of_SomeD)

lemma index_ids_get [simp]:
  "index_get ix s = None \<Longrightarrow> index_ids rb ix s = []"
  "index_get ix s = Some p \<Longrightarrow> index_ids rb ix s = posting_ids rb p"
  by (simp_all add: index_ids_def)

lemma index_ids_insert:
  "index_ids rb (index_insert rb sig x ix) s =
     (if s = sig then (case index_get ix sig of None \<Rightarrow> [x] | Some p \<Rightarrow> posting_ids rb (posting_push rb x p))
      else index_ids rb ix s)"
  by (simp add: index_ids_def index_get_insert split: option.split)

lemma index_reach_insert:
  assumes "index_inv rb ix"
  shows "index_reach rb (index_insert rb sig x ix) s =
    (if s = sig then insert x (index_reach rb ix s) else index_reach rb ix s)"
proof (cases "index_get ix sig")
  case (Some p)
  then have "set (posting_ids rb (posting_push rb x p)) = insert x (set (posting_ids rb p))"
    using assms index_get_inv [OF assms] by (simp add: set_posting_push index_inv_def)
  then show ?thesis using Some by (simp add: index_reach_def index_ids_insert)
qed (simp add: index_reach_def index_ids_insert)

interpretation ci: candidate_source "index_inv rb" "index_reach rb" "index_insert rb" for rb :: "'bm roaring"
  by unfold_locales (simp_all add: index_inv_insert index_reach_insert)

section \<open>Properties of the index\<close>

definition list_bitmap :: "u32 list roaring" where
  "list_bitmap = \<lparr>rb_new = [], rb_insert = (#), rb_iter = sort_dedup, rb_len = length \<circ> sort_dedup\<rparr>"

lemma list_bitmap_ok: "roaring_ok list_bitmap"
  by (simp add: roaring_ok_def list_bitmap_def)

text \<open>
  A posting that receives ascending ids keeps exactly those ids in order
  while it moves from the inline array to the heap vector to the bitmap, reports
  their number, and uses the tier its cardinality calls for.
\<close>
theorem posting_tiers:
  assumes "roaring_ok rb" "strict_sorted (x # xs)"
  shows "posting_ids rb (fold (posting_push rb) xs (posting_new x)) = x # xs \<and>
    posting_len rb (fold (posting_push rb) xs (posting_new x)) = Suc (length xs) \<and>
    tier_of (Suc (length xs)) (fold (posting_push rb) xs (posting_new x))"
proof -
  have "posting_len rb (posting_new x) = 1" "tier_of 1 (posting_new x)"
    by (simp_all add: posting_new_def INLINE_CAP_def)
  moreover have "strict_sorted (posting_ids rb (posting_new x) @ xs)" using assms(2) by simp
  ultimately show ?thesis
    using fold_push_ascending [OF assms(1) posting_new_inv, of x xs]
      posting_len_ids [OF assms(1), of "fold (posting_push rb) xs (posting_new x)"]
    by (metis One_nat_def append_Cons append_Nil length_Cons plus_1_eq_Suc posting_ids_new)
qed

theorem posting_tiers_witness:
  "posting_ids list_bitmap (fold (posting_push list_bitmap) (map of_nat [1 ..< 300]) (posting_new 0)) =
     map of_nat [0 ..< 300]"
proof -
  have cons: "map (of_nat :: nat \<Rightarrow> u32) [0 ..< 300] = 0 # map of_nat [1 ..< 300]"
    by (simp add: upt_conv_Cons)
  have "strict_sorted (map (of_nat :: nat \<Rightarrow> u32) [0 ..< 300])"
    by (simp add: sorted_wrt_iff_nth_less word_less_nat_alt unat_of_nat)
  then show ?thesis unfolding cons using posting_tiers [OF list_bitmap_ok] by blast
qed

lemma index_keys_insert: "set (index_keys (index_insert rb s x ix)) = insert s (set (index_keys ix))"
  by (simp add: index_keys_def index_insert_def dom_map_default)

lemma index_keys_ops:
  "set (index_keys (fold (\<lambda>(s, x). index_insert rb s x) ops ix)) = fst ` set ops \<union> set (index_keys ix)"
  by (induction ops arbitrary: ix) (auto simp: index_keys_insert)

lemma index_ids_insert_ascending:
  assumes "index_inv rb ix" "strict_sorted (index_ids rb ix sig @ [x])"
  shows "index_ids rb (index_insert rb sig x ix) s =
    (if s = sig then index_ids rb ix sig @ [x] else index_ids rb ix s)"
proof (cases "index_get ix sig")
  case (Some p)
  then have "posting_ids rb (posting_push rb x p) = posting_ids rb p @ [x]"
    using assms index_get_inv [OF assms(1)] by (simp add: posting_push_ascending index_inv_def index_ids_def)
  then show ?thesis using Some by (simp add: index_ids_insert)
qed (simp add: index_ids_insert)

definition ids_under :: "u64 \<Rightarrow> (u64 \<times> u32) list \<Rightarrow> u32 list" where
  "ids_under sig ops = map snd (filter (\<lambda>op. fst op = sig) ops)"

lemma index_ids_ops_ascending:
  assumes "index_inv rb ix" "\<forall>s. strict_sorted (index_ids rb ix s @ ids_under s ops)"
  shows "index_ids rb (fold (\<lambda>(s, x). index_insert rb s x) ops ix) sig = index_ids rb ix sig @ ids_under sig ops"
  using assms
proof (induction ops arbitrary: ix)
  case (Cons op ops)
  obtain s x where op: "op = (s, x)" by (cases op)
  have cons: "ids_under t (op # ops) = (if t = s then x # ids_under t ops else ids_under t ops)" for t
    by (simp add: ids_under_def op)
  have "strict_sorted (index_ids rb ix s @ x # ids_under s ops)"
    using Cons.prems(2) [rule_format, of s] by (simp add: cons)
  then have "strict_sorted (index_ids rb ix s @ [x])" by (auto simp: sorted_wrt_append)
  note step = index_ids_insert_ascending [OF Cons.prems(1) this]
  have "strict_sorted (index_ids rb (index_insert rb s x ix) t @ ids_under t ops)" for t
    using Cons.prems(2) [rule_format, of t] by (cases "t = s") (simp_all add: step cons)
  then have "index_ids rb (fold (\<lambda>(s, x). index_insert rb s x) ops (index_insert rb s x ix)) sig =
      index_ids rb (index_insert rb s x ix) sig @ ids_under sig ops"
    using Cons.IH [OF index_inv_insert [OF Cons.prems(1)]] by blast
  then show ?case unfolding cons step by (simp add: op)
qed (simp add: ids_under_def)

text \<open>
  C32: After any sequence of insertions a probe of a signature reaches exactly
  the ids inserted under it, the key list holds exactly the signatures used, and
  when each signature received ascending ids the probe visits them in that order.
\<close>
theorem index_insert_lookup:
  assumes "roaring_ok rb"
  shows "index_reach rb (fold (\<lambda>(s, x). index_insert rb s x) ops index_new) sig = {x. (sig, x) \<in> set ops} \<and>
    set (index_keys (fold (\<lambda>(s, x). index_insert rb s x) ops index_new)) = fst ` set ops \<and>
    ((\<forall>s. strict_sorted (ids_under s ops)) \<longrightarrow>
      index_ids rb (fold (\<lambda>(s, x). index_insert rb s x) ops index_new) sig = ids_under sig ops)"
proof -
  have empty: "index_ids rb index_new s = []" "index_keys index_new = []" for s
    by (simp_all add: index_ids_def index_get_def index_new_def index_keys_def)
  show ?thesis
    using ci.insert_ops [OF index_inv_new [OF assms], of ops sig] index_keys_ops [of rb ops index_new]
      index_ids_ops_ascending [OF index_inv_new [OF assms], of ops sig]
    by (simp add: empty index_reach_def)
qed

theorem index_insert_lookup_witness:
  "index_reach list_bitmap
     (fold (\<lambda>(s, x). index_insert list_bitmap s x) [(7, 0), (9, 0), (7, 1)] index_new) 7 = {0, 1}"
  using index_insert_lookup [OF list_bitmap_ok, of "[(7, 0), (9, 0), (7, 1)]" 7] by auto

end
