(* ===== verification/Segment_Filter.thy ===== *)
theory Segment_Filter
  imports Prelude "HOL-Library.Log_Nat"
begin

text \<open>
  The anchor filter of a sealed segment (\<open>filter.rs\<close>): a Bloom filter over the
  segment's signature keys whose bits for one key all lie in one 512-bit block.
  \<open>None\<close> is the panic of an index outside the word array. The promise to the
  segment is the locale \<open>membership_filter\<close>: building never fails, querying
  never fails, and a key that was inserted is never rejected.
\<close>

section \<open>The filter\<close>

definition WORDS_PER_BLOCK :: nat where
  "WORDS_PER_BLOCK = 8"

definition NUM_PROBES :: nat where
  "NUM_PROBES = 6"

record segment_filter =
  filter_data :: "u64 list"
  num_blocks :: nat
  filter_mask :: u64

text \<open>\<open>usize::next_power_of_two\<close>\<close>

definition next_power_of_two :: "nat \<Rightarrow> nat" where
  "next_power_of_two n = (if n \<le> 1 then 1 else 2 ^ floorlog 2 (n - 1))"

definition block_offset :: "u64 \<Rightarrow> u64 \<Rightarrow> nat" where
  "block_offset key m = unat (drop_bit 32 key AND m) * WORDS_PER_BLOCK"

text \<open>The bit position of probe \<open>i\<close>, as the word of the block and the bit of that word.\<close>

definition probe_bit :: "u64 \<Rightarrow> u32 \<Rightarrow> u32" where
  "probe_bit key i =
     (let lo = ucast key; h1 = lo AND 0x1FF; h2 = drop_bit 9 lo OR 1 in (h1 + i * h2) AND 0x1FF)"

definition probe_word :: "u64 \<Rightarrow> u32 \<Rightarrow> nat" where
  "probe_word key i = unat (drop_bit 6 (probe_bit key i))"

definition probe_mask :: "u64 \<Rightarrow> u32 \<Rightarrow> u64" where
  "probe_mask key i = mask_of_bit (unat (probe_bit key i AND 63))"

fun set_probe_loop :: "nat \<Rightarrow> u64 \<Rightarrow> u32 list \<Rightarrow> u64 list \<Rightarrow> u64 list option" where
  "set_probe_loop start key [] data = Some data"
| "set_probe_loop start key (i # ps) data =
     do {
       w \<leftarrow> at_index data (start + probe_word key i);
       set_probe_loop start key ps (data[start + probe_word key i := w OR probe_mask key i])
     }"

definition probe_indices :: "u32 list" where
  "probe_indices = map of_nat [0 ..< NUM_PROBES]"

definition set_probes :: "u64 list \<Rightarrow> nat \<Rightarrow> u64 \<Rightarrow> u64 list option" where
  "set_probes data start key = set_probe_loop start key probe_indices data"

fun check_probe_loop :: "u64 list \<Rightarrow> nat \<Rightarrow> u64 \<Rightarrow> u32 list \<Rightarrow> bool option" where
  "check_probe_loop data start key [] = Some True"
| "check_probe_loop data start key (i # ps) =
     do {
       w \<leftarrow> at_index data (start + probe_word key i);
       if w AND probe_mask key i = 0 then Some False else check_probe_loop data start key ps
     }"

definition check_probes :: "u64 list \<Rightarrow> nat \<Rightarrow> u64 \<Rightarrow> bool option" where
  "check_probes data start key = check_probe_loop data start key probe_indices"

fun set_keys :: "u64 \<Rightarrow> u64 list \<Rightarrow> u64 list \<Rightarrow> u64 list option" where
  "set_keys m [] data = Some data"
| "set_keys m (key # keys) data =
     do { data' \<leftarrow> set_probes data (block_offset key m) key; set_keys m keys data' }"

definition filter_build :: "u64 list \<Rightarrow> segment_filter option" where
  "filter_build keys =
     (if keys = [] then Some \<lparr>filter_data = [], num_blocks = 0, filter_mask = 0\<rparr>
      else
        let blocks = next_power_of_two (max (length keys div 51) 1);
            m = of_nat (blocks - 1)
        in do {
          data \<leftarrow> set_keys m keys (replicate (blocks * WORDS_PER_BLOCK) 0);
          Some \<lparr>filter_data = data, num_blocks = blocks, filter_mask = m\<rparr>
        })"

definition bloom_check :: "u64 \<Rightarrow> u64 list \<Rightarrow> u64 \<Rightarrow> bool option" where
  "bloom_check key data m =
     (if data = [] then Some False else check_probes data (block_offset key m) key)"

definition may_contain :: "segment_filter \<Rightarrow> u64 \<Rightarrow> bool option" where
  "may_contain f key =
     (if filter_data f = [] then Some False
      else check_probes (filter_data f) (block_offset key (filter_mask f)) key)"

section \<open>Probes stay inside their block\<close>

lemma next_power_of_two_pos: "0 < next_power_of_two n"
  by (simp add: next_power_of_two_def)

lemma next_power_of_two_bounds: "n \<le> next_power_of_two n \<and> next_power_of_two n \<le> 2 * max n 1"
proof (cases "n \<le> 1")
  case False
  define b where "b = floorlog 2 (n - 1)"
  have bounds: "2 ^ (b - 1) \<le> n - 1" "n - 1 < 2 ^ b"
    using False floorlog_bounds [of "n - 1" 2] by (simp_all add: b_def)
  have "b \<noteq> 0" using False by (simp add: b_def floorlog_eq_zero_iff)
  then have "(2::nat) ^ b = 2 * 2 ^ (b - 1)" by (simp add: power_eq_if)
  moreover have "next_power_of_two n = 2 ^ b" using False by (simp add: next_power_of_two_def b_def)
  ultimately show ?thesis using False bounds by linarith
qed (auto simp: next_power_of_two_def)

lemma unat_and_le: "unat (a AND b) \<le> unat b" for a b :: "'a::len word"
  using word_and_le1 [of a b] by (simp add: word_le_nat_alt)

lemma probe_word_bound: "probe_word key i < WORDS_PER_BLOCK"
proof -
  have "unat (probe_bit key i) \<le> 0x1FF"
    unfolding probe_bit_def Let_def using unat_and_le [of _ "0x1FF :: u32"] by simp
  then show ?thesis by (simp add: probe_word_def WORDS_PER_BLOCK_def drop_bit_eq_div unat_div)
qed

lemma probe_bit_index: "unat (probe_bit key i AND 63) < 64"
  using unat_and_le [of "probe_bit key i" 63] by simp

lemma probe_mask_set_iff: "w AND probe_mask key i = 0 \<longleftrightarrow> \<not> bit w (unat (probe_bit key i AND 63))"
  using probe_bit_index [of key i] by (auto simp: probe_mask_def mask_simps)

lemma block_in_range:
  assumes "0 < blocks"
  shows "block_offset key (of_nat (blocks - 1)) + WORDS_PER_BLOCK \<le> blocks * WORDS_PER_BLOCK"
proof -
  have "unat (drop_bit 32 key AND of_nat (blocks - 1)) \<le> unat (of_nat (blocks - 1) :: u64)"
    by (rule unat_and_le)
  also have "\<dots> \<le> blocks - 1"
    by (simp add: unat_of_nat)
  finally have "Suc (unat (drop_bit 32 key AND of_nat (blocks - 1))) \<le> blocks" using assms by simp
  from mult_le_mono1 [OF this, of WORDS_PER_BLOCK] show ?thesis by (simp add: block_offset_def algebra_simps)
qed

section \<open>Bits are only ever added\<close>

definition grows :: "u64 list \<Rightarrow> u64 list \<Rightarrow> bool" where
  "grows data data' \<longleftrightarrow> length data' = length data \<and>
     (\<forall>j < length data. \<forall>n. bit (data ! j) n \<longrightarrow> bit (data' ! j) n)"

definition probed :: "u64 list \<Rightarrow> nat \<Rightarrow> u64 \<Rightarrow> u32 list \<Rightarrow> bool" where
  "probed data start key ps \<longleftrightarrow>
     (\<forall>i \<in> set ps. bit (data ! (start + probe_word key i)) (unat (probe_bit key i AND 63)))"

lemma grows_refl [simp]: "grows data data"
  by (simp add: grows_def)

lemma grows_trans: "grows a b \<Longrightarrow> grows b c \<Longrightarrow> grows a c"
  by (simp add: grows_def)

lemma probed_grows:
  assumes "probed data start key ps" "grows data data'" "start + WORDS_PER_BLOCK \<le> length data"
  shows "probed data' start key ps"
  unfolding probed_def
proof
  fix i assume "i \<in> set ps"
  moreover have "start + probe_word key i < length data" using assms(3) probe_word_bound [of key i] by simp
  ultimately show "bit (data' ! (start + probe_word key i)) (unat (probe_bit key i AND 63))"
    using assms(1,2) by (simp add: probed_def grows_def)
qed

lemma set_probe_loop_correct:
  assumes "start + WORDS_PER_BLOCK \<le> length data"
  shows "\<exists>data'. set_probe_loop start key ps data = Some data' \<and> grows data data' \<and> probed data' start key ps"
  using assms
proof (induction "ps" arbitrary: data)
  case (Cons i ps)
  let ?j = "start + probe_word key i"
  let ?d = "data[?j := data ! ?j OR probe_mask key i]"
  have j: "?j < length data" using Cons.prems probe_word_bound [of key i] by simp
  have g: "grows data ?d" using j by (auto simp: grows_def nth_list_update bit_or_iff)
  have b: "probed ?d start key [i]"
    using j probe_bit_index [of key i] by (simp add: probed_def bit_or_iff probe_mask_def mask_simps)
  obtain data' where d': "set_probe_loop start key ps ?d = Some data'" "grows ?d data'" "probed data' start key ps"
    using Cons.IH [of ?d] Cons.prems by auto
  have "probed data' start key [i]"
    using probed_grows [OF b d'(2)] Cons.prems by simp
  then have "probed data' start key (i # ps)" using d'(3) by (simp add: probed_def)
  then show ?case using d' j grows_trans [OF g d'(2)] by (simp add: at_index_def)
qed (simp add: probed_def)

lemma check_probe_loop_correct:
  assumes "start + WORDS_PER_BLOCK \<le> length data"
  shows "check_probe_loop data start key ps = Some (probed data start key ps)"
proof (induction "ps")
  case (Cons i ps)
  have "start + probe_word key i < length data" using assms probe_word_bound [of key i] by simp
  then show ?case using Cons by (auto simp: at_index_def probed_def probe_mask_set_iff)
qed (simp add: probed_def)

lemma set_keys_correct:
  assumes "0 < blocks" "length data = blocks * WORDS_PER_BLOCK"
  shows "\<exists>data'. set_keys (of_nat (blocks - 1)) keys data = Some data' \<and> grows data data' \<and>
    (\<forall>key \<in> set keys. probed data' (block_offset key (of_nat (blocks - 1))) key probe_indices)"
  using assms(2)
proof (induction keys arbitrary: data)
  case (Cons key keys)
  let ?start = "block_offset key (of_nat (blocks - 1))"
  have range: "?start + WORDS_PER_BLOCK \<le> length data"
    using block_in_range [OF assms(1)] Cons.prems by simp
  obtain d where d: "set_probes data ?start key = Some d" "grows data d" "probed d ?start key probe_indices"
    using set_probe_loop_correct [OF range] by (auto simp: set_probes_def)
  have len: "length d = blocks * WORDS_PER_BLOCK" using d(2) Cons.prems by (simp add: grows_def)
  obtain d' where d': "set_keys (of_nat (blocks - 1)) keys d = Some d'" "grows d d'"
    "\<forall>key \<in> set keys. probed d' (block_offset key (of_nat (blocks - 1))) key probe_indices"
    using Cons.IH [OF len] by auto
  have "probed d' ?start key probe_indices"
    using probed_grows [OF d(3) d'(2)] block_in_range [OF assms(1), of key] len by simp
  then show ?case using d d' grows_trans by auto
qed simp

text \<open>Every filter that \<open>filter_build\<close> returns is well formed, so a query stays in range.\<close>

definition filter_wf :: "segment_filter \<Rightarrow> bool" where
  "filter_wf f \<longleftrightarrow> length (filter_data f) = num_blocks f * WORDS_PER_BLOCK \<and>
     filter_mask f = of_nat (num_blocks f - 1)"

lemma may_contain_wf:
  assumes "filter_wf f" "0 < num_blocks f"
  shows "may_contain f key =
    Some (probed (filter_data f) (block_offset key (filter_mask f)) key probe_indices)"
proof -
  have "filter_data f \<noteq> []" using assms by (auto simp: filter_wf_def WORDS_PER_BLOCK_def)
  moreover have "block_offset key (filter_mask f) + WORDS_PER_BLOCK \<le> length (filter_data f)"
    using block_in_range [OF assms(2)] assms(1) by (simp add: filter_wf_def)
  ultimately show ?thesis by (simp add: may_contain_def check_probes_def check_probe_loop_correct)
qed

lemma filter_build_correct:
  "\<exists>f. filter_build keys = Some f \<and> filter_wf f \<and> (num_blocks f = 0 \<longleftrightarrow> keys = []) \<and>
     num_blocks f \<le> 2 * max (length keys div 51) 1 \<and> length keys div 51 \<le> num_blocks f \<and>
     (\<forall>key \<in> set keys. may_contain f key = Some True)"
proof (cases "keys = []")
  case False
  define blocks where "blocks = next_power_of_two (max (length keys div 51) 1)"
  have pos: "0 < blocks" unfolding blocks_def by (rule next_power_of_two_pos)
  obtain d where d: "set_keys (of_nat (blocks - 1)) keys (replicate (blocks * WORDS_PER_BLOCK) 0) = Some d"
    "grows (replicate (blocks * WORDS_PER_BLOCK) 0) d"
    "\<forall>key \<in> set keys. probed d (block_offset key (of_nat (blocks - 1))) key probe_indices"
    using set_keys_correct [OF pos, of "replicate (blocks * WORDS_PER_BLOCK) 0" keys] by auto
  define f where "f = \<lparr>filter_data = d, num_blocks = blocks, filter_mask = of_nat (blocks - 1)\<rparr>"
  have wf: "filter_wf f" "num_blocks f = blocks" using d(2) by (simp_all add: f_def filter_wf_def grows_def)
  have "filter_build keys = Some f"
    using False d(1) by (simp add: filter_build_def Let_def f_def blocks_def)
  moreover have "\<forall>key \<in> set keys. may_contain f key = Some True"
    using may_contain_wf [OF wf(1)] wf(2) pos d(3) by (simp add: f_def)
  moreover have "length keys div 51 \<le> blocks" "blocks \<le> 2 * max (length keys div 51) 1"
    using next_power_of_two_bounds [of "max (length keys div 51) 1"] by (auto simp: blocks_def)
  ultimately show ?thesis using wf pos False by auto
qed (simp add: filter_build_def filter_wf_def)

section \<open>The promise to the segment\<close>

locale membership_filter =
  fixes build :: "'k list \<Rightarrow> 'f option"
    and query :: "'f \<Rightarrow> 'k \<Rightarrow> bool option"
  assumes build_total: "\<exists>f. build keys = Some f"
    and query_total: "build keys = Some f \<Longrightarrow> \<exists>b. query f k = Some b"
    and no_false_negative: "build keys = Some f \<Longrightarrow> k \<in> set keys \<Longrightarrow> query f k = Some True"
begin

lemma rejected_absent: "build keys = Some f \<Longrightarrow> query f k = Some False \<Longrightarrow> k \<notin> set keys"
  using no_false_negative by fastforce

text \<open>Skipping a lookup that the filter rejects loses nothing.\<close>

lemma skip_lossless:
  assumes "build keys = Some f" "\<And>k. k \<notin> set keys \<Longrightarrow> look k = none"
  shows "map_option (\<lambda>hit. if hit then look k else none) (query f k) = Some (look k)"
proof -
  obtain b where "query f k = Some b" using query_total [OF assms(1)] by blast
  then show ?thesis using rejected_absent [OF assms(1), of k] assms(2) by (cases b) simp_all
qed

end

lemma may_contain_total:
  assumes "filter_build keys = Some f"
  shows "\<exists>b. may_contain f k = Some b"
proof (cases "num_blocks f = 0")
  case True
  moreover have "filter_wf f" using filter_build_correct [of keys] assms by force
  ultimately show ?thesis by (intro exI [of _ False]) (simp add: may_contain_def filter_wf_def)
next
  case False
  moreover have "filter_wf f" using filter_build_correct [of keys] assms by force
  ultimately show ?thesis by (simp add: may_contain_wf)
qed

interpretation bloom: membership_filter filter_build may_contain
proof
  show "\<exists>f. filter_build keys = Some f" for keys using filter_build_correct [of keys] by blast
  show "\<exists>b. may_contain f k = Some b" if "filter_build keys = Some f" for keys f k
    using that by (rule may_contain_total)
  show "may_contain f k = Some True" if "filter_build keys = Some f" "k \<in> set keys" for keys f k
    using that filter_build_correct [of keys] by auto
qed

text \<open>
  C33: The anchor filter has no false negatives. Building it never fails, every
  key it was built from passes, a query of any other key ps answered without
  leaving the word array (and is rejected when the segment is empty), the check
  on the raw arrays of a mapped segment gives the same answer, and the filter
  has at least one block for 51 keys and at most twice that number of blocks.
\<close>
theorem filter_no_false_negatives:
  "\<exists>f. filter_build keys = Some f \<and>
     (\<forall>key \<in> set keys. may_contain f key = Some True) \<and>
     (\<forall>key. may_contain f key \<noteq> None \<and> bloom_check key (filter_data f) (filter_mask f) = may_contain f key) \<and>
     (keys = [] \<longrightarrow> (\<forall>key. may_contain f key = Some False)) \<and>
     length keys div 51 \<le> num_blocks f \<and> num_blocks f \<le> 2 * max (length keys div 51) 1"
proof -
  obtain f where f: "filter_build keys = Some f" "length keys div 51 \<le> num_blocks f"
    "num_blocks f \<le> 2 * max (length keys div 51) 1" "keys = [] \<longrightarrow> filter_data f = []"
    using filter_build_correct [of keys] by (auto simp: filter_wf_def)
  moreover have "\<forall>key. may_contain f key \<noteq> None" using bloom.query_total [OF f(1)] by fastforce
  ultimately show ?thesis using bloom.no_false_negative [OF f(1)]
    by (auto simp: bloom_check_def may_contain_def)
qed

theorem filter_no_false_negatives_witness:
  "\<exists>f. filter_build [11, 22 + 2 ^ 40, 33] = Some f \<and> may_contain f 33 = Some True"
  using filter_no_false_negatives [of "[11, 22 + 2 ^ 40, 33]"] by auto

end
