(* ===== verification/Segment_Store.thy ===== *)
theory Segment_Store
  imports Exact_Properties Anchor_Plan Candidate_Index Segment_Filter
begin

text \<open>
  An in-memory segment (\<open>segment.rs\<close>, \<open>segment/seg/write.rs\<close>, \<open>segment/seg/parts.rs\<close>):
  the exact store, the three candidate indexes, liveness, classes, the reverse
  index and the groups of rows that share one canonical body. \<open>None\<close> is a panic.
  The bitmap library behind large postings is the parameter \<open>rb\<close>.
\<close>

section \<open>State\<close>

type_synonym 'k locals_map = "('k \<times> u32 list) list"

record 'bm segment =
  seg_main :: "'bm candidate_index"
  seg_broad :: "'bm candidate_index"
  seg_hot :: "'bm candidate_index"
  seg_exact :: exact_store
  seg_class :: "cost_class list"
  seg_alive :: "bool list"
  alive_counter :: nat
  live_phrase_predicates :: nat
  seg_filter :: "segment_filter option"
  seg_tag_summary :: "tag_id list option"
  vocab_epoch :: u64
  compiler_semantics_version :: u32
  logical_index :: "u64 locals_map"
  dup_of :: "u32 list"
  dup_members :: "u32 locals_map"
  body_index :: "u64 locals_map"

record compile_knobs =
  accept_class_d :: bool
  hot_anchor_threshold :: u32
  dedup_bodies :: bool
  keep_visible :: bool

record added_compiled =
  added_local :: u32
  added_class :: cost_class
  added_would_be_hot :: bool
  added_body_hash :: u64
  is_duplicate :: bool

definition CURRENT_COMPILER_SEMANTICS_VERSION :: u32 where
  "CURRENT_COMPILER_SEMANTICS_VERSION = 8"

definition segment_new :: "'bm segment" where
  "segment_new = \<lparr>seg_main = index_new, seg_broad = index_new, seg_hot = index_new, seg_exact = store_new,
     seg_class = [], seg_alive = [], alive_counter = 0, live_phrase_predicates = 0, seg_filter = None,
     seg_tag_summary = None, vocab_epoch = 0, compiler_semantics_version = CURRENT_COMPILER_SEMANTICS_VERSION,
     logical_index = [], dup_of = [], dup_members = [], body_index = []\<rparr>"

section \<open>Reads\<close>

definition has_dup_groups :: "'bm segment \<Rightarrow> bool" where
  "has_dup_groups sg \<longleftrightarrow> dup_members sg \<noteq> []"

definition locals_at :: "'k locals_map \<Rightarrow> 'k \<Rightarrow> u32 list" where
  "locals_at m k = (case map_of m k of None \<Rightarrow> [] | Some v \<Rightarrow> v)"

definition members_of :: "'bm segment \<Rightarrow> u32 \<Rightarrow> u32 list" where
  "members_of sg leader = locals_at (dup_members sg) leader"

definition dup_leader_of :: "'bm segment \<Rightarrow> u32 \<Rightarrow> u32" where
  "dup_leader_of sg row = (case at_index (dup_of sg) (unat row) of None \<Rightarrow> row | Some l \<Rightarrow> l)"

definition segment_len :: "'bm segment \<Rightarrow> nat" where
  "segment_len sg = store_len (seg_exact sg)"

definition segment_is_empty :: "'bm segment \<Rightarrow> bool" where
  "segment_is_empty sg \<longleftrightarrow> store_is_empty (seg_exact sg)"

definition has_hot_entries :: "'bm segment \<Rightarrow> bool" where
  "has_hot_entries sg \<longleftrightarrow> 0 < num_signatures (seg_hot sg)"

definition segment_has_phrase_predicates :: "'bm segment \<Rightarrow> bool" where
  "segment_has_phrase_predicates sg \<longleftrightarrow> live_phrase_predicates sg \<noteq> 0"

definition alive_count :: "'bm segment \<Rightarrow> nat" where
  "alive_count sg = alive_counter sg"

definition locals_for_logical :: "'bm segment \<Rightarrow> u64 \<Rightarrow> u32 list" where
  "locals_for_logical sg logical = locals_at (logical_index sg) logical"

definition class_of :: "'bm segment \<Rightarrow> u32 \<Rightarrow> cost_class option" where
  "class_of sg row = at_index (seg_class sg) (unat row)"

definition verify_local :: "'bm segment \<Rightarrow> u32 \<Rightarrow> title_view \<Rightarrow> tag_predicate \<Rightarrow> bool option" where
  "verify_local sg row view pred = store_verify (seg_exact sg) row view pred"

definition is_alive :: "'bm segment \<Rightarrow> u32 \<Rightarrow> bool" where
  "is_alive sg row = (case at_index (seg_alive sg) (unat row) of None \<Rightarrow> False | Some a \<Rightarrow> a)"

fun count_rows :: "(u32 \<Rightarrow> bool option) \<Rightarrow> u32 list \<Rightarrow> nat option" where
  "count_rows f [] = Some 0"
| "count_rows f (i # is) = do { b \<leftarrow> f i; n \<leftarrow> count_rows f is; Some (of_bool b + n) }"

definition replicated_rows :: "'bm segment \<Rightarrow> u64 option" where
  "replicated_rows sg = map_option of_nat
     (count_rows (\<lambda>i. map_option (is_replicated \<circ> placed_mode) (placement_of (seg_exact sg) i))
       (map of_nat [0..<segment_len sg]))"

fun class_slot :: "cost_class \<Rightarrow> nat" where
  "class_slot ClassA = 0"
| "class_slot ClassB = 1"
| "class_slot ClassC = 2"
| "class_slot ClassD = 3"
| "class_slot ClassH = 4"

definition class_counts :: "'bm segment \<Rightarrow> u64 list \<Rightarrow> u64 list" where
  "class_counts sg c = fold (\<lambda>cl c. c[class_slot cl := c ! class_slot cl + 1]) (seg_class sg) c"

definition tag_summary_may_match :: "'bm segment \<Rightarrow> tag_predicate \<Rightarrow> bool" where
  "tag_summary_may_match sg pred =
     (case seg_tag_summary sg of None \<Rightarrow> True | Some ids \<Rightarrow> summary_may_match ids pred)"

text \<open>The sorted \<open>(logical, local)\<close> pairs of the reverse index, as two columns.\<close>

definition logical_columns :: "'bm segment \<Rightarrow> u64 list \<times> u32 list" where
  "logical_columns sg =
     (let pairs = sort (concat (map (\<lambda>(logical, locals). map (Pair logical) locals) (logical_index sg)))
      in (map fst pairs, map snd pairs))"

section \<open>Sealing\<close>

definition build_filter :: "'bm segment \<Rightarrow> 'bm segment option" where
  "build_filter sg =
     do {
       f \<leftarrow> filter_build (index_keys (seg_main sg) @ index_keys (seg_broad sg) @ index_keys (seg_hot sg));
       Some (sg\<lparr>seg_filter := Some f, seg_tag_summary := Some (tag_summary_build (tag_blob (seg_exact sg))),
         body_index := []\<rparr>)
     }"

section \<open>Adding a query\<close>

definition rejects_class_d :: "cost_class \<Rightarrow> extracted \<Rightarrow> bool \<Rightarrow> bool" where
  "rejects_class_d cls ex accept \<longleftrightarrow> cls = ClassD \<and> (\<not> accept \<or> \<not> has_negative_predicate ex)"

text \<open>\<open>entry(k).or_default().push(i)\<close>\<close>

definition push_local :: "'k \<Rightarrow> u32 \<Rightarrow> 'k locals_map \<Rightarrow> 'k locals_map" where
  "push_local k i m = AList.map_default k [i] (\<lambda>v. v @ [i]) m"

text \<open>
  The first leader with an equal body on the wanted side of the opt-in boundary;
  a member rides its leader's postings, so it may not cross that boundary.
\<close>

fun find_leader ::
  "exact_store \<Rightarrow> cost_class list \<Rightarrow> (u32 \<Rightarrow> bool option) \<Rightarrow> u32 \<Rightarrow> u32 list \<Rightarrow> u32 option option" where
  "find_leader st classes wanted row [] = Some None"
| "find_leader st classes wanted row (l # ls) =
     do {
       c \<leftarrow> at_index classes (unat l);
       w \<leftarrow> wanted l;
       e \<leftarrow> (if is_opt_in c = w then bodies_equal st l row else Some False);
       if e then Some (Some l) else find_leader st classes wanted row ls
     }"

definition leader_for :: "(u32 \<Rightarrow> bool option) \<Rightarrow> u64 \<Rightarrow> u32 \<Rightarrow> 'bm segment \<Rightarrow> u32 option option" where
  "leader_for wanted body_hash row sg =
     find_leader (seg_exact sg) (seg_class sg) wanted row (locals_at (body_index sg) body_hash)"

text \<open>The new row joins its leader's group and takes the leader's class.\<close>

definition join_group :: "u32 \<Rightarrow> u32 \<Rightarrow> 'bm segment \<Rightarrow> 'bm segment option" where
  "join_group leader row sg =
     do {
       c \<leftarrow> at_index (seg_class sg) (unat leader);
       Some (sg\<lparr>dup_of := dup_of sg @ [leader], dup_members := push_local leader row (dup_members sg),
         seg_class := seg_class sg @ [c]\<rparr>)
     }"

text \<open>Or it leads a group of its own, with postings under its keys.\<close>

definition insert_keys :: "'bm roaring \<Rightarrow> u32 \<Rightarrow> u64 list \<Rightarrow> u64 list \<Rightarrow> u64 list \<Rightarrow> 'bm segment \<Rightarrow> 'bm segment" where
  "insert_keys rb row mk bk hk sg =
     sg\<lparr>seg_main := fold (\<lambda>s. index_insert rb s row) mk (seg_main sg),
        seg_broad := fold (\<lambda>s. index_insert rb s row) bk (seg_broad sg),
        seg_hot := fold (\<lambda>s. index_insert rb s row) hk (seg_hot sg)\<rparr>"

definition lead_group ::
  "'bm roaring \<Rightarrow> u64 option \<Rightarrow> u32 \<Rightarrow> cost_class \<Rightarrow> u64 list \<Rightarrow> u64 list \<Rightarrow> u64 list \<Rightarrow> 'bm segment \<Rightarrow> 'bm segment" where
  "lead_group rb indexed row cls mk bk hk sg =
     insert_keys rb row mk bk hk
       (sg\<lparr>dup_of := dup_of sg @ [row],
           body_index := (case indexed of None \<Rightarrow> body_index sg | Some h \<Rightarrow> push_local h row (body_index sg)),
           seg_class := seg_class sg @ [cls]\<rparr>)"

definition enter_row :: "u32 \<Rightarrow> u64 \<Rightarrow> 'bm segment \<Rightarrow> 'bm segment option" where
  "enter_row row logical sg =
     do {
       phrases \<leftarrow> row_has_phrase_predicates (seg_exact sg) row;
       Some (sg\<lparr>seg_alive := seg_alive sg @ [True], alive_counter := Suc (alive_counter sg),
         live_phrase_predicates := live_phrase_predicates sg + of_bool phrases,
         logical_index := push_local logical row (logical_index sg)\<rparr>)
     }"

definition visible_plan :: "extracted \<Rightarrow> dict \<Rightarrow> query_placement \<Rightarrow> compile_knobs \<Rightarrow> sig_plan" where
  "visible_plan ex d pl knobs =
     (let plan = build_signatures ex d (hot_anchor_threshold knobs) in
      if keep_visible knobs \<or> placed_mode pl = ReplicatedAlwaysVisible then pin_visible plan else plan)"

definition add_compiled_with_source_generation ::
  "'bm roaring \<Rightarrow> extracted \<Rightarrow> tag_id list \<Rightarrow> dict \<Rightarrow> u64 \<Rightarrow> u32 \<Rightarrow> int \<Rightarrow> query_placement \<Rightarrow> u64 \<Rightarrow> compile_knobs \<Rightarrow>
   'bm segment \<Rightarrow> (added_compiled option \<times> 'bm segment) option" where
  "add_compiled_with_source_generation rb ex tags d logical ver prio pl gen knobs sg =
     (let plan = visible_plan ex d pl knobs in
      if rejects_class_d (sig_class plan) ex (accept_class_d knobs) then Some (None, sg)
      else
        let (row, st) = push_with_source_generation ex tags d ver logical prio pl gen (seg_exact sg);
            sg = sg\<lparr>seg_exact := st\<rparr>
        in do {
          body_hash \<leftarrow> body_signature st row;
          leader \<leftarrow> (if dedup_bodies knobs
                    then leader_for (\<lambda>_. Some (is_opt_in (sig_class plan))) body_hash row sg
                    else Some None);
          sg \<leftarrow> (case leader of
                  Some l \<Rightarrow> join_group l row sg
                | None \<Rightarrow> Some (lead_group rb (if dedup_bodies knobs then Some body_hash else None) row
                    (sig_class plan) (main_sigs plan) (broad_sigs plan) (hot_sigs plan) sg));
          sg \<leftarrow> enter_row row logical sg;
          c \<leftarrow> at_index (seg_class sg) (unat row);
          Some (Some \<lparr>added_local = row, added_class = c, added_would_be_hot = sig_would_be_hot plan,
            added_body_hash = body_hash, is_duplicate = (leader \<noteq> None)\<rparr>, sg)
        })"

definition add_compiled_ranked_placed ::
  "'bm roaring \<Rightarrow> extracted \<Rightarrow> tag_id list \<Rightarrow> dict \<Rightarrow> u64 \<Rightarrow> u32 \<Rightarrow> int \<Rightarrow> query_placement \<Rightarrow> compile_knobs \<Rightarrow>
   'bm segment \<Rightarrow> (added_compiled option \<times> 'bm segment) option" where
  "add_compiled_ranked_placed rb ex tags d logical ver prio pl knobs =
     add_compiled_with_source_generation rb ex tags d logical ver prio pl 0 knobs"

definition add_compiled_ranked_with_source_generation ::
  "'bm roaring \<Rightarrow> extracted \<Rightarrow> tag_id list \<Rightarrow> dict \<Rightarrow> u64 \<Rightarrow> u32 \<Rightarrow> int \<Rightarrow> u64 \<Rightarrow> compile_knobs \<Rightarrow>
   'bm segment \<Rightarrow> (added_compiled option \<times> 'bm segment) option" where
  "add_compiled_ranked_with_source_generation rb ex tags d logical ver prio gen knobs =
     add_compiled_with_source_generation rb ex tags d logical ver prio placement_standalone gen knobs"

definition add_compiled_ranked ::
  "'bm roaring \<Rightarrow> extracted \<Rightarrow> tag_id list \<Rightarrow> dict \<Rightarrow> u64 \<Rightarrow> u32 \<Rightarrow> int \<Rightarrow> compile_knobs \<Rightarrow>
   'bm segment \<Rightarrow> (added_compiled option \<times> 'bm segment) option" where
  "add_compiled_ranked rb ex tags d logical ver prio knobs =
     add_compiled_ranked_placed rb ex tags d logical ver prio placement_standalone knobs"

definition add_compiled ::
  "'bm roaring \<Rightarrow> extracted \<Rightarrow> tag_id list \<Rightarrow> dict \<Rightarrow> u64 \<Rightarrow> u32 \<Rightarrow> compile_knobs \<Rightarrow>
   'bm segment \<Rightarrow> (added_compiled option \<times> 'bm segment) option" where
  "add_compiled rb ex tags d logical ver knobs = add_compiled_ranked rb ex tags d logical ver 0 knobs"

section \<open>Deleting a row\<close>

definition tombstone :: "u32 \<Rightarrow> 'bm segment \<Rightarrow> 'bm segment option" where
  "tombstone row sg =
     (case at_index (seg_alive sg) (unat row) of
        None \<Rightarrow> Some sg
      | Some False \<Rightarrow> Some sg
      | Some True \<Rightarrow>
          do {
            phrases \<leftarrow> row_has_phrase_predicates (seg_exact sg) row;
            Some (sg\<lparr>alive_counter := alive_counter sg - 1,
              live_phrase_predicates := live_phrase_predicates sg - of_bool phrases,
              seg_alive := (seg_alive sg)[unat row := False]\<rparr>)
          })"

section \<open>Rebuilding from parts\<close>

fun index_alive :: "exact_store \<Rightarrow> nat \<Rightarrow> bool list \<Rightarrow> u64 locals_map \<Rightarrow> u64 locals_map option" where
  "index_alive st i [] m = Some m"
| "index_alive st i (a # as) m =
     (if a then do { logical \<leftarrow> at_index (logical_col st) i; index_alive st (Suc i) as (push_local logical (of_nat i) m) }
      else index_alive st (Suc i) as m)"

definition from_parts ::
  "'bm candidate_index \<Rightarrow> 'bm candidate_index \<Rightarrow> 'bm candidate_index \<Rightarrow> exact_store \<Rightarrow> cost_class list \<Rightarrow> bool list \<Rightarrow>
   'bm segment option" where
  "from_parts mx bix hix st classes alive =
     (if length alive \<noteq> store_len st \<or> length classes \<noteq> store_len st then None
      else do {
        phrases \<leftarrow> (if has_phrase_predicates st
                   then count_rows (row_has_phrase_predicates st) (map of_nat (filter ((!) alive) [0..<length alive]))
                   else Some 0);
        by_logical \<leftarrow> index_alive st 0 alive [];
        build_filter \<lparr>seg_main = mx, seg_broad = bix, seg_hot = hix, seg_exact = st, seg_class = classes,
          seg_alive = alive, alive_counter = length (filter id alive), live_phrase_predicates = phrases,
          seg_filter = None, seg_tag_summary = None, vocab_epoch = 0,
          compiler_semantics_version = CURRENT_COMPILER_SEMANTICS_VERSION,
          logical_index = by_logical, dup_of = map of_nat [0..<length alive],
          dup_members = [], body_index = []\<rparr>
      })"

end
