(* ===== verification/Segment_Merge.thy ===== *)
theory Segment_Merge
  imports Segment_Store
begin

text \<open>
  The compaction merges of \<open>segment/merge.rs\<close>: the mechanical remap, the merge that
  regroups shared bodies, and the merge that plans every live row again under the
  current frequencies. \<open>None\<close> is a panic.
\<close>

section \<open>Shared steps\<close>

fun fold_opt :: "('a \<Rightarrow> 's \<Rightarrow> 's option) \<Rightarrow> 'a list \<Rightarrow> 's \<Rightarrow> 's option" where
  "fold_opt f [] s = Some s"
| "fold_opt f (x # xs) s = do { s' \<leftarrow> f x s; fold_opt f xs s' }"

text \<open>The loop over the live entries of a source, with their positions.\<close>

fun each_alive :: "(nat \<Rightarrow> 's \<Rightarrow> 's option) \<Rightarrow> nat \<Rightarrow> bool list \<Rightarrow> 's \<Rightarrow> 's option" where
  "each_alive f old [] s = Some s"
| "each_alive f old (a # as) s =
     (if a then do { s' \<leftarrow> f old s; each_alive f (Suc old) as s' } else each_alive f (Suc old) as s)"

definition copy_into :: "'bm segment \<Rightarrow> nat \<Rightarrow> 'bm segment \<Rightarrow> (u32 \<times> u64 \<times> 'bm segment) option" where
  "copy_into src old dest =
     do {
       (new_id, st) \<leftarrow> copy_entry (seg_exact src) (of_nat old) (seg_exact dest);
       logical \<leftarrow> at_index (logical_col st) (unat new_id);
       Some (new_id, logical, dest\<lparr>seg_exact := st\<rparr>)
     }"

definition min_or :: "'a::linorder \<Rightarrow> 'a list \<Rightarrow> 'a" where
  "min_or z xs = (if xs = [] then z else Min (set xs))"

definition finish_merge :: "'bm segment list \<Rightarrow> 'bm segment \<Rightarrow> 'bm segment option" where
  "finish_merge sources dest =
     do {
       dest \<leftarrow> build_filter dest;
       Some (dest\<lparr>vocab_epoch := min_or 0 (map vocab_epoch sources),
         compiler_semantics_version :=
           min_or CURRENT_COMPILER_SEMANTICS_VERSION (map compiler_semantics_version sources)\<rparr>)
     }"

section \<open>The mechanical merge\<close>

definition remap_entry :: "'bm segment \<Rightarrow> nat \<Rightarrow> u32 list \<times> 'bm segment \<Rightarrow> (u32 list \<times> 'bm segment) option" where
  "remap_entry src old acc =
     (case acc of (remap, dest) \<Rightarrow> do {
       (new_id, logical, dest) \<leftarrow> copy_into src old dest;
       c \<leftarrow> at_index (seg_class src) old;
       dest \<leftarrow> enter_row new_id logical
         (dest\<lparr>seg_class := seg_class dest @ [c], dup_of := dup_of dest @ [new_id]\<rparr>);
       _ \<leftarrow> at_index remap old;
       Some (remap[old := new_id], dest)
     })"

text \<open>\<open>u32::MAX\<close> marks an entry that was not copied.\<close>

definition remap_lane ::
  "'bm roaring \<Rightarrow> u32 list \<Rightarrow> 'bm candidate_index \<Rightarrow> 'bm candidate_index \<Rightarrow> 'bm candidate_index option" where
  "remap_lane rb remap src_ix dest_ix =
     for_each_posting (\<lambda>key. for_each rb (\<lambda>old_id r. do {
         ix \<leftarrow> r;
         new_id \<leftarrow> at_index remap (unat old_id);
         Some (if new_id \<noteq> - 1 then index_insert rb key new_id ix else ix)
       })) src_ix (Some dest_ix)"

definition remap_source :: "'bm roaring \<Rightarrow> 'bm segment \<Rightarrow> 'bm segment \<Rightarrow> 'bm segment option" where
  "remap_source rb src dest =
     do {
       (remap, dest) \<leftarrow> each_alive (remap_entry src) 0 (seg_alive src) (replicate (segment_len src) (- 1), dest);
       m \<leftarrow> remap_lane rb remap (seg_main src) (seg_main dest);
       b \<leftarrow> remap_lane rb remap (seg_broad src) (seg_broad dest);
       h \<leftarrow> remap_lane rb remap (seg_hot src) (seg_hot dest);
       Some (dest\<lparr>seg_main := m, seg_broad := b, seg_hot := h\<rparr>)
     }"

section \<open>The group-aware merge\<close>

text \<open>The keys each row of an index is posted under.\<close>

definition invert :: "'bm roaring \<Rightarrow> nat \<Rightarrow> 'bm candidate_index \<Rightarrow> u64 list list option" where
  "invert rb n ix =
     for_each_posting (\<lambda>key. for_each rb (\<lambda>old_id r. do {
         keys \<leftarrow> r;
         ks \<leftarrow> at_index keys (unat old_id);
         Some (keys[unat old_id := ks @ [key]])
       })) ix (Some (replicate n []))"

record lane_keys =
  old_main :: "u64 list list"
  old_broad :: "u64 list list"
  old_hot :: "u64 list list"

definition invert_lanes :: "'bm roaring \<Rightarrow> 'bm segment \<Rightarrow> lane_keys option" where
  "invert_lanes rb src =
     do {
       m \<leftarrow> invert rb (segment_len src) (seg_main src);
       b \<leftarrow> invert rb (segment_len src) (seg_broad src);
       h \<leftarrow> invert rb (segment_len src) (seg_hot src);
       Some \<lparr>old_main = m, old_broad = b, old_hot = h\<rparr>
     }"

text \<open>An entry's old keys are those of its source leader.\<close>

definition previous_keys :: "lane_keys \<Rightarrow> 'bm segment \<Rightarrow> nat \<Rightarrow> (u64 list \<times> u64 list \<times> u64 list) option" where
  "previous_keys keys src old =
     (let l = unat (dup_leader_of src (of_nat old)) in do {
       m \<leftarrow> at_index (old_main keys) l;
       b \<leftarrow> at_index (old_broad keys) l;
       h \<leftarrow> at_index (old_hot keys) l;
       Some (m, b, h)
     })"

definition regroup_entry ::
  "'bm roaring \<Rightarrow> 'bm segment \<Rightarrow> lane_keys \<Rightarrow> nat \<Rightarrow> 'bm segment \<Rightarrow> 'bm segment option" where
  "regroup_entry rb src keys old dest =
     do {
       (new_id, logical, dest) \<leftarrow> copy_into src old dest;
       body_hash \<leftarrow> body_signature (seg_exact dest) new_id;
       c \<leftarrow> at_index (seg_class src) old;
       joined \<leftarrow> leader_for (\<lambda>_. Some (is_opt_in c)) body_hash new_id dest;
       dest \<leftarrow> (case joined of
                 Some l \<Rightarrow> join_group l new_id dest
               | None \<Rightarrow> do {
                   (m, b, h) \<leftarrow> previous_keys keys src old;
                   Some (lead_group rb (Some body_hash) new_id c m b h dest)
                 });
       enter_row new_id logical dest
     }"

definition compact_from_grouped :: "'bm roaring \<Rightarrow> 'bm segment list \<Rightarrow> 'bm segment option" where
  "compact_from_grouped rb sources =
     do {
       dest \<leftarrow> fold_opt (\<lambda>src dest. do {
           keys \<leftarrow> invert_lanes rb src;
           each_alive (regroup_entry rb src keys) 0 (seg_alive src) dest
         }) sources segment_new;
       finish_merge sources dest
     }"

definition compact_from :: "'bm roaring \<Rightarrow> 'bm segment list \<Rightarrow> 'bm segment option" where
  "compact_from rb sources =
     (if list_ex has_dup_groups sources then compact_from_grouped rb sources
      else do { dest \<leftarrow> fold_opt (remap_source rb) sources segment_new; finish_merge sources dest })"

section \<open>The re-anchoring merge\<close>

record reanchor_stats =
  reanchored :: nat
  hot_promoted :: nat
  hot_demoted :: nat

definition refuses_visibility_move :: "cost_class \<Rightarrow> cost_class \<Rightarrow> bool" where
  "refuses_visibility_move old plan \<longleftrightarrow>
     (\<not> is_opt_in old \<and> is_opt_in plan) \<or> (old = ClassC \<and> plan = ClassH)"

definition opt_in_after_reanchor :: "cost_class \<Rightarrow> cost_class option \<Rightarrow> bool" where
  "opt_in_after_reanchor old replanned =
     (case replanned of
        Some plan \<Rightarrow> if refuses_visibility_move old plan then is_opt_in old else is_opt_in plan
      | None \<Rightarrow> is_opt_in old)"

record 'bm reanchor_state =
  ra_dest :: "'bm segment"
  ra_stats :: reanchor_stats
  ra_moves :: nat
  ra_replanned :: "cost_class option list"

definition main_class :: "cost_class \<Rightarrow> bool" where
  "main_class c \<longleftrightarrow> c = ClassA \<or> c = ClassB"

definition count_adoption :: "cost_class \<Rightarrow> cost_class \<Rightarrow> reanchor_stats \<Rightarrow> reanchor_stats" where
  "count_adoption old adopted st =
     (if main_class old \<and> adopted = ClassH then st\<lparr>hot_promoted := Suc (hot_promoted st)\<rparr>
      else if old = ClassH \<and> main_class adopted then st\<lparr>hot_demoted := Suc (hot_demoted st)\<rparr>
      else st)"

definition lane_tagged :: "u64 list \<times> u64 list \<times> u64 list \<Rightarrow> (u8 \<times> u64) list" where
  "lane_tagged ks = (case ks of (m, b, h) \<Rightarrow> sort (map (Pair 0) m @ map (Pair 1) b @ map (Pair 2) h))"

text \<open>The worst frequency over the plan's main anchors gates leaving the hot tier.\<close>

definition demote_margin_ok :: "dict \<Rightarrow> u32 \<Rightarrow> anchors \<Rightarrow> bool" where
  "demote_margin_ok d theta plan \<longleftrightarrow>
     theta = 0 \<or> (case max_freq d (concat (main_anchors plan)) of None \<Rightarrow> 0 | Some w \<Rightarrow> w) \<le> theta div 2"

definition keeps_old_cover :: "dict \<Rightarrow> u32 \<Rightarrow> nat \<Rightarrow> nat \<Rightarrow> cost_class \<Rightarrow> anchors \<Rightarrow> bool" where
  "keeps_old_cover d theta max_moves moves old plan \<longleftrightarrow>
     (let promotes = main_class old \<and> plan_class plan = ClassH;
          demotes = old = ClassH \<and> main_class (plan_class plan);
          margin = (if demotes then demote_margin_ok d theta plan else True);
          allowed = \<not> (promotes \<or> demotes) \<or> (margin \<and> moves < max_moves)
      in refuses_visibility_move old (plan_class plan) \<or> \<not> allowed)"

definition count_move :: "cost_class \<Rightarrow> cost_class \<Rightarrow> nat \<times> reanchor_stats \<Rightarrow> nat \<times> reanchor_stats" where
  "count_move old new acc =
     (case acc of (moves, st) \<Rightarrow>
        if main_class old \<and> new = ClassH then (Suc moves, st\<lparr>hot_promoted := Suc (hot_promoted st)\<rparr>)
        else if old = ClassH \<and> main_class new then (Suc moves, st\<lparr>hot_demoted := Suc (hot_demoted st)\<rparr>)
        else (moves, st))"

definition replan_row ::
  "'bm roaring \<Rightarrow> dict \<Rightarrow> u32 \<Rightarrow> nat \<Rightarrow> u64 \<Rightarrow> u32 \<Rightarrow> u64 \<Rightarrow> cost_class \<Rightarrow> u64 list \<times> u64 list \<times> u64 list \<Rightarrow>
   'bm segment \<Rightarrow> 'bm reanchor_state \<Rightarrow> 'bm reanchor_state option" where
  "replan_row rb d theta max_moves body_hash new_id logical old_class prev dest s =
     do {
       (req, groups) \<leftarrow> anchoring_inputs (seg_exact dest) new_id (mask_inverse d);
       (let plan = anchor_plan (empty_extracted\<lparr>required := req, anyof := groups\<rparr>) d theta;
            keep = keeps_old_cover d theta max_moves (ra_moves s) old_class plan;
            keys = (if keep then prev
              else (map sig_key (main_anchors plan), map sig_key (broad_anchors plan), map sig_key (hot_anchors plan)));
            cls = (if keep then old_class else plan_class plan);
            (moves, st) = (if keep then (ra_moves s, ra_stats s)
              else count_move old_class (plan_class plan) (ra_moves s, ra_stats s))
        in do {
          dest \<leftarrow> enter_row new_id logical
            (lead_group rb (Some body_hash) new_id cls (fst keys) (fst (snd keys)) (snd (snd keys)) dest);
          Some \<lparr>ra_dest = dest,
            ra_stats = (if lane_tagged keys \<noteq> lane_tagged prev then st\<lparr>reanchored := Suc (reanchored st)\<rparr> else st),
            ra_moves = moves, ra_replanned = ra_replanned s @ [Some (plan_class plan)]\<rparr>
        })
     }"

definition reanchor_entry ::
  "'bm roaring \<Rightarrow> dict \<Rightarrow> u32 \<Rightarrow> nat \<Rightarrow> 'bm segment \<Rightarrow> lane_keys \<Rightarrow> nat \<Rightarrow> 'bm reanchor_state \<Rightarrow>
   'bm reanchor_state option" where
  "reanchor_entry rb d theta max_moves src keys old s =
     do {
       (new_id, logical, dest) \<leftarrow> copy_into src old (ra_dest s);
       old_class \<leftarrow> at_index (seg_class src) old;
       body_hash \<leftarrow> body_signature (seg_exact dest) new_id;
       joined \<leftarrow> leader_for (\<lambda>l. map_option (opt_in_after_reanchor old_class) (at_index (ra_replanned s) (unat l)))
         body_hash new_id dest;
       (case joined of
          Some l \<Rightarrow> do {
            adopted \<leftarrow> at_index (seg_class dest) (unat l);
            dest \<leftarrow> join_group l new_id dest;
            dest \<leftarrow> enter_row new_id logical dest;
            Some (s\<lparr>ra_dest := dest, ra_stats := count_adoption old_class adopted (ra_stats s),
              ra_replanned := ra_replanned s @ [None]\<rparr>)
          }
        | None \<Rightarrow> do {
            prev \<leftarrow> previous_keys keys src old;
            phrases \<leftarrow> row_has_phrase_predicates (seg_exact dest) new_id;
            if phrases then do {
              dest \<leftarrow> enter_row new_id logical
                (lead_group rb (Some body_hash) new_id old_class (fst prev) (fst (snd prev)) (snd (snd prev)) dest);
              Some (s\<lparr>ra_dest := dest, ra_replanned := ra_replanned s @ [None]\<rparr>)
            }
            else replan_row rb d theta max_moves body_hash new_id logical old_class prev dest s
          })
     }"

definition compact_from_reanchored ::
  "'bm roaring \<Rightarrow> 'bm segment list \<Rightarrow> dict \<Rightarrow> u32 \<Rightarrow> nat \<Rightarrow> ('bm segment \<times> reanchor_stats) option" where
  "compact_from_reanchored rb sources d theta max_moves =
     do {
       s \<leftarrow> fold_opt (\<lambda>src s. do {
           keys \<leftarrow> invert_lanes rb src;
           each_alive (reanchor_entry rb d theta max_moves src keys) 0 (seg_alive src) s
         }) sources \<lparr>ra_dest = segment_new, ra_stats = \<lparr>reanchored = 0, hot_promoted = 0, hot_demoted = 0\<rparr>,
            ra_moves = 0, ra_replanned = []\<rparr>;
       dest \<leftarrow> finish_merge sources (ra_dest s);
       Some (dest, ra_stats s)
     }"

end
