(* ===== verification/Segment_Rows.thy ===== *)
theory Segment_Rows
  imports Segment_Store
begin

text \<open>
  What a stored row answers, and what its postings must reach: the semantic
  notions the segment's invariant is stated with. A row has no access to the query
  it was compiled from, so its cover is a property of the row and its keys.
\<close>

section \<open>Answers of a row\<close>

definition row_usable :: "stored_row \<Rightarrow> bool" where
  "row_usable r \<longleftrightarrow> row_program r = [] \<or> (\<exists>p. usable_program p \<and> row_program r = encode_program p)"

definition row_matches :: "stored_row \<Rightarrow> title_view \<Rightarrow> bool" where
  "row_matches r view \<longleftrightarrow> row_flat r view \<and> verify_predicate (row_program r) view = Some True"

lemma row_usable_verify:
  assumes "row_usable r" shows "verify_predicate (row_program r) view \<noteq> None"
  using assms verify_program by (auto simp: row_usable_def verify_predicate_def [of "[]"])

lemma store_verify_usable:
  assumes "read_row st (unat row) = Some r" "row_usable r"
  shows "store_verify st row view pred = Some (row_matches r view \<and> row_passes r pred)"
  using row_usable_verify [OF assms(2), of view]
  by (auto simp: store_verify_row [OF assms(1) assms(1)] row_matches_def)

text \<open>
  A title probes the phrases of a row when no required phrase can be accepted
  without one of its labels among the probe labels.
\<close>

definition row_probed :: "title_view \<Rightarrow> stored_row \<Rightarrow> bool" where
  "row_probed view r \<longleftrightarrow>
     (\<forall>p req forb. predicate_boolean_program (row_program r) = Some (PHRASE_PROGRAM_VERSION, encode_body p) \<and>
        prog_phrases p = Some (req, forb) \<and> phrases_match view req forb \<longrightarrow>
        (\<forall>q \<in> set req. set (phrase_proxy q) \<inter> set (probe_labels view) \<noteq> {}))"

lemma row_probed_plain:
  assumes "row_usable r" "\<not> predicate_has_phrases (row_program r)" shows "row_probed view r"
  using assms
  by (auto simp: row_usable_def row_probed_def predicate_has_phrases_encoded boolean_program_encoded Let_def version_defs
      predicate_boolean_program.simps split: if_splits)

text \<open>Two rows answer alike when no title, and no probe of it, can tell them apart.\<close>

definition same_answers :: "stored_row \<Rightarrow> stored_row \<Rightarrow> bool" where
  "same_answers r q \<longleftrightarrow>
     (\<forall>view. (row_matches r view \<longleftrightarrow> row_matches q view) \<and> (row_probed view r \<longleftrightarrow> row_probed view q))"

lemma same_answers_refl [simp]: "same_answers r r"
  by (simp add: same_answers_def)

lemma same_answers_sym: "same_answers r q \<Longrightarrow> same_answers q r"
  by (simp add: same_answers_def)

lemma same_answers_trans: "same_answers a b \<Longrightarrow> same_answers b c \<Longrightarrow> same_answers a c"
  by (simp add: same_answers_def)

lemma usable_boolean:
  assumes "row_usable r"
  shows "\<exists>b. predicate_boolean_program (row_program r) = Some b \<and>
    verify_predicate (boolean_words b) view = verify_predicate (row_program r) view"
proof (cases "row_program r = []")
  case True
  then show ?thesis by (simp add: boolean_words_def)
next
  case False
  then obtain p where "usable_program p" "row_program r = encode_program p" using assms by (auto simp: row_usable_def)
  then show ?thesis using verify_boolean_program by simp
qed

lemma usable_boolean_total: "row_usable r \<Longrightarrow> \<exists>b. predicate_boolean_program (row_program r) = Some b"
  using usable_boolean [of r undefined] by blast

lemma bodies_equal_rows:
  assumes "read_row st (unat a) = Some r" "read_row st (unat b) = Some q" "row_usable r" "row_usable q"
    and "bodies_equal st a b = Some True"
  shows "same_answers r q"
  unfolding same_answers_def
proof
  fix view
  note eq = bodies_equalD [OF assms(1,2,5)]
  have "verify_predicate (row_program r) view = verify_predicate (row_program q) view"
    using usable_boolean [OF assms(3), of view] usable_boolean [OF assms(4), of view] eq(6) by auto
  then show "(row_matches r view \<longleftrightarrow> row_matches q view) \<and> (row_probed view r \<longleftrightarrow> row_probed view q)"
    using row_flat_bodies [OF eq(1-5)] eq(6) by (simp add: row_matches_def row_probed_def)
qed

lemma and_also_total: "a \<noteq> None \<Longrightarrow> b \<noteq> None \<Longrightarrow> and_also a b \<noteq> None"
  by (auto simp: and_also_def split: bool.split)

lemma same_total: "a \<noteq> None \<Longrightarrow> b \<noteq> None \<Longrightarrow> same a b \<noteq> None"
  by (auto simp: same_def)

lemma bodies_equal_total:
  assumes "read_row st (unat a) = Some r" "read_row st (unat b) = Some q" "row_usable r" "row_usable q"
  shows "bodies_equal st a b \<noteq> None"
  using read_rowD [OF assms(1)] read_rowD [OF assms(2)] read_row_lengths [OF assms(1)] read_row_lengths [OF assms(2)]
    usable_boolean_total [OF assms(3)] usable_boolean_total [OF assms(4)]
  unfolding bodies_equal_def Let_def by (intro and_also_total same_total) (auto simp: canonical_groups_def)

section \<open>Covers\<close>

text \<open>The view of a title under a dictionary.\<close>

definition title_ok :: "dict \<Rightarrow> title_view \<Rightarrow> bool" where
  "title_ok d view \<longleftrightarrow> dict_inv d \<and> sorted (view_pos view) \<and> sorted (view_neg view) \<and>
     pos_mask view = title_mask d (view_pos view) \<and> neg_mask view = title_mask d (view_neg view) \<and>
     set (view_pos view) \<subseteq> set (probe_labels view)"

text \<open>The keys a title probes in the lane of a class.\<close>

definition main_keys :: "dict \<Rightarrow> title_view \<Rightarrow> u64 set" where
  "main_keys d view = sig_key ` main_probes d (set (probe_labels view)) (set (view_pos view))"

definition hot_keys :: "title_view \<Rightarrow> u64 set" where
  "hot_keys view = sig_key ` hot_probes (set (view_pos view))"

definition broad_keys :: "title_view \<Rightarrow> u64 set" where
  "broad_keys view = sig_key ` broad_probes (set (view_pos view))"

definition row_cover :: "dict \<Rightarrow> cost_class \<Rightarrow> u64 set \<Rightarrow> u64 set \<Rightarrow> u64 set \<Rightarrow> stored_row \<Rightarrow> bool" where
  "row_cover d cls mk bk hk r \<longleftrightarrow>
     (\<forall>view. title_ok d view \<and> row_probed view r \<and> row_matches r view \<longrightarrow>
        (case cls of
           ClassA \<Rightarrow> mk \<inter> main_keys d view \<noteq> {}
         | ClassB \<Rightarrow> mk \<inter> main_keys d view \<noteq> {}
         | ClassH \<Rightarrow> hk \<inter> hot_keys view \<noteq> {}
         | _ \<Rightarrow> bk \<inter> broad_keys view \<noteq> {}))"

text \<open>A row has keys in the lane of its class and in no other.\<close>

definition keys_in_lane :: "cost_class \<Rightarrow> u64 set \<Rightarrow> u64 set \<Rightarrow> u64 set \<Rightarrow> bool" where
  "keys_in_lane cls mk bk hk \<longleftrightarrow> (case cls of
     ClassA \<Rightarrow> bk = {} \<and> hk = {}
   | ClassB \<Rightarrow> bk = {} \<and> hk = {}
   | ClassH \<Rightarrow> mk = {} \<and> bk = {}
   | _ \<Rightarrow> mk = {} \<and> hk = {})"

lemma row_cover_same: "same_answers r q \<Longrightarrow> row_cover d cls mk bk hk r \<longleftrightarrow> row_cover d cls mk bk hk q"
  by (simp add: row_cover_def same_answers_def)

section \<open>The cover of a compiled query\<close>

text \<open>
  The dictionary grows between the compilation of a query and a match, and its mask
  is assigned once: a bit that was assigned stays.
\<close>

definition mask_extends :: "dict \<Rightarrow> dict \<Rightarrow> bool" where
  "mask_extends d0 d \<longleftrightarrow> (\<forall>f. mask_bit d0 f \<noteq> NO_MASK_BIT \<longrightarrow> mask_bit d f = mask_bit d0 f)"

lemma mask_extends_refl [simp]: "mask_extends d d"
  by (simp add: mask_extends_def)

lemma mask_extends_trans: "mask_extends a b \<Longrightarrow> mask_extends b c \<Longrightarrow> mask_extends a c"
  by (simp add: mask_extends_def)

lemma mask_of_extends:
  assumes "dict_inv d" "mask_extends d0 d"
  shows "bit (mask_of d0 fs) n \<longleftrightarrow> (\<exists>f \<in> set fs. mask_bit d0 f = n \<and> n \<noteq> NO_MASK_BIT)"
  using assms mask_bit_cases [OF assms(1)] by (auto simp: bit_mask_of mask_extends_def) metis

lemma mask_bit_title:
  assumes "dict_inv d" "mask_extends d0 d" "mask_bit d0 f \<noteq> NO_MASK_BIT"
  shows "bit (title_mask d feats) (mask_bit d0 f) \<longleftrightarrow> f \<in> set feats"
  using mask_bit_in [OF assms(1), of f feats] assms by (simp add: mask_extends_def title_mask_def)

lemma row_flat_compiled:
  assumes "title_ok d view" "mask_extends d0 d"
  shows "row_flat (row_of ex tags d0 ver logical prio pl gen) view \<longleftrightarrow>
    list_all (search_ok (view_pos view)) (required ex) \<and> \<not> list_ex (search_ok (view_neg view)) (forbidden ex) \<and>
    list_all (list_ex (search_ok (view_pos view))) (anyof ex)"
proof -
  have d: "dict_inv d" and sorted: "sorted (view_pos view)" "sorted (view_neg view)"
    using assms(1) by (simp_all add: title_ok_def)
  have "(mask_of d0 fs AND title_mask d pos = mask_of d0 fs) \<longleftrightarrow>
      (\<forall>f \<in> set fs. mask_bit d0 f \<noteq> NO_MASK_BIT \<longrightarrow> f \<in> set pos)" for fs pos
    using mask_bit_title [OF d assms(2)] by (auto simp: mask_subset_iff mask_of_extends [OF d assms(2)])
  moreover have "(mask_of d0 fs AND title_mask d neg = 0) \<longleftrightarrow>
      (\<forall>f \<in> set fs. mask_bit d0 f \<noteq> NO_MASK_BIT \<longrightarrow> f \<notin> set neg)" for fs neg
    using mask_bit_title [OF d assms(2)] by (auto simp: mask_disjoint_iff mask_of_extends [OF d assms(2)])
  ultimately show ?thesis using assms(1)
    by (auto simp: row_flat_def row_of_def title_ok_def list_all_iff list_ex_iff tail_of_def search_ok_iff)
qed

lemma row_usable_of:
  assumes "column_overflow ex = None" "wf_extracted ex"
  shows "row_usable (row_of ex tags d ver logical prio pl gen)"
  using usable_program_of [OF assms] by (auto simp: row_usable_def row_of_def program_words_of_def)

lemma trivial_phrases:
  assumes "prog_phrases p = Some (req, forb)" "encode_body p = [0, 0, 0, 0]" "sized_program p"
  shows "req = []"
  using trivial_body_parts(3) [OF assms(3), of req forb] assms by simp

lemma compiled_phrases:
  assumes "column_overflow ex = None" "wf_extracted ex"
    and "row_matches (row_of ex tags d0 ver logical prio pl gen) view"
    and "row_probed view (row_of ex tags d0 ver logical prio pl gen)" "q \<in> set (required_phrases ex)"
  shows "set (phrase_proxy q) \<inter> set (probe_labels view) \<noteq> {}"
proof -
  have usable: "usable_program (program_of ex)" by (rule usable_program_of [OF assms(1,2)])
  have words: "row_program (row_of ex tags d0 ver logical prio pl gen) = encode_program (program_of ex)"
    using assms(5) by (auto simp: row_of_def program_words_of_def needs_program_def)
  have phrases: "prog_phrases (program_of ex) = Some (required_phrases ex, forbidden_phrases ex)"
    using assms(5) by (auto simp: program_of_def)
  have "encode_body (program_of ex) \<noteq> [0, 0, 0, 0]"
    using trivial_phrases [OF phrases] usable assms(5) by (auto simp: usable_program_def)
  then have "predicate_boolean_program (encode_program (program_of ex)) =
      Some (PHRASE_PROGRAM_VERSION, encode_body (program_of ex))"
    by (simp add: boolean_program_encoded phrases version_defs)
  moreover have "phrases_match view (required_phrases ex) (forbidden_phrases ex)"
    using assms(3) verify_program [OF usable, of view] phrases
    by (simp add: row_matches_def words program_matches_def)
  ultimately show ?thesis using assms(4,5) phrases by (auto simp: row_probed_def words)
qed

lemma compiled_positive:
  assumes "title_ok d view" "mask_extends d0 d" "column_overflow ex = None" "wf_extracted ex"
    and "row_matches (row_of ex tags d0 ver logical prio pl gen) view"
    and "row_probed view (row_of ex tags d0 ver logical prio pl gen)"
  shows "positive_sat ex (set (probe_labels view)) (set (view_pos view))"
proof -
  have "list_all (search_ok (view_pos view)) (required ex)" "list_all (list_ex (search_ok (view_pos view))) (anyof ex)"
    using assms(5) row_flat_compiled [OF assms(1,2)] by (auto simp: row_matches_def)
  moreover have "sorted (view_pos view)" using assms(1) by (simp add: title_ok_def)
  ultimately show ?thesis
    using compiled_phrases [OF assms(3-6)]
    by (auto simp: positive_sat_def list_all_iff list_ex_iff search_ok_iff)
qed

lemma anyof_cover_lane: "anyof_cover ex d theta = Some plan \<Longrightarrow> one_lane plan \<and> plan_class plan \<noteq> ClassC"
  by (auto simp: anyof_cover_def Let_def one_lane_def split: option.splits if_splits)

lemma phrase_proxy_plan_lane: "phrase_proxy_plan ex d = Some plan \<Longrightarrow> one_lane plan \<and> plan_class plan \<noteq> ClassC"
  by (auto simp: phrase_proxy_plan_def one_lane_def split: option.splits)

lemma anchor_plan_lane:
  "one_lane (anchor_plan ex d theta) \<and>
   (plan_class (anchor_plan ex d theta) = ClassC \<longrightarrow> [] \<notin> set (broad_anchors (anchor_plan ex d theta)))"
  by (auto simp: anchor_plan_def required_plan_def Let_def class_d_plan_def singletons_def
      one_lane_def [of "\<lparr>main_anchors = _, broad_anchors = _, hot_anchors = _, plan_class = _, would_be_hot = _\<rparr>"]
      split: option.split dest!: anyof_cover_lane phrase_proxy_plan_lane)

lemma main_probes_extends:
  assumes "mask_extends d0 d" shows "main_probes d0 pr P \<subseteq> main_probes d pr P"
  using assms unfolding main_probes_def is_hot_def mask_extends_def by fastforce

lemma singles_probed:
  assumes "P \<subseteq> pr" "[] \<notin> B" "B \<inter> broad_probes P \<noteq> {}" shows "B \<inter> main_probes d pr P \<noteq> {}"
proof -
  obtain f where "[f] \<in> B" "f \<in> P" using assms(2,3) by (auto simp: broad_probes_def)
  then show ?thesis using assms(1) unfolding main_probes_def by blast
qed

text \<open>The keys of the plan a query is stored under cover its row, pinned or not.\<close>

lemma visible_plan_cover:
  assumes "mask_extends d0 d" "column_overflow ex = None" "wf_extracted ex" "distinct (required ex)"
    and plan_def: "plan = visible_plan ex d0 pl' knobs"
  shows "row_cover d (sig_class plan) (set (main_sigs plan)) (set (broad_sigs plan)) (set (hot_sigs plan))
      (row_of ex tags d0 ver logical prio pl gen)"
    and "keys_in_lane (sig_class plan) (set (main_sigs plan)) (set (broad_sigs plan)) (set (hot_sigs plan))"
proof -
  let ?A = "anchor_plan ex d0 (hot_anchor_threshold knobs)"
  have lane: "one_lane ?A" "plan_class ?A = ClassC \<Longrightarrow> [] \<notin> set (broad_anchors ?A)"
    using anchor_plan_lane [of ex d0] by blast+
  have plan: "plan = (if keep_visible knobs \<or> placed_mode pl' = ReplicatedAlwaysVisible
      then pin_visible (build_signatures ex d0 (hot_anchor_threshold knobs))
      else build_signatures ex d0 (hot_anchor_threshold knobs))"
    by (simp add: plan_def visible_plan_def Let_def)
  note sigs = plan build_signatures_def Let_def pin_visible_def
  show "keys_in_lane (sig_class plan) (set (main_sigs plan)) (set (broad_sigs plan)) (set (hot_sigs plan))"
    using lane(1) by (cases "plan_class ?A") (auto simp: sigs keys_in_lane_def one_lane_def)
  show "row_cover d (sig_class plan) (set (main_sigs plan)) (set (broad_sigs plan)) (set (hot_sigs plan))
      (row_of ex tags d0 ver logical prio pl gen)"
    unfolding row_cover_def
  proof (intro allI impI, elim conjE)
    fix view :: title_view
    let ?pr = "set (probe_labels view)" and ?P = "set (view_pos view)"
    assume ok: "title_ok d view" and "row_probed view (row_of ex tags d0 ver logical prio pl gen)"
      "row_matches (row_of ex tags d0 ver logical prio pl gen) view"
    then have "positive_sat ex ?pr ?P" using compiled_positive [OF ok assms(1-3)] by blast
    moreover have sub: "?P \<subseteq> ?pr" using ok by (simp add: title_ok_def)
    ultimately have cov: "covered d0 ?pr ?P ?A" using anchor_plan_covered [OF _ _ assms(4)] by blast
    have main: "sig_key ` X \<inter> main_keys d view \<noteq> {}" if "X \<inter> main_probes d0 ?pr ?P \<noteq> {}" for X
      using that main_probes_extends [OF assms(1), of ?pr ?P] by (auto simp: main_keys_def)
    have hot: "sig_key ` X \<inter> hot_keys view \<noteq> {}" if "X \<inter> hot_probes ?P \<noteq> {}" for X
      using that by (auto simp: hot_keys_def)
    have broad: "sig_key ` X \<inter> broad_keys view \<noteq> {}" if "X \<inter> broad_probes ?P \<noteq> {}" for X
      using that by (auto simp: broad_keys_def)
    have pinned: "plan_class ?A = ClassC \<Longrightarrow> sig_key ` set (broad_anchors ?A) \<inter> main_keys d view \<noteq> {}"
      using cov lane(2) main [OF singles_probed [OF sub]] by (simp add: covered_def)
    show "case sig_class plan of
        ClassA \<Rightarrow> set (main_sigs plan) \<inter> main_keys d view \<noteq> {}
      | ClassB \<Rightarrow> set (main_sigs plan) \<inter> main_keys d view \<noteq> {}
      | ClassH \<Rightarrow> set (hot_sigs plan) \<inter> hot_keys view \<noteq> {}
      | _ \<Rightarrow> set (broad_sigs plan) \<inter> broad_keys view \<noteq> {}"
      using cov lane(1) pinned
      by (cases "plan_class ?A") (simp_all add: sigs covered_def one_lane_def main hot broad)
  qed
qed

end
