(* ===== verification/Segment_Invariant.thy ===== *)
theory Segment_Invariant
  imports Segment_Rows
begin

text \<open>
  The invariant of a segment and its preservation by the operations of
  \<open>segment/seg/write.rs\<close>: columns aligned, groups consistent, every leader reachable
  under keys that cover its row in the lane of its class, counters and reverse index
  exact, seals built from the current keys and tags.
\<close>

section \<open>The invariant\<close>

abbreviation seg_row :: "'bm segment \<Rightarrow> nat \<Rightarrow> stored_row" where
  "seg_row sg i \<equiv> store_rows (seg_exact sg) ! i"

definition is_leader :: "'bm segment \<Rightarrow> u32 \<Rightarrow> bool" where
  "is_leader sg l \<longleftrightarrow> unat l < segment_len sg \<and> dup_of sg ! unat l = l"

definition keys_at :: "'bm roaring \<Rightarrow> 'bm candidate_index \<Rightarrow> u32 \<Rightarrow> u64 set" where
  "keys_at rb ix l = {k. l \<in> index_reach rb ix k}"

text \<open>What a reader of the segment may see: the live rows with their classes.\<close>

definition live_rows :: "'bm segment \<Rightarrow> (stored_row \<times> cost_class) list" where
  "live_rows sg = map (\<lambda>i. (seg_row sg i, seg_class sg ! i)) (filter ((!) (seg_alive sg)) [0..<segment_len sg])"

definition seg_columns :: "'bm segment \<Rightarrow> bool" where
  "seg_columns sg \<longleftrightarrow> store_inv (seg_exact sg) \<and> segment_len sg < 2 ^ 32 \<and> length (seg_class sg) = segment_len sg \<and>
     length (seg_alive sg) = segment_len sg \<and> length (dup_of sg) = segment_len sg \<and>
     list_all row_usable (store_rows (seg_exact sg))"

definition seg_groups :: "'bm segment \<Rightarrow> bool" where
  "seg_groups sg \<longleftrightarrow>
     (\<forall>i < segment_len sg. is_leader sg (dup_of sg ! i) \<and>
        seg_class sg ! i = seg_class sg ! unat (dup_of sg ! i) \<and>
        same_answers (seg_row sg i) (seg_row sg (unat (dup_of sg ! i)))) \<and>
     (\<forall>l. distinct (members_of sg l) \<and>
        set (members_of sg l) = {i. unat i < segment_len sg \<and> dup_of sg ! unat i = l \<and> i \<noteq> l}) \<and>
     (\<forall>h. \<forall>l \<in> set (locals_at (body_index sg) h). is_leader sg l)"

definition seg_lanes :: "'bm roaring \<Rightarrow> dict \<Rightarrow> 'bm segment \<Rightarrow> bool" where
  "seg_lanes rb d sg \<longleftrightarrow>
     (\<forall>ix \<in> {seg_main sg, seg_broad sg, seg_hot sg}. index_inv rb ix \<and> (\<forall>k. \<forall>l \<in> index_reach rb ix k. is_leader sg l)) \<and>
     (\<forall>l. is_leader sg l \<longrightarrow>
        keys_in_lane (seg_class sg ! unat l) (keys_at rb (seg_main sg) l) (keys_at rb (seg_broad sg) l)
          (keys_at rb (seg_hot sg) l) \<and>
        row_cover d (seg_class sg ! unat l) (keys_at rb (seg_main sg) l) (keys_at rb (seg_broad sg) l)
          (keys_at rb (seg_hot sg) l) (seg_row sg (unat l)))"

definition seg_counts :: "'bm segment \<Rightarrow> bool" where
  "seg_counts sg \<longleftrightarrow>
     alive_counter sg = length (live_rows sg) \<and>
     live_phrase_predicates sg = length (filter (\<lambda>(r, _). predicate_has_phrases (row_program r)) (live_rows sg)) \<and>
     (\<forall>lg i. i \<in> set (locals_for_logical sg lg) \<longrightarrow> unat i < segment_len sg \<and> row_logical (seg_row sg (unat i)) = lg) \<and>
     (\<forall>i < segment_len sg. seg_alive sg ! i \<longrightarrow> of_nat i \<in> set (locals_for_logical sg (row_logical (seg_row sg i))))"

definition seg_seals :: "'bm segment \<Rightarrow> bool" where
  "seg_seals sg \<longleftrightarrow>
     (\<forall>f. seg_filter sg = Some f \<longrightarrow>
        filter_build (index_keys (seg_main sg) @ index_keys (seg_broad sg) @ index_keys (seg_hot sg)) = Some f) \<and>
     (\<forall>ids. seg_tag_summary sg = Some ids \<longrightarrow> ids = tag_summary_build (tag_blob (seg_exact sg)))"

definition seg_inv :: "'bm roaring \<Rightarrow> dict \<Rightarrow> 'bm segment \<Rightarrow> bool" where
  "seg_inv rb d sg \<longleftrightarrow> seg_columns sg \<and> seg_groups sg \<and> seg_lanes rb d sg \<and> seg_counts sg \<and> seg_seals sg"

lemmas seg_invD = seg_inv_def [THEN iffD1]

definition unsealed :: "'bm segment \<Rightarrow> bool" where
  "unsealed sg \<longleftrightarrow> seg_filter sg = None \<and> seg_tag_summary sg = None"

section \<open>Small facts\<close>

lemma locals_at_push: "locals_at (push_local k i m) k' = (if k' = k then locals_at m k @ [i] else locals_at m k')"
  by (simp add: locals_at_def push_local_def map_of_map_default split: option.split)

lemma locals_at_Nil [simp]: "locals_at [] k = []"
  by (simp add: locals_at_def)

lemma unat_row: "i < 2 ^ 32 \<Longrightarrow> unat (of_nat i :: u32) = i"
  by (simp add: unat_of_nat take_bit_nat_eq_self)

lemma of_nat_unat_row [simp]: "of_nat (unat l) = (l :: u32)"
  by simp

lemma read_seg_row:
  "seg_columns sg \<Longrightarrow> i < segment_len sg \<Longrightarrow> read_row (seg_exact sg) i = Some (seg_row sg i)"
  by (simp add: seg_columns_def segment_len_def store_invD)

lemma seg_row_usable: "seg_columns sg \<Longrightarrow> i < segment_len sg \<Longrightarrow> row_usable (seg_row sg i)"
  by (simp add: seg_columns_def segment_len_def list_all_length)

lemma row_phrases: "read_row st (unat row) = Some r \<Longrightarrow>
    row_has_phrase_predicates st row = Some (predicate_has_phrases (row_program r))"
  by (auto simp: row_has_phrase_predicates_def dest: read_rowD)

lemma segment_new_inv: "roaring_ok rb \<Longrightarrow> seg_inv rb d segment_new \<and> unsealed segment_new \<and> live_rows segment_new = []"
  by (simp add: seg_inv_def seg_columns_def seg_groups_def seg_lanes_def seg_counts_def seg_seals_def unsealed_def
      segment_new_def segment_len_def store_len_def live_rows_def is_leader_def
      members_of_def locals_for_logical_def index_reach_def index_ids_def index_get_def index_new_def index_inv_def)
    (simp add: store_new_def store_inv_def columns_aligned_def store_len_def store_rows_def)

section \<open>One more row\<close>

text \<open>What adding a row does to the columns: \<open>l\<close> is the leader the row is stored with.\<close>

definition grown :: "'bm segment \<Rightarrow> stored_row \<Rightarrow> cost_class \<Rightarrow> u32 \<Rightarrow> 'bm segment \<Rightarrow> bool" where
  "grown sg r cls l sg' \<longleftrightarrow>
     seg_exact sg' = append_row r (seg_exact sg) \<and> seg_class sg' = seg_class sg @ [cls] \<and>
     seg_alive sg' = seg_alive sg @ [True] \<and> dup_of sg' = dup_of sg @ [l] \<and>
     alive_counter sg' = Suc (alive_counter sg) \<and>
     live_phrase_predicates sg' = live_phrase_predicates sg + of_bool (predicate_has_phrases (row_program r)) \<and>
     logical_index sg' = push_local (row_logical r) (of_nat (segment_len sg)) (logical_index sg) \<and>
     seg_filter sg' = seg_filter sg \<and> seg_tag_summary sg' = seg_tag_summary sg"

definition row_admissible :: "stored_row \<Rightarrow> 'bm segment \<Rightarrow> bool" where
  "row_admissible r sg \<longleftrightarrow> store_room r (seg_exact sg) \<and> Suc (segment_len sg) < 2 ^ 32 \<and> row_usable r"

lemma grown_len: "grown sg r cls l sg' \<Longrightarrow> segment_len sg' = Suc (segment_len sg)"
  by (simp add: grown_def segment_len_def)

lemma grown_rows:
  assumes "seg_columns sg" "row_admissible r sg" "grown sg r cls l sg'"
  shows "store_inv (seg_exact sg')" "store_rows (seg_exact sg') = store_rows (seg_exact sg) @ [r]"
    "i < segment_len sg \<Longrightarrow> seg_row sg' i = seg_row sg i" "seg_row sg' (segment_len sg) = r"
proof -
  have st: "store_inv (seg_exact sg)" "store_room r (seg_exact sg)" "seg_exact sg' = append_row r (seg_exact sg)"
    using assms by (simp_all add: seg_columns_def row_admissible_def grown_def)
  show rows: "store_inv (seg_exact sg')" "store_rows (seg_exact sg') = store_rows (seg_exact sg) @ [r]"
    using append_row_inv [OF st(1,2)] st(3) by simp_all
  show "i < segment_len sg \<Longrightarrow> seg_row sg' i = seg_row sg i" "seg_row sg' (segment_len sg) = r"
    by (simp_all add: rows(2) nth_append segment_len_def)
qed

lemma grown_columns:
  assumes "seg_columns sg" "row_admissible r sg" "grown sg r cls l sg'"
  shows "seg_columns sg'"
  using assms grown_rows [OF assms] grown_len [OF assms(3)]
  by (simp add: seg_columns_def grown_def row_admissible_def)

lemma live_rows_grown:
  assumes "seg_columns sg" "row_admissible r sg" "grown sg r cls l sg'"
  shows "live_rows sg' = live_rows sg @ [(r, cls)]"
proof -
  let ?n = "segment_len sg"
  have len: "length (seg_alive sg) = ?n" "length (seg_class sg) = ?n" using assms(1) by (simp_all add: seg_columns_def)
  have fields: "seg_alive sg' = seg_alive sg @ [True]" "seg_class sg' = seg_class sg @ [cls]"
    using assms(3) by (simp_all add: grown_def)
  have "filter ((!) (seg_alive sg')) [0..<?n] = filter ((!) (seg_alive sg)) [0..<?n]"
    by (rule filter_cong) (simp_all add: fields nth_append len)
  moreover have "map (\<lambda>i. (seg_row sg' i, seg_class sg' ! i)) (filter ((!) (seg_alive sg)) [0..<?n]) = live_rows sg"
    unfolding live_rows_def by (rule map_cong) (auto simp: grown_rows(3) [OF assms] fields nth_append len)
  moreover have "seg_alive sg' ! ?n" "seg_class sg' ! ?n = cls" by (simp_all add: fields nth_append len)
  ultimately show ?thesis
    by (simp add: live_rows_def grown_len [OF assms(3)] grown_rows(4) [OF assms])
qed

lemma grown_counts:
  assumes "seg_columns sg" "seg_counts sg" "row_admissible r sg" "grown sg r cls l sg'"
  shows "seg_counts sg'"
proof -
  note live = live_rows_grown [OF assms(1,3,4)] and rows = grown_rows [OF assms(1,3,4)]
  have small: "unat (of_nat (segment_len sg) :: u32) = segment_len sg"
    using assms(3) by (intro unat_row) (simp add: row_admissible_def)
  have locals: "locals_for_logical sg' lg = (if lg = row_logical r then locals_for_logical sg lg @ [of_nat (segment_len sg)]
      else locals_for_logical sg lg)" for lg
    using assms(4) by (simp add: locals_for_logical_def grown_def locals_at_push)
  have fields: "seg_alive sg' = seg_alive sg @ [True]" "length (seg_alive sg) = segment_len sg"
    using assms(1,4) by (simp_all add: grown_def seg_columns_def)
  have "unat i < segment_len sg' \<and> row_logical (seg_row sg' (unat i)) = lg" if "i \<in> set (locals_for_logical sg' lg)" for i lg
  proof (cases "i \<in> set (locals_for_logical sg lg)")
    case True
    then have "unat i < segment_len sg" "row_logical (seg_row sg (unat i)) = lg" using assms(2) by (simp_all add: seg_counts_def)
    then show ?thesis using rows(3) grown_len [OF assms(4)] by simp
  next
    case False
    then show ?thesis using that rows(4) grown_len [OF assms(4)] by (auto simp: locals small split: if_splits)
  qed
  moreover have "of_nat i \<in> set (locals_for_logical sg' (row_logical (seg_row sg' i)))"
    if "i < segment_len sg'" "seg_alive sg' ! i" for i
  proof (cases "i < segment_len sg")
    case True
    then have "of_nat i \<in> set (locals_for_logical sg (row_logical (seg_row sg i)))"
      using assms(2) that(2) fields by (simp add: seg_counts_def nth_append)
    then show ?thesis using rows(3) [OF True] by (auto simp: locals)
  next
    case False
    then have "i = segment_len sg" using that(1) grown_len [OF assms(4)] by simp
    then show ?thesis using rows(4) by (simp add: locals)
  qed
  ultimately show ?thesis using assms(2,4) live by (simp add: seg_counts_def grown_def)
qed

lemma grown_leader:
  assumes "seg_columns sg" "row_admissible r sg" "grown sg r cls l sg'" "l = of_nat (segment_len sg) \<or> is_leader sg l"
  shows "is_leader sg' x \<longleftrightarrow> is_leader sg x \<or> x = of_nat (segment_len sg) \<and> l = x"
proof -
  have len: "length (dup_of sg) = segment_len sg" using assms(1) by (simp add: seg_columns_def)
  have small: "unat (of_nat (segment_len sg) :: u32) = segment_len sg"
    using assms(2) by (intro unat_row) (simp add: row_admissible_def)
  have "unat x = segment_len sg \<longleftrightarrow> x = of_nat (segment_len sg)" using small by (auto simp: word_unat_eq_iff)
  then show ?thesis
    using assms(3) grown_len [OF assms(3)] len small by (auto simp: is_leader_def grown_def nth_append less_Suc_eq)
qed

lemma grown_nth:
  assumes "seg_columns sg" "grown sg r cls l sg'"
  shows "i < segment_len sg \<Longrightarrow> dup_of sg' ! i = dup_of sg ! i" "dup_of sg' ! segment_len sg = l"
    "i < segment_len sg \<Longrightarrow> seg_class sg' ! i = seg_class sg ! i" "seg_class sg' ! segment_len sg = cls"
  using assms by (simp_all add: seg_columns_def grown_def nth_append)

lemma grown_rows_groups:
  assumes "seg_columns sg" "seg_groups sg" "row_admissible r sg" "grown sg r cls l sg'"
    and "l = of_nat (segment_len sg) \<or> is_leader sg l \<and> cls = seg_class sg ! unat l \<and> same_answers r (seg_row sg (unat l))"
    and "i < segment_len sg'"
  shows "is_leader sg' (dup_of sg' ! i) \<and> seg_class sg' ! i = seg_class sg' ! unat (dup_of sg' ! i) \<and>
    same_answers (seg_row sg' i) (seg_row sg' (unat (dup_of sg' ! i)))"
proof -
  have small: "unat (of_nat (segment_len sg) :: u32) = segment_len sg"
    using assms(3) by (intro unat_row) (simp add: row_admissible_def)
  note old = grown_nth [OF assms(1,4)] and rows = grown_rows [OF assms(1,3,4)]
  have lead: "is_leader sg' x \<longleftrightarrow> is_leader sg x \<or> x = of_nat (segment_len sg) \<and> l = x" for x
    using grown_leader [OF assms(1,3,4)] assms(5) by blast
  show ?thesis
  proof (cases "i < segment_len sg")
    case True
    then have "is_leader sg (dup_of sg ! i)" "seg_class sg ! i = seg_class sg ! unat (dup_of sg ! i)"
      "same_answers (seg_row sg i) (seg_row sg (unat (dup_of sg ! i)))"
      using assms(2) by (simp_all add: seg_groups_def)
    then show ?thesis using True old rows(3) lead by (simp add: is_leader_def [of sg])
  next
    case False
    then have i: "i = segment_len sg" using assms(6) grown_len [OF assms(4)] by simp
    show ?thesis
    proof (cases "l = of_nat (segment_len sg)")
      case True
      then show ?thesis using i old(2,4) rows(4) lead small by simp
    next
      case False
      then have "is_leader sg l" "cls = seg_class sg ! unat l" "same_answers r (seg_row sg (unat l))"
        using assms(5) by blast+
      then show ?thesis using i old rows(3,4) lead by (simp add: is_leader_def [of sg])
    qed
  qed
qed

lemma grown_locals_iff:
  fixes i :: u32
  assumes "seg_columns sg" "row_admissible r sg" "grown sg r cls l sg'"
  shows "unat i < segment_len sg' \<and> dup_of sg' ! unat i = x \<and> i \<noteq> x \<longleftrightarrow>
    (unat i < segment_len sg \<and> dup_of sg ! unat i = x \<and> i \<noteq> x) \<or> (i = of_nat (segment_len sg) \<and> l = x \<and> i \<noteq> x)"
proof -
  have small: "unat (of_nat (segment_len sg) :: u32) = segment_len sg"
    using assms(2) by (intro unat_row) (simp add: row_admissible_def)
  have "unat i = segment_len sg \<longleftrightarrow> i = of_nat (segment_len sg)" using small by (auto simp: word_unat_eq_iff)
  then show ?thesis
    using grown_nth(1,2) [OF assms(1,3)] grown_len [OF assms(3)] small by (auto simp: less_Suc_eq)
qed

lemma lead_groups:
  assumes "seg_columns sg" "seg_groups sg" "row_admissible r sg" "grown sg r cls (of_nat (segment_len sg)) sg'"
    and "dup_members sg' = dup_members sg"
    and "\<And>h. set (locals_at (body_index sg') h) \<subseteq> insert (of_nat (segment_len sg)) (set (locals_at (body_index sg) h))"
  shows "seg_groups sg'"
proof -
  have lead: "is_leader sg' x \<longleftrightarrow> is_leader sg x \<or> x = of_nat (segment_len sg)" for x
    using grown_leader [OF assms(1,3,4)] by blast
  have members: "members_of sg' x = members_of sg x" for x using assms(5) by (simp add: members_of_def)
  have "distinct (members_of sg' x) \<and>
      set (members_of sg' x) = {i. unat i < segment_len sg' \<and> dup_of sg' ! unat i = x \<and> i \<noteq> x}" for x
    using assms(2) unfolding members grown_locals_iff [OF assms(1,3,4)] by (auto simp: seg_groups_def)
  moreover have "is_leader sg' x" if "x \<in> set (locals_at (body_index sg') h)" for x h
    using assms(2,6) that unfolding lead seg_groups_def by blast
  ultimately show ?thesis
    using grown_rows_groups [OF assms(1-4)] unfolding seg_groups_def by blast
qed

lemma join_groups:
  assumes "seg_columns sg" "seg_groups sg" "row_admissible r sg" "grown sg r (seg_class sg ! unat l) l sg'"
    and "is_leader sg l" "same_answers r (seg_row sg (unat l))"
    and "dup_members sg' = push_local l (of_nat (segment_len sg)) (dup_members sg)" "body_index sg' = body_index sg"
  shows "seg_groups sg'"
proof -
  have small: "unat (of_nat (segment_len sg) :: u32) = segment_len sg"
    using assms(3) by (intro unat_row) (simp add: row_admissible_def)
  then have new: "l \<noteq> of_nat (segment_len sg)" using assms(5) by (auto simp: is_leader_def)
  have members: "members_of sg' x = (if x = l then members_of sg l @ [of_nat (segment_len sg)] else members_of sg x)" for x
    by (simp add: members_of_def assms(7) locals_at_push)
  have old: "distinct (members_of sg x) \<and>
      set (members_of sg x) = {i. unat i < segment_len sg \<and> dup_of sg ! unat i = x \<and> i \<noteq> x}" for x
    using assms(2) by (simp add: seg_groups_def)
  have "distinct (members_of sg' x) \<and>
      set (members_of sg' x) = {i. unat i < segment_len sg' \<and> dup_of sg' ! unat i = x \<and> i \<noteq> x}" for x
  proof (cases "x = l")
    case True
    have "of_nat (segment_len sg) \<notin> set (members_of sg l)" using old [of l] small by simp
    moreover have "set (members_of sg l @ [of_nat (segment_len sg)]) = {i. (unat i < segment_len sg \<and> dup_of sg ! unat i = l \<and> i \<noteq> l) \<or>
        (i = of_nat (segment_len sg) \<and> l = l \<and> i \<noteq> l)}"
      using old [of l] new by auto
    ultimately show ?thesis using True old [of l] unfolding members grown_locals_iff [OF assms(1,3,4)] by simp
  next
    case False
    then show ?thesis using old [of x] unfolding members grown_locals_iff [OF assms(1,3,4)] by simp
  qed
  moreover have "is_leader sg' x" if "x \<in> set (locals_at (body_index sg') h)" for x h
    using assms(2,5) that grown_leader [OF assms(1,3,4)] unfolding assms(8) seg_groups_def by blast
  ultimately show ?thesis
    using grown_rows_groups [OF assms(1-4)] assms(5,6) unfolding seg_groups_def by blast
qed

section \<open>Lanes of the grown segment\<close>

lemma keys_at_insert:
  assumes "index_inv rb ix"
  shows "keys_at rb (fold (\<lambda>s. index_insert rb s row) ks ix) l = keys_at rb ix l \<union> (if l = row then set ks else {})"
  using ci.insert_all [OF assms, of row ks] by (auto simp: keys_at_def split: if_splits)

lemma lanes_reach: "seg_lanes rb d sg \<Longrightarrow> ix \<in> {seg_main sg, seg_broad sg, seg_hot sg} \<Longrightarrow> \<not> is_leader sg l \<Longrightarrow> keys_at rb ix l = {}"
  unfolding seg_lanes_def keys_at_def by blast

lemma join_lanes:
  assumes "seg_columns sg" "seg_lanes rb d sg" "row_admissible r sg" "grown sg r cls l sg'" "is_leader sg l"
    and "seg_main sg' = seg_main sg" "seg_broad sg' = seg_broad sg" "seg_hot sg' = seg_hot sg"
  shows "seg_lanes rb d sg'"
proof -
  have "l \<noteq> of_nat (segment_len sg)"
    using assms(3,5) by (auto simp: row_admissible_def is_leader_def unat_row)
  then have lead: "is_leader sg' x \<longleftrightarrow> is_leader sg x" for x
    using grown_leader [OF assms(1,3,4)] assms(5) by blast
  show ?thesis
    using assms(2) grown_nth(3) [OF assms(1,4)] grown_rows(3) [OF assms(1,3,4)]
    unfolding seg_lanes_def lead assms(6-8) by (simp add: is_leader_def)
qed

lemma lead_lanes:
  assumes "seg_columns sg" "seg_lanes rb d sg" "row_admissible r sg" "grown sg r cls row sg'"
    and row: "row = of_nat (segment_len sg)"
    and ix: "seg_main sg' = fold (\<lambda>s. index_insert rb s row) mk (seg_main sg)"
      "seg_broad sg' = fold (\<lambda>s. index_insert rb s row) bk (seg_broad sg)"
      "seg_hot sg' = fold (\<lambda>s. index_insert rb s row) hk (seg_hot sg)"
    and cover: "row_cover d cls (set mk) (set bk) (set hk) r" "keys_in_lane cls (set mk) (set bk) (set hk)"
  shows "seg_lanes rb d sg'"
proof -
  have small: "unat row = segment_len sg" using assms(3) by (simp add: row unat_row row_admissible_def)
  have lead: "is_leader sg' x \<longleftrightarrow> is_leader sg x \<or> x = row" for x
    using grown_leader [OF assms(1,3,4)] row by blast
  have fresh: "\<not> is_leader sg row" using small by (simp add: is_leader_def)
  have inv: "index_inv rb (seg_main sg)" "index_inv rb (seg_broad sg)" "index_inv rb (seg_hot sg)"
    using assms(2) by (simp_all add: seg_lanes_def)
  note keys = keys_at_insert [OF inv(1)] keys_at_insert [OF inv(2)] keys_at_insert [OF inv(3)]
  have none: "keys_at rb (seg_main sg) row = {}" "keys_at rb (seg_broad sg) row = {}" "keys_at rb (seg_hot sg) row = {}"
    using lanes_reach [OF assms(2) _ fresh] by simp_all
  have reach: "index_inv rb ix' \<and> (\<forall>k. \<forall>x \<in> index_reach rb ix' k. is_leader sg' x)"
    if "ix' = fold (\<lambda>s. index_insert rb s row) ks ix" "ix \<in> {seg_main sg, seg_broad sg, seg_hot sg}" for ix' ix ks
  proof -
    have "index_inv rb ix \<and> (\<forall>k. \<forall>x \<in> index_reach rb ix k. is_leader sg x)"
      using that(2) assms(2) unfolding seg_lanes_def by blast
    then show ?thesis using ci.insert_all [of rb ix row ks] unfolding that(1) lead by (auto split: if_splits)
  qed
  have "keys_in_lane (seg_class sg' ! unat x) (keys_at rb (seg_main sg') x) (keys_at rb (seg_broad sg') x) (keys_at rb (seg_hot sg') x) \<and>
      row_cover d (seg_class sg' ! unat x) (keys_at rb (seg_main sg') x) (keys_at rb (seg_broad sg') x)
        (keys_at rb (seg_hot sg') x) (seg_row sg' (unat x))" if "is_leader sg' x" for x
  proof (cases "x = row")
    case True
    then show ?thesis
      using cover grown_nth(4) [OF assms(1,4)] grown_rows(4) [OF assms(1,3,4)] small by (simp add: ix keys none)
  next
    case False
    then have "is_leader sg x" using that lead by blast
    then show ?thesis
      using assms(2) False grown_nth(3) [OF assms(1,4)] grown_rows(3) [OF assms(1,3,4)]
      by (simp add: ix keys seg_lanes_def is_leader_def)
  qed
  then show ?thesis using reach [OF ix(1)] reach [OF ix(2)] reach [OF ix(3)] unfolding seg_lanes_def by blast
qed

section \<open>Storing a row\<close>

text \<open>A segment that holds one more live row, of the given visibility.\<close>

definition row_added :: "'bm roaring \<Rightarrow> dict \<Rightarrow> 'bm segment \<Rightarrow> stored_row \<Rightarrow> cost_class \<Rightarrow> 'bm segment \<Rightarrow> bool" where
  "row_added rb d sg r cls sg' \<longleftrightarrow> seg_inv rb d sg' \<and> unsealed sg' \<and> live_rows sg' = live_rows sg @ [(r, cls)] \<and>
     seg_exact sg' = append_row r (seg_exact sg) \<and> seg_class sg' = seg_class sg @ [cls]"

lemma row_addedI:
  assumes "seg_inv rb d sg" "unsealed sg" "row_admissible r sg" "grown sg r cls l sg'" "seg_groups sg'" "seg_lanes rb d sg'"
  shows "row_added rb d sg r cls sg'"
proof -
  note inv = seg_invD [OF assms(1)]
  have "seg_seals sg'" "unsealed sg'" using assms(2,4) by (simp_all add: unsealed_def seg_seals_def grown_def)
  then show ?thesis
    using inv assms(4-6) grown_columns [OF _ assms(3,4)] grown_counts [OF _ _ assms(3,4)] live_rows_grown [OF _ assms(3,4)]
    by (simp add: row_added_def seg_inv_def grown_def [of sg])
qed

lemma new_row_read:
  assumes "seg_columns sg" "row_admissible r sg"
  shows "read_row (append_row r (seg_exact sg)) (unat (of_nat (segment_len sg) :: u32)) = Some r"
  using append_row_new [of "seg_exact sg" r] assms
  by (simp add: seg_columns_def store_inv_def row_admissible_def unat_row segment_len_def)

lemma lead_enter:
  assumes "seg_inv rb d sg" "unsealed sg" "row_admissible r sg"
    and "row_cover d cls (set mk) (set bk) (set hk) r" "keys_in_lane cls (set mk) (set bk) (set hk)"
  shows "\<exists>sg'. enter_row (of_nat (segment_len sg)) (row_logical r)
      (lead_group rb indexed (of_nat (segment_len sg)) cls mk bk hk (sg\<lparr>seg_exact := append_row r (seg_exact sg)\<rparr>)) = Some sg' \<and>
    row_added rb d sg r cls sg'"
proof -
  let ?row = "of_nat (segment_len sg) :: u32" and ?st = "append_row r (seg_exact sg)"
  let ?sg = "lead_group rb indexed ?row cls mk bk hk (sg\<lparr>seg_exact := ?st\<rparr>)"
  note inv = seg_invD [OF assms(1)]
  have exact: "seg_exact ?sg = ?st" by (simp add: lead_group_def insert_keys_def)
  obtain sg' where sg': "enter_row ?row (row_logical r) ?sg = Some sg'"
    using row_phrases [OF new_row_read [OF _ assms(3)]] inv by (simp add: enter_row_def exact)
  have new: "row_has_phrase_predicates ?st ?row = Some (predicate_has_phrases (row_program r))"
    using row_phrases [OF new_row_read [OF _ assms(3)]] inv by simp
  note sg'_def = sg' [unfolded enter_row_def exact new, simplified, symmetric]
  have grown: "grown sg r cls ?row sg'"
    unfolding sg'_def by (simp add: grown_def lead_group_def insert_keys_def)
  have ix: "seg_main sg' = fold (\<lambda>s. index_insert rb s ?row) mk (seg_main sg)"
    "seg_broad sg' = fold (\<lambda>s. index_insert rb s ?row) bk (seg_broad sg)"
    "seg_hot sg' = fold (\<lambda>s. index_insert rb s ?row) hk (seg_hot sg)" "dup_members sg' = dup_members sg"
    "body_index sg' = (case indexed of None \<Rightarrow> body_index sg | Some h \<Rightarrow> push_local h ?row (body_index sg))"
    unfolding sg'_def by (simp_all add: lead_group_def insert_keys_def split: option.split)
  have "set (locals_at (body_index sg') h) \<subseteq> insert ?row (set (locals_at (body_index sg) h))" for h
    by (auto simp: ix(5) locals_at_push split: option.splits)
  then have "seg_groups sg'" using lead_groups [OF _ _ assms(3) grown ix(4)] inv by blast
  moreover have "seg_lanes rb d sg'" using lead_lanes [OF _ _ assms(3) grown refl ix(1-3) assms(4,5)] inv by blast
  ultimately show ?thesis using sg' row_addedI [OF assms(1-3) grown] by blast
qed

lemma join_enter:
  assumes "seg_inv rb d sg" "unsealed sg" "row_admissible r sg" "is_leader sg l" "same_answers r (seg_row sg (unat l))"
  shows "\<exists>sg1 sg'. join_group l (of_nat (segment_len sg)) (sg\<lparr>seg_exact := append_row r (seg_exact sg)\<rparr>) = Some sg1 \<and>
    enter_row (of_nat (segment_len sg)) (row_logical r) sg1 = Some sg' \<and> row_added rb d sg r (seg_class sg ! unat l) sg'"
proof -
  let ?row = "of_nat (segment_len sg) :: u32" and ?st = "append_row r (seg_exact sg)"
  let ?sg1 = "sg\<lparr>seg_exact := ?st, dup_of := dup_of sg @ [l], dup_members := push_local l ?row (dup_members sg),
      seg_class := seg_class sg @ [seg_class sg ! unat l]\<rparr>"
  note inv = seg_invD [OF assms(1)]
  have "unat l < length (seg_class sg)" using inv assms(4) by (simp add: is_leader_def seg_columns_def)
  then have join: "join_group l ?row (sg\<lparr>seg_exact := ?st\<rparr>) = Some ?sg1" by (simp add: join_group_def at_index_def)
  have new: "row_has_phrase_predicates ?st ?row = Some (predicate_has_phrases (row_program r))"
    using row_phrases [OF new_row_read [OF _ assms(3)]] inv by simp
  obtain sg' where sg': "enter_row ?row (row_logical r) ?sg1 = Some sg'"
    using new by (simp add: enter_row_def)
  note sg'_def = sg' [unfolded enter_row_def, simplified, unfolded new, simplified, symmetric]
  have grown: "grown sg r (seg_class sg ! unat l) l sg'" unfolding sg'_def by (simp add: grown_def)
  have rest: "dup_members sg' = push_local l ?row (dup_members sg)" "body_index sg' = body_index sg"
    "seg_main sg' = seg_main sg" "seg_broad sg' = seg_broad sg" "seg_hot sg' = seg_hot sg"
    unfolding sg'_def by simp_all
  have "seg_groups sg'" using join_groups [OF _ _ assms(3) grown assms(4,5) rest(1,2)] inv by blast
  moreover have "seg_lanes rb d sg'" using join_lanes [OF _ _ assms(3) grown assms(4) rest(3-5)] inv by blast
  ultimately show ?thesis using join sg' row_addedI [OF assms(1-3) grown] by blast
qed

text \<open>The search for a leader neither panics nor finds a row that answers differently.\<close>

lemma find_leader_spec:
  assumes "\<And>l. l \<in> set ls \<Longrightarrow> unat l < length classes \<and> wanted l \<noteq> None \<and> bodies_equal st l row \<noteq> None"
  shows "\<exists>found. find_leader st classes wanted row ls = Some found \<and>
    (\<forall>l. found = Some l \<longrightarrow> l \<in> set ls \<and> wanted l = Some (is_opt_in (classes ! unat l)) \<and> bodies_equal st l row = Some True)"
  using assms
proof (induction ls)
  case (Cons l ls)
  obtain w e where we: "wanted l = Some w" "bodies_equal st l row = Some e" and c: "unat l < length classes"
    using Cons.prems [of l] by auto
  show ?case
  proof (cases "is_opt_in (classes ! unat l) = w \<and> e")
    case True
    then show ?thesis using we c by (simp add: at_index_def)
  next
    case False
    then have "find_leader st classes wanted row (l # ls) = find_leader st classes wanted row ls"
      using we c by (auto simp: at_index_def)
    then show ?thesis using Cons.IH Cons.prems by simp blast
  qed
qed simp

lemma leader_for_spec:
  assumes "seg_inv rb d sg" "row_admissible r sg" "\<And>l. is_leader sg l \<Longrightarrow> wanted l \<noteq> None"
  shows "\<exists>found. leader_for wanted h (of_nat (segment_len sg)) (sg\<lparr>seg_exact := append_row r (seg_exact sg)\<rparr>) = Some found \<and>
    (\<forall>l. found = Some l \<longrightarrow> is_leader sg l \<and> wanted l = Some (is_opt_in (seg_class sg ! unat l)) \<and>
       same_answers r (seg_row sg (unat l)))"
proof -
  let ?row = "of_nat (segment_len sg) :: u32" and ?st = "append_row r (seg_exact sg)"
  note inv = seg_invD [OF assms(1)]
  have new: "read_row ?st (unat ?row) = Some r" using new_row_read inv assms(2) by blast
  have r: "row_usable r" using assms(2) by (simp add: row_admissible_def)
  have old: "read_row ?st (unat l) = Some (seg_row sg (unat l))" "row_usable (seg_row sg (unat l))"
    "unat l < length (seg_class sg)" if "is_leader sg l" for l
  proof -
    have cols: "seg_columns sg" and l: "unat l < segment_len sg" using inv that by (simp_all add: is_leader_def)
    show "read_row ?st (unat l) = Some (seg_row sg (unat l))" "row_usable (seg_row sg (unat l))"
      by (rule append_row_old [OF read_seg_row [OF cols l]], rule seg_row_usable [OF cols l])
    show "unat l < length (seg_class sg)" using cols l by (simp add: seg_columns_def)
  qed
  have leaders: "is_leader sg l" if "l \<in> set (locals_at (body_index sg) h)" for l
    using inv that unfolding seg_groups_def by blast
  obtain found where "find_leader ?st (seg_class sg) wanted ?row (locals_at (body_index sg) h) = Some found"
    and found: "\<And>l. found = Some l \<Longrightarrow> l \<in> set (locals_at (body_index sg) h) \<and>
      wanted l = Some (is_opt_in (seg_class sg ! unat l)) \<and> bodies_equal ?st l ?row = Some True"
    using find_leader_spec [of "locals_at (body_index sg) h" "seg_class sg" wanted ?st ?row]
      leaders old bodies_equal_total [OF _ new _ r] assms(3) by blast
  moreover have "same_answers r (seg_row sg (unat l))" if "found = Some l" for l
    using found [OF that] leaders old bodies_equal_rows [OF _ new _ r] same_answers_sym by blast
  ultimately show ?thesis using leaders by (auto simp: leader_for_def)
qed

section \<open>The operations keep the invariant\<close>

lemma new_row_signature:
  assumes "seg_columns sg" "row_admissible r sg"
  shows "\<exists>h. body_signature (append_row r (seg_exact sg)) (of_nat (segment_len sg)) = Some h"
  using body_signature_row [OF new_row_read [OF assms]] usable_boolean_total [of r] assms(2)
  by (auto simp: row_admissible_def)

lemma row_added_class: "seg_inv rb d sg \<Longrightarrow> row_added rb d sg r cls sg' \<Longrightarrow> segment_len sg < 2 ^ 32 \<Longrightarrow>
    at_index (seg_class sg') (unat (of_nat (segment_len sg) :: u32)) = Some cls"
  by (auto simp: row_added_def at_index_def unat_row nth_append seg_inv_def seg_columns_def [of sg])

lemma add_compiled_inv:
  fixes ex tags d0 ver logical prio pl gen
  defines "r \<equiv> row_of ex tags d0 ver logical prio pl gen"
  assumes "seg_inv rb d sg" "unsealed sg" "mask_extends d0 d"
    and "column_overflow ex = None" "wf_extracted ex" "distinct (required ex)"
    and "store_room r (seg_exact sg)" "Suc (segment_len sg) < 2 ^ 32"
    and "\<not> rejects_class_d (sig_class (visible_plan ex d0 pl knobs)) ex (accept_class_d knobs)"
  shows "\<exists>added sg'. add_compiled_with_source_generation rb ex tags d0 logical ver prio pl gen knobs sg = Some (Some added, sg') \<and>
    row_added rb d sg r (added_class added) sg' \<and> added_local added = of_nat (segment_len sg) \<and>
    (is_opt_in (added_class added) \<longleftrightarrow> is_opt_in (sig_class (visible_plan ex d0 pl knobs)))"
proof -
  let ?row = "of_nat (segment_len sg) :: u32" and ?st = "append_row r (seg_exact sg)"
  let ?plan = "visible_plan ex d0 pl knobs" and ?sg = "sg\<lparr>seg_exact := append_row r (seg_exact sg)\<rparr>"
  note inv = seg_invD [OF assms(2)]
  have adm: "row_admissible r sg" using assms(8,9) row_usable_of [OF assms(5,6)] by (simp add: row_admissible_def r_def)
  have small: "segment_len sg < 2 ^ 32" using assms(9) by simp
  obtain h where h: "body_signature ?st ?row = Some h" using new_row_signature [OF _ adm] inv by blast
  note cover = visible_plan_cover(1) [OF assms(4-7) refl, of pl knobs tags ver logical prio pl gen, folded r_def]
    visible_plan_cover(2) [OF assms(4-7) refl, of pl knobs]
  obtain found where found: "(if dedup_bodies knobs then leader_for (\<lambda>_. Some (is_opt_in (sig_class ?plan))) h ?row ?sg
      else Some None) = Some found"
    and good: "\<And>l. found = Some l \<Longrightarrow> is_leader sg l \<and> is_opt_in (seg_class sg ! unat l) = is_opt_in (sig_class ?plan) \<and>
      same_answers r (seg_row sg (unat l))"
    using leader_for_spec [OF assms(2) adm, of "\<lambda>_. Some (is_opt_in (sig_class ?plan))" h] by (cases "dedup_bodies knobs") auto
  let ?placed = "case found of Some l \<Rightarrow> join_group l ?row ?sg
    | None \<Rightarrow> Some (lead_group rb (if dedup_bodies knobs then Some h else None) ?row (sig_class ?plan)
        (main_sigs ?plan) (broad_sigs ?plan) (hot_sigs ?plan) ?sg)"
  have logical: "row_logical r = logical" by (simp add: r_def row_of_def)
  obtain sg1 sg' cls where placed: "?placed = Some sg1" "enter_row ?row logical sg1 = Some sg'"
    "row_added rb d sg r cls sg'" "is_opt_in cls = is_opt_in (sig_class ?plan)"
  proof (cases found)
    case None
    then show ?thesis using that lead_enter [OF assms(2,3) adm cover] logical by force
  next
    case (Some l)
    then show ?thesis using that join_enter [OF assms(2,3) adm, of l] good [of l] logical by force
  qed
  have push: "push_with_source_generation ex tags d0 ver logical prio pl gen (seg_exact sg) = (?row, ?st)"
    by (simp add: push_appends r_def segment_len_def)
  show ?thesis
    using assms(10) placed h found row_added_class [OF assms(2) placed(3) small]
    by (simp add: add_compiled_with_source_generation_def Let_def push)
qed

lemma live_rows_tombstone:
  assumes "seg_columns sg" "unat row < segment_len sg" "seg_alive sg ! unat row"
    and "seg_exact sg' = seg_exact sg" "seg_class sg' = seg_class sg" "seg_alive sg' = (seg_alive sg)[unat row := False]"
  shows "\<exists>pre post. live_rows sg = pre @ (seg_row sg (unat row), seg_class sg ! unat row) # post \<and> live_rows sg' = pre @ post"
proof -
  let ?i = "unat row" and ?n = "segment_len sg"
  let ?f = "\<lambda>i. (seg_row sg i, seg_class sg ! i)"
  have len: "length (seg_alive sg) = ?n" using assms(1) by (simp add: seg_columns_def)
  have split: "[0..<?n] = [0..<?i] @ ?i # [Suc ?i..<?n]" using assms(2) upt_add_eq_append [of 0 ?i "?n - ?i"] upt_conv_Cons [of ?i ?n] by simp
  have keep: "filter ((!) (seg_alive sg')) xs = filter ((!) (seg_alive sg)) xs" if "?i \<notin> set xs" for xs
    using that by (intro filter_cong refl) (metis assms(6) nth_list_update_neq)
  have gone: "\<not> seg_alive sg' ! ?i" using assms(2) len by (simp add: assms(6))
  have len': "segment_len sg' = ?n" by (simp add: segment_len_def assms(4))
  have "live_rows sg = map ?f (filter ((!) (seg_alive sg)) [0..<?i]) @ ?f ?i # map ?f (filter ((!) (seg_alive sg)) [Suc ?i..<?n])"
    unfolding live_rows_def split using assms(3) by simp
  moreover have "live_rows sg' = map ?f (filter ((!) (seg_alive sg)) [0..<?i]) @ map ?f (filter ((!) (seg_alive sg)) [Suc ?i..<?n])"
    unfolding live_rows_def len' split using gone by (simp add: keep assms(4,5))
  ultimately show ?thesis by blast
qed

text \<open>A tombstone removes exactly the row it names from what a reader may see.\<close>

lemma tombstone_inv:
  assumes "seg_inv rb d sg"
  shows "\<exists>sg'. tombstone row sg = Some sg' \<and> seg_inv rb d sg' \<and>
    (seg_filter sg' = seg_filter sg \<and> seg_tag_summary sg' = seg_tag_summary sg) \<and>
    (if is_alive sg row
     then \<exists>pre post. live_rows sg = pre @ (seg_row sg (unat row), seg_class sg ! unat row) # post \<and> live_rows sg' = pre @ post
     else sg' = sg)"
proof (cases "is_alive sg row")
  case False
  then have "tombstone row sg = Some sg"
    by (auto simp: tombstone_def is_alive_def split: option.splits bool.splits)
  then show ?thesis using assms False by simp
next
  case True
  note inv = seg_invD [OF assms]
  have len: "length (seg_alive sg) = segment_len sg" using inv by (simp add: seg_columns_def)
  have row: "unat row < segment_len sg" "seg_alive sg ! unat row"
    using True len by (auto simp: is_alive_def at_index_def split: if_splits)
  have cols: "seg_columns sg" using inv by blast
  let ?ph = "predicate_has_phrases (row_program (seg_row sg (unat row)))"
  let ?sg = "sg\<lparr>alive_counter := alive_counter sg - 1, live_phrase_predicates := live_phrase_predicates sg - of_bool ?ph,
      seg_alive := (seg_alive sg)[unat row := False]\<rparr>"
  have tomb: "tombstone row sg = Some ?sg"
    using row len row_phrases [OF read_seg_row [OF cols row(1)]] by (simp add: tombstone_def at_index_def)
  obtain pre post where live: "live_rows sg = pre @ (seg_row sg (unat row), seg_class sg ! unat row) # post"
    "live_rows ?sg = pre @ post"
    using live_rows_tombstone [OF cols row, of ?sg] by auto
  have same: "segment_len ?sg = segment_len sg" "is_leader ?sg = is_leader sg" "members_of ?sg = members_of sg"
    "locals_for_logical ?sg = locals_for_logical sg"
    by (simp_all add: segment_len_def is_leader_def [abs_def] members_of_def [abs_def] locals_for_logical_def [abs_def])
  have "seg_columns ?sg" using cols by (simp add: seg_columns_def segment_len_def)
  moreover have "seg_groups ?sg" using inv unfolding seg_groups_def same by simp
  moreover have "seg_lanes rb d ?sg" using inv unfolding seg_lanes_def same by simp
  moreover have "seg_counts ?sg"
    using inv live row len unfolding seg_counts_def same by (auto simp: nth_list_update split: if_splits)
  moreover have "seg_seals ?sg" using inv by (simp add: seg_seals_def)
  ultimately show ?thesis using tomb live True by (auto simp: seg_inv_def)
qed

lemma build_filter_inv:
  assumes "seg_inv rb d sg"
  shows "\<exists>sg'. build_filter sg = Some sg' \<and> seg_inv rb d sg' \<and> live_rows sg' = live_rows sg \<and>
    seg_filter sg' \<noteq> None \<and> seg_tag_summary sg' \<noteq> None"
proof -
  let ?keys = "index_keys (seg_main sg) @ index_keys (seg_broad sg) @ index_keys (seg_hot sg)"
  obtain f where f: "filter_build ?keys = Some f" using bloom.build_total by blast
  let ?sg = "sg\<lparr>seg_filter := Some f, seg_tag_summary := Some (tag_summary_build (tag_blob (seg_exact sg))), body_index := []\<rparr>"
  note inv = seg_invD [OF assms]
  have same: "segment_len ?sg = segment_len sg" "is_leader ?sg = is_leader sg" "members_of ?sg = members_of sg"
    "locals_for_logical ?sg = locals_for_logical sg" "live_rows ?sg = live_rows sg"
    by (simp_all add: segment_len_def is_leader_def [abs_def] members_of_def [abs_def] locals_for_logical_def [abs_def]
        live_rows_def)
  have "seg_columns ?sg" using inv by (simp add: seg_columns_def segment_len_def)
  moreover have "seg_groups ?sg" using inv unfolding seg_groups_def same by simp
  moreover have "seg_lanes rb d ?sg" using inv unfolding seg_lanes_def same by simp
  moreover have "seg_counts ?sg" using inv unfolding seg_counts_def same by simp
  moreover have "seg_seals ?sg" using f by (simp add: seg_seals_def)
  moreover have "build_filter sg = Some ?sg" by (simp add: build_filter_def f)
  ultimately show ?thesis using same(5) by (auto simp: seg_inv_def)
qed

end
