(* ===== verification/Segment_Merge_Correct.thy ===== *)
theory Segment_Merge_Correct
  imports Segment_Merge Segment_Invariant
begin

text \<open>
  A merge keeps what readers may see: the live rows of the result are those of the
  sources, in order, on the same side of the opt-in boundary, and the result
  satisfies the segment invariant.
\<close>

section \<open>Loops over postings\<close>

lemma for_each_fold: "for_each rb f p s = fold f (posting_ids rb p) s"
proof -
  have "iterate_while (\<lambda>i s. (True, f i s)) xs s = fold f xs s" for xs
    by (induction xs arbitrary: s) simp_all
  then show ?thesis by (simp add: for_each_def for_each_while_def)
qed

definition index_ops :: "'bm roaring \<Rightarrow> 'bm candidate_index \<Rightarrow> (u64 \<times> u32) list" where
  "index_ops rb ix = concat (map (\<lambda>(k, p). map (Pair k) (posting_ids rb p)) ix)"

lemma postings_fold: "for_each_posting (\<lambda>key. for_each rb (g key)) ix s = fold (\<lambda>(k, i). g k i) (index_ops rb ix) s"
proof (induction ix arbitrary: s)
  case (Cons e ix)
  have "fold (\<lambda>(k, i). g k i) (map (Pair k) is) s = fold (g k) is s" for k "is" s
    by (induction "is" arbitrary: s) simp_all
  then show ?case using Cons by (cases e) (simp add: for_each_posting_def index_ops_def for_each_fold)
qed (simp add: for_each_posting_def index_ops_def)

lemma index_ops_reach: "index_inv rb ix \<Longrightarrow> (k, i) \<in> set (index_ops rb ix) \<longleftrightarrow> i \<in> index_reach rb ix k"
  by (force simp: index_ops_def index_reach_def index_ids_def index_get_def index_inv_def split: option.splits
      dest: map_of_SomeD map_of_is_SomeI simp: map_of_eq_None_iff)

lemma invert_fold:
  fixes ops :: "(u64 \<times> u32) list"
  assumes "\<forall>(k, i) \<in> set ops. unat i < length keys" "length keys \<le> 2 ^ 32"
  shows "\<exists>keys'. fold (\<lambda>(key, old_id) r. do { keys \<leftarrow> r; ks \<leftarrow> at_index keys (unat old_id); Some (keys[unat old_id := ks @ [key]]) })
      ops (Some keys) = Some keys' \<and> length keys' = length keys \<and>
      (\<forall>j < length keys. set (keys' ! j) = set (keys ! j) \<union> {k. (k, of_nat j) \<in> set ops})"
  using assms
proof (induction ops arbitrary: keys)
  case (Cons op ops)
  obtain k i where op: "op = (k, i)" by (cases op)
  let ?keys = "keys[unat i := keys ! unat i @ [k]]"
  have i: "unat i < length keys" using Cons.prems op by simp
  obtain keys' where keys': "fold (\<lambda>(key, old_id) r. do { keys \<leftarrow> r; ks \<leftarrow> at_index keys (unat old_id);
        Some (keys[unat old_id := ks @ [key]]) }) ops (Some ?keys) = Some keys'" "length keys' = length ?keys"
    "\<And>j. j < length ?keys \<Longrightarrow> set (keys' ! j) = set (?keys ! j) \<union> {k. (k, of_nat j) \<in> set ops}"
    using Cons.IH [of ?keys] Cons.prems by auto
  have "set (keys' ! j) = set (keys ! j) \<union> {k. (k, of_nat j) \<in> set (op # ops)}" if "j < length keys" for j
  proof (cases "unat i = j")
    case True
    then have "of_nat j = i" by auto
    then show ?thesis using keys'(3) [of j] that True by (auto simp: op)
  next
    case False
    then have "of_nat j \<noteq> i" using that Cons.prems(2) unat_row [of j] by auto
    then show ?thesis using keys'(3) [of j] that False by (auto simp: op)
  qed
  then show ?case using keys'(1,2) i by (simp add: op at_index_def)
qed simp

lemma invert_keys:
  assumes "index_inv rb ix" "\<And>k i. i \<in> index_reach rb ix k \<Longrightarrow> unat i < n" "n \<le> 2 ^ 32"
  shows "\<exists>keys. invert rb n ix = Some keys \<and> length keys = n \<and> (\<forall>j < n. set (keys ! j) = keys_at rb ix (of_nat j))"
proof -
  have "\<forall>(k, i) \<in> set (index_ops rb ix). unat i < length (replicate n [] :: u64 list list)"
    using assms(1,2) by (auto simp: index_ops_reach)
  from invert_fold [OF this] obtain keys where
    "invert rb n ix = Some keys" "length keys = n" "\<forall>j < n. set (keys ! j) = {k. (k, of_nat j) \<in> set (index_ops rb ix)}"
    using assms(3) by (auto simp: invert_def postings_fold)
  then show ?thesis using assms(1) by (auto simp: keys_at_def index_ops_reach)
qed

lemma lane_bound:
  assumes "seg_inv rb d sg" "ix \<in> {seg_main sg, seg_broad sg, seg_hot sg}"
  shows "index_inv rb ix" "i \<in> index_reach rb ix k \<Longrightarrow> unat i < segment_len sg"
  using assms unfolding seg_inv_def seg_lanes_def is_leader_def by blast+

lemma invert_lanes_keys:
  assumes "seg_inv rb d src"
  shows "\<exists>keys. invert_lanes rb src = Some keys \<and>
    length (old_main keys) = segment_len src \<and> length (old_broad keys) = segment_len src \<and> length (old_hot keys) = segment_len src \<and>
    (\<forall>j < segment_len src. set (old_main keys ! j) = keys_at rb (seg_main src) (of_nat j) \<and>
       set (old_broad keys ! j) = keys_at rb (seg_broad src) (of_nat j) \<and> set (old_hot keys ! j) = keys_at rb (seg_hot src) (of_nat j))"
proof -
  have n: "segment_len src \<le> 2 ^ 32" using assms by (simp add: seg_inv_def seg_columns_def)
  have lane: "\<exists>keys. invert rb (segment_len src) ix = Some keys \<and> length keys = segment_len src \<and>
      (\<forall>j < segment_len src. set (keys ! j) = keys_at rb ix (of_nat j))"
    if "ix \<in> {seg_main src, seg_broad src, seg_hot src}" for ix
    by (rule invert_keys [OF lane_bound [OF assms that] n])
  show ?thesis
    using lane [of "seg_main src"] lane [of "seg_broad src"] lane [of "seg_hot src"] by (auto simp: invert_lanes_def)
qed

section \<open>One source\<close>

text \<open>The rows to merge fit one after the other into an empty store.\<close>

definition rows_room :: "stored_row list \<Rightarrow> bool" where
  "rows_room rs \<longleftrightarrow> Suc (length rs) < 2 ^ 32 \<and>
     (\<forall>k < length rs. store_room (rs ! k) (fold append_row (take k rs) store_new))"

text \<open>\<open>dest\<close> holds the live rows \<open>rcs\<close>, with classes related by \<open>R\<close> to their old ones.\<close>

definition merging ::
  "'bm roaring \<Rightarrow> dict \<Rightarrow> (cost_class \<Rightarrow> cost_class \<Rightarrow> bool) \<Rightarrow> (stored_row \<times> cost_class) list \<Rightarrow> 'bm segment \<Rightarrow> bool" where
  "merging rb d R rcs dest \<longleftrightarrow> seg_inv rb d dest \<and> unsealed dest \<and>
     seg_exact dest = fold append_row (map fst rcs) store_new \<and>
     list_all2 (\<lambda>(r, c) (r', c'). r' = r \<and> R c c') rcs (live_rows dest)"

lemma store_len_fold [simp]: "store_len (fold append_row rs st) = store_len st + length rs"
  by (induction rs arbitrary: st) simp_all

lemma merging_len: "merging rb d R rcs dest \<Longrightarrow> segment_len dest = length rcs"
  by (simp add: merging_def segment_len_def) (simp add: store_len_def store_new_def)

lemma merging_admissible:
  assumes "merging rb d R rcs dest" "rows_room (map fst rcs @ r # rest)" "row_usable r"
  shows "row_admissible r dest"
proof -
  have "store_room r (fold append_row (map fst rcs) store_new)"
  proof -
    have "\<forall>k < Suc (length rcs + length rest). store_room ((map fst rcs @ r # rest) ! k)
        (fold append_row (take k (map fst rcs @ r # rest)) store_new)"
      using assms(2) by (simp add: rows_room_def)
    from spec [OF this, of "length rcs"] show ?thesis by (simp add: nth_append)
  qed
  then show ?thesis
    using assms merging_len [OF assms(1)] by (simp add: row_admissible_def merging_def rows_room_def)
qed

lemma merging_snoc:
  assumes "merging rb d R rcs dest" "row_added rb d dest r c' dest'" "R c c'"
  shows "merging rb d R (rcs @ [(r, c)]) dest'"
  using assms by (simp add: merging_def row_added_def list_all2_appendI)

lemma copy_into_row:
  assumes "seg_columns src" "old < segment_len src" "seg_columns dest" "row_admissible (seg_row src old) dest"
  shows "copy_into src old dest = Some (of_nat (segment_len dest), row_logical (seg_row src old),
    dest\<lparr>seg_exact := append_row (seg_row src old) (seg_exact dest)\<rparr>)"
proof -
  have "unat (of_nat old :: u32) = old" using assms(1,2) by (intro unat_row) (simp add: seg_columns_def)
  then show ?thesis
    using read_seg_row [OF assms(1,2)] read_rowD [OF new_row_read [OF assms(3,4)]]
    by (simp add: copy_into_def copy_appends segment_len_def)
qed

lemma each_alive_indexed:
  assumes step: "\<And>old rcs s rest. old < segment_len src \<Longrightarrow> seg_alive src ! old \<Longrightarrow> I old rcs s \<Longrightarrow>
      T = rcs @ (seg_row src old, seg_class src ! old) # rest \<Longrightarrow>
      \<exists>s'. f old s = Some s' \<and> I (Suc old) (rcs @ [(seg_row src old, seg_class src ! old)]) s'"
    and skip: "\<And>old rcs s. old < segment_len src \<Longrightarrow> I old rcs s \<Longrightarrow> I (Suc old) rcs s"
    and "length (seg_alive src) = segment_len src" "I 0 rcs s" "T = rcs @ live_rows src @ rest"
  shows "\<exists>s'. each_alive f 0 (seg_alive src) s = Some s' \<and> I (segment_len src) (rcs @ live_rows src) s'"
proof -
  let ?n = "segment_len src" and ?rc = "\<lambda>i. (seg_row src i, seg_class src ! i)"
  have "\<exists>s'. each_alive f k (drop k (seg_alive src)) s = Some s' \<and>
      I ?n (rcs @ map ?rc (filter ((!) (seg_alive src)) [k..<?n])) s'"
    if "I k rcs s" "T = rcs @ map ?rc (filter ((!) (seg_alive src)) [k..<?n]) @ rest" "k \<le> ?n" for k rcs s
    using that
  proof (induction "?n - k" arbitrary: k rcs s)
    case (Suc m)
    then have k: "k < ?n" "drop k (seg_alive src) = seg_alive src ! k # drop (Suc k) (seg_alive src)" "[k..<?n] = k # [Suc k..<?n]"
      using assms(3) by (simp_all add: Cons_nth_drop_Suc upt_conv_Cons)
    show ?case
    proof (cases "seg_alive src ! k")
      case True
      then have T: "T = rcs @ ?rc k # map ?rc (filter ((!) (seg_alive src)) [Suc k..<?n]) @ rest"
        using Suc.prems(2) k(3) by simp
      obtain s' where "f k s = Some s'" "I (Suc k) (rcs @ [?rc k]) s'" using step [OF k(1) True Suc.prems(1) T] by blast
      then show ?thesis
        using Suc.hyps(1) [of "Suc k" "rcs @ [?rc k]" s'] Suc.hyps(2) T k True by simp
    next
      case False
      then show ?thesis using Suc.hyps(1) [of "Suc k" rcs s] skip [OF k(1) Suc.prems(1)] Suc.hyps(2) Suc.prems k by simp
    qed
  qed (simp add: assms(3))
  from this [OF assms(4)] show ?thesis using assms(5) by (simp add: live_rows_def)
qed

lemmas each_alive_live = each_alive_indexed [where I = "\<lambda>_. I" for I]

lemma fold_opt_live:
  assumes "\<And>src rcs s rest. src \<in> set sources \<Longrightarrow> I rcs s \<Longrightarrow> T = rcs @ live_rows src @ rest \<Longrightarrow>
      \<exists>s'. f src s = Some s' \<and> I (rcs @ live_rows src) s'"
    and "I rcs s" "T = rcs @ concat (map live_rows sources)"
  shows "\<exists>s'. fold_opt f sources s = Some s' \<and> I T s'"
  using assms
proof (induction sources arbitrary: rcs s)
  case (Cons src sources)
  obtain s1 where s1: "f src s = Some s1" "I (rcs @ live_rows src) s1"
    using Cons.prems(1) [OF _ Cons.prems(2), of src "concat (map live_rows sources)"] Cons.prems(3) by auto
  have "\<exists>s'. fold_opt f sources s1 = Some s' \<and> I T s'"
  proof (rule Cons.IH [OF _ s1(2)])
    fix x rcs' s' rest
    assume "x \<in> set sources" "I rcs' s'" "T = rcs' @ live_rows x @ rest"
    then show "\<exists>s''. f x s' = Some s'' \<and> I (rcs' @ live_rows x) s''" using Cons.prems(1) [of x] by simp
  qed (use Cons.prems(3) in simp)
  then show ?case using s1(1) by simp
qed simp

lemma seg_inv_epochs:
  "seg_inv rb d (sg\<lparr>vocab_epoch := e, compiler_semantics_version := v\<rparr>) \<longleftrightarrow> seg_inv rb d sg"
  "live_rows (sg\<lparr>vocab_epoch := e, compiler_semantics_version := v\<rparr>) = live_rows sg"
  by (simp_all add: seg_inv_def seg_columns_def seg_groups_def seg_lanes_def seg_counts_def seg_seals_def segment_len_def
      is_leader_def members_of_def live_rows_def locals_for_logical_def)

lemma finish_merge_inv:
  assumes "merging rb d R T dest"
  shows "\<exists>dest'. finish_merge sources dest = Some dest' \<and> seg_inv rb d dest' \<and>
    list_all2 (\<lambda>(r, c) (r', c'). r' = r \<and> R c c') T (live_rows dest')"
proof -
  obtain sg where "build_filter dest = Some sg" "seg_inv rb d sg" "live_rows sg = live_rows dest"
    using build_filter_inv [of rb d dest] assms unfolding merging_def by blast
  then show ?thesis using assms by (simp add: finish_merge_def seg_inv_epochs merging_def)
qed

section \<open>The group-aware merge\<close>

lemma previous_keys_cover:
  assumes "seg_inv rb d src" "invert_lanes rb src = Some keys" "old < segment_len src"
  shows "\<exists>m b h. previous_keys keys src old = Some (m, b, h) \<and>
    row_cover d (seg_class src ! old) (set m) (set b) (set h) (seg_row src old) \<and>
    keys_in_lane (seg_class src ! old) (set m) (set b) (set h)"
proof -
  let ?l = "dup_of src ! old"
  have small: "unat (of_nat old :: u32) = old" and len: "length (dup_of src) = segment_len src"
    using assms(1,3) by (auto intro: unat_row simp: seg_inv_def seg_columns_def)
  have group: "is_leader src ?l" "seg_class src ! old = seg_class src ! unat ?l" "same_answers (seg_row src old) (seg_row src (unat ?l))"
    using assms(1,3) by (simp_all add: seg_inv_def seg_groups_def)
  then have lanes: "keys_in_lane (seg_class src ! old) (keys_at rb (seg_main src) ?l) (keys_at rb (seg_broad src) ?l) (keys_at rb (seg_hot src) ?l)"
    "row_cover d (seg_class src ! old) (keys_at rb (seg_main src) ?l) (keys_at rb (seg_broad src) ?l)
      (keys_at rb (seg_hot src) ?l) (seg_row src old)"
    using assms(1) row_cover_same by (auto simp: seg_inv_def seg_lanes_def)
  have l: "unat ?l < segment_len src" using group(1) by (simp add: is_leader_def)
  have "dup_leader_of src (of_nat old) = ?l" using assms(3) small len by (simp add: dup_leader_of_def at_index_def)
  then show ?thesis
    using invert_lanes_keys [OF assms(1)] assms(2) l lanes by (auto simp: previous_keys_def Let_def at_index_def)
qed

text \<open>What the merges that look for a leader share: the copied row, its hash, the search, the old keys.\<close>

lemma merge_entry:
  assumes "seg_inv rb d src" "invert_lanes rb src = Some keys" "old < segment_len src"
    and "merging rb d R rcs dest" "rows_room (map fst rcs @ seg_row src old # rest)"
    and "\<And>l. is_leader dest l \<Longrightarrow> wanted l \<noteq> None"
    and r: "r = seg_row src old" and row: "row = of_nat (segment_len dest)"
    and dest': "dest' = dest\<lparr>seg_exact := append_row r (seg_exact dest)\<rparr>"
  shows "row_admissible r dest" "copy_into src old dest = Some (row, row_logical r, dest')"
    "at_index (seg_class src) old = Some (seg_class src ! old)"
    "row_has_phrase_predicates (append_row r (seg_exact dest)) row = Some (predicate_has_phrases (row_program r))"
    "\<exists>hash. body_signature (append_row r (seg_exact dest)) row = Some hash"
    "\<exists>found. leader_for wanted hash row dest' = Some found \<and>
      (\<forall>l. found = Some l \<longrightarrow> is_leader dest l \<and> wanted l = Some (is_opt_in (seg_class dest ! unat l)) \<and>
        same_answers r (seg_row dest (unat l)))"
proof -
  have src: "seg_columns src" using assms(1) by (simp add: seg_inv_def)
  have inv: "seg_inv rb d dest" "seg_columns dest" using assms(4) by (simp_all add: merging_def seg_inv_def)
  show adm: "row_admissible r dest" unfolding r by (rule merging_admissible [OF assms(4,5) seg_row_usable [OF src assms(3)]])
  show "copy_into src old dest = Some (row, row_logical r, dest')"
    unfolding r row dest' by (rule copy_into_row [OF src assms(3) inv(2) adm [unfolded r]])
  show "at_index (seg_class src) old = Some (seg_class src ! old)"
    using src assms(3) by (simp add: seg_columns_def at_index_def)
  show "row_has_phrase_predicates (append_row r (seg_exact dest)) row = Some (predicate_has_phrases (row_program r))"
    unfolding row by (rule row_phrases [OF new_row_read [OF inv(2) adm]])
  show "\<exists>hash. body_signature (append_row r (seg_exact dest)) row = Some hash"
    unfolding row by (rule new_row_signature [OF inv(2) adm])
  show "\<exists>found. leader_for wanted hash row dest' = Some found \<and>
      (\<forall>l. found = Some l \<longrightarrow> is_leader dest l \<and> wanted l = Some (is_opt_in (seg_class dest ! unat l)) \<and>
        same_answers r (seg_row dest (unat l)))"
    unfolding row dest' by (rule leader_for_spec [OF inv(1) adm assms(6)])
qed

lemma regroup_entry_step:
  assumes "seg_inv rb d src" "invert_lanes rb src = Some keys" "old < segment_len src"
    and "merging rb d (\<lambda>c c'. is_opt_in c' = is_opt_in c) rcs dest"
    and "rows_room (map fst rcs @ seg_row src old # rest)"
  shows "\<exists>dest'. regroup_entry rb src keys old dest = Some dest' \<and>
    merging rb d (\<lambda>c c'. is_opt_in c' = is_opt_in c) (rcs @ [(seg_row src old, seg_class src ! old)]) dest'"
proof -
  let ?r = "seg_row src old" and ?c = "seg_class src ! old" and ?row = "of_nat (segment_len dest) :: u32"
  let ?dest = "dest\<lparr>seg_exact := append_row ?r (seg_exact dest)\<rparr>"
  have inv: "seg_inv rb d dest" "unsealed dest" using assms(4) by (simp_all add: merging_def)
  note entry = merge_entry [OF assms, of "\<lambda>_. Some (is_opt_in ?c)", OF _ refl refl refl, simplified]
  obtain hash where hash: "body_signature (append_row ?r (seg_exact dest)) ?row = Some hash" using entry(5) by blast
  obtain found where found: "leader_for (\<lambda>_. Some (is_opt_in ?c)) hash ?row ?dest = Some found"
    "\<And>l. found = Some l \<Longrightarrow> is_leader dest l \<and> is_opt_in (seg_class dest ! unat l) = is_opt_in ?c \<and> same_answers ?r (seg_row dest (unat l))"
    using entry(6) [of hash] by auto
  obtain m b h where prev: "previous_keys keys src old = Some (m, b, h)" "row_cover d ?c (set m) (set b) (set h) ?r"
    "keys_in_lane ?c (set m) (set b) (set h)"
    using previous_keys_cover [OF assms(1-3)] by blast
  note run = regroup_entry_def entry(2,3) hash found(1) prev(1)
  show ?thesis
  proof (cases found)
    case None
    obtain dest' where "enter_row ?row (row_logical ?r) (lead_group rb (Some hash) ?row ?c m b h ?dest) = Some dest'"
      "row_added rb d dest ?r ?c dest'"
      using lead_enter [OF inv entry(1) prev(2,3), of "Some hash"] by blast
    then show ?thesis using None merging_snoc [OF assms(4), of ?r ?c dest' ?c] by (simp add: run)
  next
    case (Some l)
    then obtain dest1 dest' where "join_group l ?row ?dest = Some dest1" "enter_row ?row (row_logical ?r) dest1 = Some dest'"
      "row_added rb d dest ?r (seg_class dest ! unat l) dest'"
      using join_enter [OF inv entry(1), of l] found(2) [of l] by auto
    then show ?thesis
      using found(2) Some merging_snoc [OF assms(4), of ?r "seg_class dest ! unat l" dest' ?c] by (simp add: run)
  qed
qed

lemma merging_new: "roaring_ok rb \<Longrightarrow> merging rb d R [] segment_new"
  using segment_new_inv [of rb d] by (simp add: merging_def) (simp add: segment_new_def)

text \<open>The loop the merges that invert the lanes share.\<close>

lemma fold_entries:
  assumes inv: "\<And>src. src \<in> set sources \<Longrightarrow> seg_inv rb d src"
    and step: "\<And>src keys old rcs s rest. src \<in> set sources \<Longrightarrow> invert_lanes rb src = Some keys \<Longrightarrow>
      old < segment_len src \<Longrightarrow> I rcs s \<Longrightarrow> T = rcs @ (seg_row src old, seg_class src ! old) # rest \<Longrightarrow>
      \<exists>s'. f src keys old s = Some s' \<and> I (rcs @ [(seg_row src old, seg_class src ! old)]) s'"
    and "I [] s" "T = concat (map live_rows sources)"
  shows "\<exists>s'. fold_opt (\<lambda>src s. do { keys \<leftarrow> invert_lanes rb src; each_alive (f src keys) 0 (seg_alive src) s }) sources s = Some s' \<and> I T s'"
proof (rule fold_opt_live [where rcs = "[]"])
  fix src rcs s rest
  assume src: "src \<in> set sources" and st: "I rcs s" and T: "T = rcs @ live_rows src @ rest"
  obtain keys where keys: "invert_lanes rb src = Some keys" using invert_lanes_keys [OF inv [OF src]] by blast
  have "\<exists>s'. each_alive (f src keys) 0 (seg_alive src) s = Some s' \<and> I (rcs @ live_rows src) s'"
    by (rule each_alive_live [where I = I, OF _ _ _ st T])
      (use step [OF src keys] inv [OF src] in \<open>simp_all add: seg_inv_def seg_columns_def\<close>)
  then show "\<exists>s'. do { keys \<leftarrow> invert_lanes rb src; each_alive (f src keys) 0 (seg_alive src) s } = Some s' \<and> I (rcs @ live_rows src) s'"
    by (simp add: keys)
qed (simp_all add: assms(3,4))

lemma compact_grouped_inv:
  assumes "roaring_ok rb" "\<And>src. src \<in> set sources \<Longrightarrow> seg_inv rb d src"
    and "rows_room (map fst (concat (map live_rows sources)))"
  shows "\<exists>dest. compact_from_grouped rb sources = Some dest \<and> seg_inv rb d dest \<and>
    list_all2 (\<lambda>(r, c) (r', c'). r' = r \<and> is_opt_in c' = is_opt_in c) (concat (map live_rows sources)) (live_rows dest)"
proof -
  let ?R = "\<lambda>c c'. is_opt_in c' = is_opt_in c" and ?T = "concat (map live_rows sources)"
  have "\<exists>dest. fold_opt (\<lambda>src dest. do { keys \<leftarrow> invert_lanes rb src;
      each_alive (regroup_entry rb src keys) 0 (seg_alive src) dest }) sources segment_new = Some dest \<and> merging rb d ?R ?T dest"
  proof (rule fold_entries [OF assms(2), where I = "merging rb d ?R"])
    fix src keys old rcs dest rest
    assume "src \<in> set sources" "invert_lanes rb src = Some keys" "old < segment_len src" "merging rb d ?R rcs dest"
      "?T = rcs @ (seg_row src old, seg_class src ! old) # rest"
    then show "\<exists>s'. regroup_entry rb src keys old dest = Some s' \<and> merging rb d ?R (rcs @ [(seg_row src old, seg_class src ! old)]) s'"
      using assms(3) by (intro regroup_entry_step [OF assms(2), of _ _ _ _ _ "map fst rest"]) simp_all
  qed (simp_all add: merging_new [OF assms(1)])
  then show ?thesis using finish_merge_inv by (fastforce simp: compact_from_grouped_def)
qed

section \<open>The mechanical merge\<close>

text \<open>Without body groups every row is its own leader.\<close>

lemma no_groups_leader:
  assumes "seg_columns sg" "seg_groups sg" "\<not> has_dup_groups sg" "unat l < segment_len sg"
  shows "is_leader sg l"
proof (rule ccontr)
  assume "\<not> is_leader sg l"
  then have "dup_of sg ! unat l \<noteq> l" using assms(4) by (simp add: is_leader_def)
  then have "l \<in> set (members_of sg (dup_of sg ! unat l))" using assms(2,4) by (auto simp: seg_groups_def)
  then show False using assms(3) by (simp add: has_dup_groups_def members_of_def)
qed

lemma all_live_rows:
  assumes "live_rows sg = rcs" "length rcs = segment_len sg" "i < length rcs"
  shows "rcs ! i = (seg_row sg i, seg_class sg ! i)"
proof -
  have "length (filter ((!) (seg_alive sg)) [0..<segment_len sg]) = length [0..<segment_len sg]"
    using assms(1,2) by (auto simp: live_rows_def)
  then have "filter ((!) (seg_alive sg)) [0..<segment_len sg] = [0..<segment_len sg]"
    by (metis filter_id_conv length_filter_less nat_neq_iff)
  then show ?thesis using assms by (auto simp: live_rows_def)
qed

text \<open>
  The state of the copying loop: \<open>base\<close> are the rows before this source, \<open>dest0\<close>
  the segment then; the postings are not touched until the loop ends.
\<close>

definition remap_ok :: "(stored_row \<times> cost_class) list \<Rightarrow> (stored_row \<times> cost_class) list \<Rightarrow> 'bm segment \<Rightarrow> nat \<Rightarrow> u32 list \<Rightarrow> bool" where
  "remap_ok base rcs src k remap \<longleftrightarrow> length remap = segment_len src \<and>
     (\<forall>i < segment_len src. k \<le> i \<longrightarrow> remap ! i = - 1) \<and>
     (\<forall>i < segment_len src. remap ! i \<noteq> - 1 \<longrightarrow> (\<exists>x. length base \<le> x \<and> x < length rcs \<and> remap ! i = of_nat x \<and>
        rcs ! x = (seg_row src i, seg_class src ! i))) \<and>
     (\<forall>x. length base \<le> x \<and> x < length rcs \<longrightarrow> (\<exists>i < segment_len src. remap ! i = of_nat x)) \<and>
     (\<forall>i < segment_len src. \<forall>j < segment_len src. remap ! i = remap ! j \<and> remap ! i \<noteq> - 1 \<longrightarrow> i = j)"

definition copied ::
  "(stored_row \<times> cost_class) list \<Rightarrow> 'bm segment \<Rightarrow> 'bm segment \<Rightarrow> nat \<Rightarrow> (stored_row \<times> cost_class) list \<Rightarrow>
   u32 list \<times> 'bm segment \<Rightarrow> bool" where
  "copied base dest0 src k rcs acc \<longleftrightarrow> (case acc of (remap, dest) \<Rightarrow>
     seg_columns dest \<and> seg_groups dest \<and> seg_counts dest \<and> unsealed dest \<and> dup_members dest = [] \<and>
     seg_exact dest = fold append_row (map fst rcs) store_new \<and> live_rows dest = rcs \<and>
     (seg_main dest, seg_broad dest, seg_hot dest) = (seg_main dest0, seg_broad dest0, seg_hot dest0) \<and>
     remap_ok base rcs src k remap)"

lemma remap_okD:
  assumes "remap_ok base rcs src k remap"
  shows "length remap = segment_len src" "i < segment_len src \<Longrightarrow> k \<le> i \<Longrightarrow> remap ! i = - 1"
    "i < segment_len src \<Longrightarrow> remap ! i \<noteq> - 1 \<Longrightarrow> \<exists>x. length base \<le> x \<and> x < length rcs \<and>
      remap ! i = of_nat x \<and> rcs ! x = (seg_row src i, seg_class src ! i)"
    "length base \<le> x \<Longrightarrow> x < length rcs \<Longrightarrow> \<exists>i < segment_len src. remap ! i = of_nat x"
    "i < segment_len src \<Longrightarrow> j < segment_len src \<Longrightarrow> remap ! i = remap ! j \<Longrightarrow> remap ! i \<noteq> - 1 \<Longrightarrow> i = j"
  using assms unfolding remap_ok_def by blast+

lemma small_not_max:
  assumes "Suc n < 2 ^ 32" "y \<le> n" shows "(of_nat y :: u32) \<noteq> - 1"
  using assms unat_row [of y] by (auto simp: word_unat_eq_iff unat_minus_one_max)

lemma remap_unused:
  assumes "remap_ok base rcs src k remap" "Suc (length rcs) < 2 ^ 32" "i < segment_len src"
  shows "remap ! i \<noteq> of_nat (length rcs)"
proof
  assume eq: "remap ! i = of_nat (length rcs)"
  then obtain x where "x < length rcs" "remap ! i = of_nat x"
    using remap_okD(3) [OF assms(1,3)] small_not_max [OF assms(2), of "length rcs"] by auto
  then show False using eq unat_row [of x] unat_row [of "length rcs"] assms(2) by auto
qed

lemma remap_image_step:
  assumes "remap_ok base rcs src old remap" "length base \<le> length rcs" "i < segment_len src"
    and "remap[old := of_nat (length rcs)] ! i \<noteq> - 1"
  shows "\<exists>x. length base \<le> x \<and> x < length (rcs @ [(seg_row src old, seg_class src ! old)]) \<and>
    remap[old := of_nat (length rcs)] ! i = of_nat x \<and>
    (rcs @ [(seg_row src old, seg_class src ! old)]) ! x = (seg_row src i, seg_class src ! i)"
proof (cases "i = old")
  case True
  then show ?thesis using assms(2,3) remap_okD(1) [OF assms(1)] by (intro exI [of _ "length rcs"]) simp
next
  case False
  then obtain x where "length base \<le> x" "x < length rcs" "remap ! i = of_nat x" "rcs ! x = (seg_row src i, seg_class src ! i)"
    using remap_okD(3) [OF assms(1,3)] assms(4) by auto
  then show ?thesis using False by (intro exI [of _ x]) (simp add: nth_append)
qed

lemma remap_onto_step:
  assumes "remap_ok base rcs src old remap" "old < segment_len src" "Suc (length rcs) < 2 ^ 32"
    and "length base \<le> x" "x \<le> length rcs"
  shows "\<exists>i < segment_len src. remap[old := of_nat (length rcs)] ! i = of_nat x"
proof (cases "x = length rcs")
  case True
  then show ?thesis using assms(2) remap_okD(1) [OF assms(1)] by (intro exI [of _ old]) simp
next
  case False
  then obtain i where i: "i < segment_len src" "remap ! i = of_nat x" using remap_okD(4) [OF assms(1,4)] assms(5) by auto
  then have "i \<noteq> old" using remap_okD(2) [OF assms(1,2)] small_not_max [OF assms(3,5)] by auto
  then show ?thesis using i by (intro exI [of _ i]) simp
qed

lemma remap_ok_step:
  assumes "remap_ok base rcs src old remap" "old < segment_len src" "length base \<le> length rcs" "Suc (length rcs) < 2 ^ 32"
  shows "remap_ok base (rcs @ [(seg_row src old, seg_class src ! old)]) src (Suc old) (remap[old := of_nat (length rcs)])"
  unfolding remap_ok_def
proof (intro conjI allI impI)
  show "length (remap[old := of_nat (length rcs)]) = segment_len src" using remap_okD(1) [OF assms(1)] by simp
next
  fix i assume "i < segment_len src" "Suc old \<le> i"
  then show "remap[old := of_nat (length rcs)] ! i = - 1" using remap_okD(2) [OF assms(1)] by simp
next
  fix i j
  assume "i < segment_len src" "j < segment_len src"
    "remap[old := of_nat (length rcs)] ! i = remap[old := of_nat (length rcs)] ! j \<and> remap[old := of_nat (length rcs)] ! i \<noteq> - 1"
  then show "i = j"
    using remap_okD(5) [OF assms(1), of i j] remap_unused [OF assms(1,4)] remap_okD(1) [OF assms(1)] assms(2)
    by (auto simp: nth_list_update split: if_splits)
qed (use remap_image_step [OF assms(1,3)] remap_onto_step [OF assms(1,2,4)] in \<open>auto simp: less_Suc_eq_le\<close>)

lemma rows_room_next:
  assumes "rows_room (map fst rcs @ r # rest)"
  shows "store_room r (fold append_row (map fst rcs) store_new) \<and> Suc (length rcs) < 2 ^ 32"
proof -
  have "\<forall>k < Suc (length rcs + length rest). store_room ((map fst rcs @ r # rest) ! k)
      (fold append_row (take k (map fst rcs @ r # rest)) store_new)"
    using assms by (simp add: rows_room_def)
  from spec [OF this, of "length rcs"] show ?thesis using assms by (simp add: rows_room_def nth_append)
qed

lemma remap_entry_step:
  assumes "seg_columns src" "old < segment_len src" "copied base dest0 src old rcs acc" "length base \<le> length rcs"
    and "rows_room (map fst rcs @ seg_row src old # rest)"
  shows "\<exists>acc'. remap_entry src old acc = Some acc' \<and>
    copied base dest0 src (Suc old) (rcs @ [(seg_row src old, seg_class src ! old)]) acc'"
proof -
  obtain remap dest where acc: "acc = (remap, dest)" by (cases acc)
  let ?r = "seg_row src old" and ?c = "seg_class src ! old" and ?row = "of_nat (segment_len dest) :: u32"
  let ?dest = "dest\<lparr>seg_exact := append_row ?r (seg_exact dest)\<rparr>"
  note st = assms(3) [unfolded copied_def acc, simplified]
  have len: "segment_len dest = length rcs" using st by (simp add: segment_len_def) (simp add: store_len_def store_new_def)
  have adm: "row_admissible ?r dest"
    using rows_room_next [OF assms(5)] st len seg_row_usable [OF assms(1,2)] by (simp add: row_admissible_def)
  have copy: "copy_into src old dest = Some (?row, row_logical ?r, ?dest)"
    using copy_into_row [OF assms(1,2) _ adm] st by blast
  have cls: "at_index (seg_class src) old = Some ?c" using assms(1,2) by (simp add: seg_columns_def at_index_def)
  have phrases: "row_has_phrase_predicates (append_row ?r (seg_exact dest)) ?row = Some (predicate_has_phrases (row_program ?r))"
    using row_phrases [OF new_row_read [OF _ adm]] st by simp
  define dest' where "dest' = ?dest\<lparr>seg_class := seg_class dest @ [?c], dup_of := dup_of dest @ [?row],
    seg_alive := seg_alive dest @ [True], alive_counter := Suc (alive_counter dest),
    live_phrase_predicates := live_phrase_predicates dest + of_bool (predicate_has_phrases (row_program ?r)),
    logical_index := push_local (row_logical ?r) ?row (logical_index dest)\<rparr>"
  have enter: "enter_row ?row (row_logical ?r) (?dest\<lparr>seg_class := seg_class ?dest @ [?c], dup_of := dup_of ?dest @ [?row]\<rparr>) = Some dest'"
    by (simp add: enter_row_def phrases dest'_def)
  have grown: "grown dest ?r ?c ?row dest'" by (simp add: grown_def dest'_def)
  have "dup_members dest' = dup_members dest" "body_index dest' = body_index dest" by (simp_all add: dest'_def)
  then have "seg_groups dest'" using st by (intro lead_groups [OF _ _ adm grown]) auto
  moreover have "seg_columns dest'" "seg_counts dest'" "live_rows dest' = rcs @ [(?r, ?c)]"
    using grown_columns [OF _ adm grown] grown_counts [OF _ _ adm grown] live_rows_grown [OF _ adm grown] st by simp_all
  moreover have "remap_ok base (rcs @ [(?r, ?c)]) src (Suc old) (remap[old := ?row])"
    using remap_ok_step [of base rcs src old remap] st assms(2,4) rows_room_next [OF assms(5)] len by simp
  moreover have "remap_entry src old acc = Some (remap[old := ?row], dest')"
    using copy cls enter st assms(2) by (simp add: remap_entry_def acc remap_ok_def at_index_def)
  ultimately show ?thesis using st by (auto simp: copied_def dest'_def unsealed_def)
qed

lemma remap_lane_reach:
  assumes "index_inv rb sx" "index_inv rb dx" "\<And>k i. i \<in> index_reach rb sx k \<Longrightarrow> unat i < length remap"
  shows "\<exists>ix. remap_lane rb remap sx dx = Some ix \<and> index_inv rb ix \<and>
    (\<forall>k. index_reach rb ix k = index_reach rb dx k \<union> {remap ! unat i | i. i \<in> index_reach rb sx k \<and> remap ! unat i \<noteq> - 1})"
proof -
  let ?f = "\<lambda>(key, old_id) r. do { ix \<leftarrow> r; new_id \<leftarrow> at_index remap (unat old_id);
      Some (if new_id \<noteq> - 1 then index_insert rb key new_id ix else ix) }"
  let ?ops = "\<lambda>ops. map (\<lambda>(k, i). (k, remap ! unat i)) (filter (\<lambda>(k, i). remap ! unat i \<noteq> - 1) ops)"
  have fold: "fold ?f ops (Some ix) = Some (fold (\<lambda>(k, i). index_insert rb k i) (?ops ops) ix)"
    if "\<forall>(k, i) \<in> set ops. unat i < length remap" for ops :: "(u64 \<times> u32) list" and ix
    using that by (induction ops arbitrary: ix) (auto simp: at_index_def)
  have "\<forall>(k, i) \<in> set (index_ops rb sx). unat i < length remap" using assms(1,3) by (auto simp: index_ops_reach)
  then have "remap_lane rb remap sx dx = Some (fold (\<lambda>(k, i). index_insert rb k i) (?ops (index_ops rb sx)) dx)"
    by (simp add: remap_lane_def postings_fold fold)
  moreover have "(k, x) \<in> set (?ops (index_ops rb sx)) \<longleftrightarrow>
      x \<in> {remap ! unat i | i. i \<in> index_reach rb sx k \<and> remap ! unat i \<noteq> - 1}" for k x
    using index_ops_reach [OF assms(1)] by force
  ultimately show ?thesis using ci.insert_ops [OF assms(2), of "?ops (index_ops rb sx)"] by auto
qed

definition plain_merging :: "'bm roaring \<Rightarrow> dict \<Rightarrow> (stored_row \<times> cost_class) list \<Rightarrow> 'bm segment \<Rightarrow> bool" where
  "plain_merging rb d rcs dest \<longleftrightarrow> seg_inv rb d dest \<and> unsealed dest \<and> dup_members dest = [] \<and>
     seg_exact dest = fold append_row (map fst rcs) store_new \<and> live_rows dest = rcs"

lemma copy_rows:
  assumes "seg_inv rb d src" "plain_merging rb d rcs dest" "rows_room (map fst (rcs @ live_rows src @ rest))"
  shows "\<exists>acc. each_alive (remap_entry src) 0 (seg_alive src) (replicate (segment_len src) (- 1), dest) = Some acc \<and>
    copied rcs dest src (segment_len src) (rcs @ live_rows src) acc"
proof -
  let ?I = "\<lambda>k rcs' acc. copied rcs dest src k rcs' acc \<and> length rcs \<le> length rcs'"
  have src: "seg_columns src" using assms(1) by (simp add: seg_inv_def)
  have start: "?I 0 rcs (replicate (segment_len src) (- 1), dest)"
    using assms(2) by (auto simp: copied_def plain_merging_def seg_inv_def remap_ok_def)
  have "\<exists>acc. each_alive (remap_entry src) 0 (seg_alive src) (replicate (segment_len src) (- 1), dest) = Some acc \<and>
      ?I (segment_len src) (rcs @ live_rows src) acc"
  proof (rule each_alive_indexed [where I = ?I, OF _ _ _ start refl])
    fix old rcs' acc rest'
    assume old: "old < segment_len src" and I: "?I old rcs' acc"
      and T: "rcs @ live_rows src @ rest = rcs' @ (seg_row src old, seg_class src ! old) # rest'"
    have "rows_room (map fst rcs' @ seg_row src old # map fst rest')" using assms(3) unfolding T by simp
    then show "\<exists>s'. remap_entry src old acc = Some s' \<and> ?I (Suc old) (rcs' @ [(seg_row src old, seg_class src ! old)]) s'"
      using remap_entry_step [OF src old] I by fastforce
  next
    fix old rcs' acc
    assume "?I old rcs' acc"
    then show "?I (Suc old) rcs' acc" by (auto simp: copied_def remap_ok_def split: prod.splits)
  qed (use src in \<open>simp add: seg_columns_def\<close>)
  then show ?thesis by blast
qed

text \<open>After the remap a new row has the keys of the row it was copied from, an old row its own.\<close>

definition lane_moved ::
  "'bm roaring \<Rightarrow> u32 list \<Rightarrow> nat \<Rightarrow> nat \<Rightarrow> nat \<Rightarrow> 'bm candidate_index \<Rightarrow> 'bm candidate_index \<Rightarrow> 'bm candidate_index \<Rightarrow> bool" where
  "lane_moved rb remap n b t sx dx ix \<longleftrightarrow> index_inv rb ix \<and> (\<forall>k. \<forall>l \<in> index_reach rb ix k. unat l < t) \<and>
     (\<forall>l. unat l < b \<longrightarrow> keys_at rb ix l = keys_at rb dx l) \<and>
     (\<forall>i < n. remap ! i \<noteq> - 1 \<longrightarrow> keys_at rb ix (remap ! i) = keys_at rb sx (of_nat i))"

lemma remap_lane_keys:
  assumes "remap_ok base rcs src k remap" "index_inv rb sx" "index_inv rb dx" "length rcs < 2 ^ 32" "segment_len src < 2 ^ 32"
    and "length base \<le> length rcs"
    and "\<And>k i. i \<in> index_reach rb sx k \<Longrightarrow> unat i < segment_len src"
    and "\<And>k i. i \<in> index_reach rb dx k \<Longrightarrow> unat i < length base"
  shows "\<exists>ix. remap_lane rb remap sx dx = Some ix \<and>
    lane_moved rb remap (segment_len src) (length base) (length rcs) sx dx ix"
proof -
  have len: "length remap = segment_len src" using assms(1) by (simp add: remap_ok_def)
  then obtain ix where ix: "remap_lane rb remap sx dx = Some ix" "index_inv rb ix"
    "\<And>k. index_reach rb ix k = index_reach rb dx k \<union> {remap ! unat i | i. i \<in> index_reach rb sx k \<and> remap ! unat i \<noteq> - 1}"
    using remap_lane_reach [OF assms(2,3), of remap] assms(7) by force
  have img: "length base \<le> unat (remap ! i) \<and> unat (remap ! i) < length rcs" if i: "i < segment_len src" "remap ! i \<noteq> - 1" for i
  proof -
    obtain x where x: "length base \<le> x" "x < length rcs" "remap ! i = of_nat x"
      using assms(1) i unfolding remap_ok_def by blast
    moreover have "unat (of_nat x :: u32) = x" using x(2) assms(4) by (intro unat_row) simp
    ultimately show ?thesis by simp
  qed
  have inj: "i = j" if "i < segment_len src" "j < segment_len src" "remap ! i = remap ! j" "remap ! i \<noteq> - 1" for i j
    using assms(1) that unfolding remap_ok_def by blast
  have "keys_at rb ix l = keys_at rb dx l" if "unat l < length base" for l
    using that img assms(7) by (fastforce simp: keys_at_def ix(3))
  moreover have "keys_at rb ix (remap ! i) = keys_at rb sx (of_nat i)" if i: "i < segment_len src" "remap ! i \<noteq> - 1" for i
  proof -
    have small: "unat (of_nat i :: u32) = i" using i(1) assms(5) by (intro unat_row) simp
    have "remap ! i \<notin> index_reach rb dx k" for k using img [OF i] assms(8) by fastforce
    moreover have "(\<exists>j. remap ! i = remap ! unat j \<and> j \<in> index_reach rb sx k \<and> remap ! unat j \<noteq> - 1) \<longleftrightarrow> of_nat i \<in> index_reach rb sx k" for k
    proof
      assume "\<exists>j. remap ! i = remap ! unat j \<and> j \<in> index_reach rb sx k \<and> remap ! unat j \<noteq> - 1"
      then obtain j where j: "remap ! i = remap ! unat j" "j \<in> index_reach rb sx k" by blast
      then have "i = unat j" using inj [OF i(1) assms(7) [OF j(2)] j(1) i(2)] by simp
      then show "of_nat i \<in> index_reach rb sx k" using j(2) by simp
    qed (use small i(2) in \<open>auto intro!: exI [of _ "of_nat i"]\<close>)
    ultimately show ?thesis by (auto simp: keys_at_def ix(3))
  qed
  moreover have "unat l < length rcs" if l: "l \<in> index_reach rb ix k" for k l
  proof (cases "l \<in> index_reach rb dx k")
    case True
    then show ?thesis using assms(8) [OF True] assms(6) by simp
  next
    case False
    then obtain i where "l = remap ! unat i" "i \<in> index_reach rb sx k" "remap ! unat i \<noteq> - 1" using l ix(3) by blast
    then show ?thesis using img [of "unat i"] assms(7) [of i k] by simp
  qed
  ultimately show ?thesis using ix(1,2) unfolding lane_moved_def by blast
qed

lemma remapped_lanes:
  assumes src: "seg_inv rb d src" "\<not> has_dup_groups src"
    and dest: "seg_inv rb d dest" "segment_len dest = length rcs" "live_rows dest = rcs" "\<not> has_dup_groups dest"
    and ok: "remap_ok rcs T src k remap" "T = rcs @ ys" "Suc (length T) < 2 ^ 32"
    and new: "segment_len dest' = length T" "live_rows dest' = T" "\<And>l. unat l < length T \<Longrightarrow> is_leader dest' l"
    and ix: "lane_moved rb remap (segment_len src) (length rcs) (length T) (seg_main src) (seg_main dest) (seg_main dest')"
      "lane_moved rb remap (segment_len src) (length rcs) (length T) (seg_broad src) (seg_broad dest) (seg_broad dest')"
      "lane_moved rb remap (segment_len src) (length rcs) (length T) (seg_hot src) (seg_hot dest) (seg_hot dest')"
  shows "seg_lanes rb d dest'"
proof -
  have rows: "T ! i = (seg_row dest' i, seg_class dest' ! i)" if "i < length T" for i
    using all_live_rows [OF new(2)] new(1) that by simp
  have old_rows: "rcs ! i = (seg_row dest i, seg_class dest ! i)" if "i < length rcs" for i
    using all_live_rows [OF dest(3)] dest(2) that by simp
  let ?K = "\<lambda>sg l. (keys_at rb (seg_main sg) l, keys_at rb (seg_broad sg) l, keys_at rb (seg_hot sg) l)"
  have good: "keys_in_lane c mk bk hk \<and> row_cover d c mk bk hk r"
    if "seg_inv rb d sg" "is_leader sg l" "(r, c) = (seg_row sg (unat l), seg_class sg ! unat l)" "(mk, bk, hk) = ?K sg l" for sg l r c mk bk hk
    using that by (simp add: seg_inv_def seg_lanes_def)
  have "keys_in_lane (seg_class dest' ! unat l) (keys_at rb (seg_main dest') l) (keys_at rb (seg_broad dest') l) (keys_at rb (seg_hot dest') l) \<and>
      row_cover d (seg_class dest' ! unat l) (keys_at rb (seg_main dest') l) (keys_at rb (seg_broad dest') l)
        (keys_at rb (seg_hot dest') l) (seg_row dest' (unat l))" if l: "unat l < length T" for l
  proof (cases "unat l < length rcs")
    case True
    have "is_leader dest l" using no_groups_leader [OF _ _ dest(4), of l] dest(1,2) True by (simp add: seg_inv_def)
    moreover have "(seg_row dest' (unat l), seg_class dest' ! unat l) = (seg_row dest (unat l), seg_class dest ! unat l)"
      using rows [OF l] old_rows [OF True] ok(2) True by (auto simp: nth_append)
    moreover have "?K dest' l = ?K dest l" using ix True by (simp add: lane_moved_def)
    ultimately show ?thesis using good [OF dest(1)] by blast
  next
    case False
    then obtain i where i: "i < segment_len src" "remap ! i = l"
      using ok(1) l unfolding remap_ok_def by (metis not_less of_nat_unat_row)
    have small: "unat (of_nat i :: u32) = i" using i(1) src(1) by (intro unat_row) (simp add: seg_inv_def seg_columns_def)
    have fresh: "remap ! i \<noteq> - 1"
      using l i(2) ok(3) by (auto simp: word_unat_eq_iff unat_minus_one_max)
    then obtain x where x: "x < length T" "remap ! i = of_nat x" "T ! x = (seg_row src i, seg_class src ! i)"
      using ok(1) i(1) unfolding remap_ok_def by blast
    have "x = unat l" using x(1,2) i(2) ok(3) unat_row [of x] by auto
    then have "(seg_row dest' (unat l), seg_class dest' ! unat l) = (seg_row src (unat (of_nat i :: u32)), seg_class src ! unat (of_nat i :: u32))"
      using x rows [OF l] small by simp
    moreover have "is_leader src (of_nat i)" using no_groups_leader [OF _ _ src(2)] src(1) i(1) small by (simp add: seg_inv_def)
    moreover have "?K dest' l = ?K src (of_nat i)" using ix i fresh by (auto simp: lane_moved_def)
    ultimately show ?thesis using good [OF src(1)] by blast
  qed
  moreover have "unat l < length T" if "is_leader dest' l" for l using that new(1) by (simp add: is_leader_def)
  moreover have "index_inv rb x \<and> (\<forall>k. \<forall>l \<in> index_reach rb x k. is_leader dest' l)"
    if "x \<in> {seg_main dest', seg_broad dest', seg_hot dest'}" for x
    using that ix new(3) unfolding lane_moved_def by blast
  ultimately show ?thesis unfolding seg_lanes_def by blast
qed

lemma remap_source_step:
  assumes "seg_inv rb d src" "\<not> has_dup_groups src" "plain_merging rb d rcs dest"
    and "rows_room (map fst (rcs @ live_rows src @ rest))"
  shows "\<exists>dest'. remap_source rb src dest = Some dest' \<and> plain_merging rb d (rcs @ live_rows src) dest'"
proof -
  let ?T = "rcs @ live_rows src"
  obtain remap dest1 where loop: "each_alive (remap_entry src) 0 (seg_alive src) (replicate (segment_len src) (- 1), dest) = Some (remap, dest1)"
    and copied: "copied rcs dest src (segment_len src) ?T (remap, dest1)"
    using copy_rows [OF assms(1,3,4)] by auto
  note st = copied [unfolded copied_def, simplified]
  have dest: "seg_inv rb d dest" "live_rows dest = rcs" "\<not> has_dup_groups dest" and exact: "seg_exact dest = fold append_row (map fst rcs) store_new"
    using assms(3) by (simp_all add: plain_merging_def has_dup_groups_def)
  have small: "Suc (length ?T) < 2 ^ 32" "segment_len src < 2 ^ 32" using assms(1,4) by (simp_all add: rows_room_def seg_inv_def seg_columns_def)
  have store: "segment_len sg = length xs" if "seg_exact sg = fold append_row (map fst xs) store_new" for sg :: "'a segment" and xs :: "(stored_row \<times> cost_class) list"
    unfolding segment_len_def that by simp (simp add: store_len_def store_new_def)
  have len: "segment_len dest = length rcs" "segment_len dest1 = length ?T" using store [OF exact] store [of dest1 ?T] st by simp_all
  have ok: "remap_ok rcs ?T src (segment_len src) remap" using st by simp
  have lane: "\<exists>ix. remap_lane rb remap sx dx = Some ix \<and> lane_moved rb remap (segment_len src) (length rcs) (length ?T) sx dx ix"
    if "sx \<in> {seg_main src, seg_broad src, seg_hot src}" "dx \<in> {seg_main dest, seg_broad dest, seg_hot dest}" for sx dx
    using small lane_bound [OF assms(1) that(1)] lane_bound [OF dest(1) that(2)] len(1)
    by (intro remap_lane_keys [OF ok]) simp_all
  obtain m b h where lanes: "remap_lane rb remap (seg_main src) (seg_main dest) = Some m"
    "remap_lane rb remap (seg_broad src) (seg_broad dest) = Some b" "remap_lane rb remap (seg_hot src) (seg_hot dest) = Some h"
    and moved: "lane_moved rb remap (segment_len src) (length rcs) (length ?T) (seg_main src) (seg_main dest) m"
    "lane_moved rb remap (segment_len src) (length rcs) (length ?T) (seg_broad src) (seg_broad dest) b"
    "lane_moved rb remap (segment_len src) (length rcs) (length ?T) (seg_hot src) (seg_hot dest) h"
    using lane [of "seg_main src" "seg_main dest"] lane [of "seg_broad src" "seg_broad dest"] lane [of "seg_hot src" "seg_hot dest"]
    by blast
  let ?dest = "dest1\<lparr>seg_main := m, seg_broad := b, seg_hot := h\<rparr>"
  have run: "remap_source rb src dest = Some ?dest" using loop lanes st by (simp add: remap_source_def)
  have same: "segment_len ?dest = segment_len dest1" "is_leader ?dest = is_leader dest1" "members_of ?dest = members_of dest1"
    "locals_for_logical ?dest = locals_for_logical dest1" "live_rows ?dest = live_rows dest1"
    by (simp_all add: segment_len_def is_leader_def [abs_def] members_of_def [abs_def] locals_for_logical_def [abs_def] live_rows_def)
  have parts: "seg_columns dest1" "seg_groups dest1" "seg_counts dest1" using st by blast+
  have "seg_columns ?dest" using parts(1) unfolding seg_columns_def same by simp
  moreover have "seg_groups ?dest" using parts(2) unfolding seg_groups_def same by simp
  moreover have "seg_counts ?dest" using parts(3) unfolding seg_counts_def same by simp
  moreover have "seg_seals ?dest" "unsealed ?dest" using st by (simp_all add: seg_seals_def unsealed_def)
  moreover have "seg_lanes rb d ?dest"
  proof (rule remapped_lanes [OF assms(1,2) dest(1) len(1) dest(2,3) ok refl small(1)])
    show "is_leader ?dest l" if "unat l < length ?T" for l
      using no_groups_leader [of dest1 l] st that len(2) same by (simp add: has_dup_groups_def)
  qed (use same st len moved in simp_all)
  ultimately show ?thesis using run same st by (simp add: plain_merging_def seg_inv_def)
qed

lemma plain_merging_merging:
  "plain_merging rb d rcs dest \<Longrightarrow> merging rb d (\<lambda>c c'. is_opt_in c' = is_opt_in c) rcs dest"
  by (auto simp: plain_merging_def merging_def intro: list_all2_refl)

lemma compact_plain_inv:
  assumes "roaring_ok rb" "\<And>src. src \<in> set sources \<Longrightarrow> seg_inv rb d src" "\<not> list_ex has_dup_groups sources"
    and "rows_room (map fst (concat (map live_rows sources)))"
  shows "\<exists>dest. do { dest \<leftarrow> fold_opt (remap_source rb) sources segment_new; finish_merge sources dest } = Some dest \<and>
    seg_inv rb d dest \<and>
    list_all2 (\<lambda>(r, c) (r', c'). r' = r \<and> is_opt_in c' = is_opt_in c) (concat (map live_rows sources)) (live_rows dest)"
proof -
  let ?T = "concat (map live_rows sources)"
  have "\<exists>dest. fold_opt (remap_source rb) sources segment_new = Some dest \<and> plain_merging rb d ?T dest"
  proof (rule fold_opt_live [where rcs = "[]"])
    fix src rcs dest rest
    assume src: "src \<in> set sources" and st: "plain_merging rb d rcs dest" and T: "?T = rcs @ live_rows src @ rest"
    have "\<not> has_dup_groups src" using assms(3) src by (auto simp: list_ex_iff)
    then show "\<exists>s'. remap_source rb src dest = Some s' \<and> plain_merging rb d (rcs @ live_rows src) s'"
      using remap_source_step [OF assms(2) [OF src] _ st] assms(4) unfolding T by blast
  next
    show "plain_merging rb d [] segment_new"
      using merging_new [OF assms(1), of d "(=)"]
      by (simp add: plain_merging_def merging_def) (simp add: segment_new_def)
  qed simp
  then show ?thesis using finish_merge_inv plain_merging_merging by fastforce
qed

lemma compact_from_inv:
  assumes "roaring_ok rb" "\<And>src. src \<in> set sources \<Longrightarrow> seg_inv rb d src"
    and "rows_room (map fst (concat (map live_rows sources)))"
  shows "\<exists>dest. compact_from rb sources = Some dest \<and> seg_inv rb d dest \<and>
    list_all2 (\<lambda>(r, c) (r', c'). r' = r \<and> is_opt_in c' = is_opt_in c) (concat (map live_rows sources)) (live_rows dest)"
  using compact_grouped_inv [OF assms] compact_plain_inv [OF assms(1,2) _ assms(3)]
  unfolding compact_from_def by presburger

end
