(* ===== verification/Segment_Reanchor_Correct.thy ===== *)
theory Segment_Reanchor_Correct
  imports Segment_Merge_Correct
begin

text \<open>
  The re-anchoring merge is lossless: a plan made from the stored columns under the
  current dictionary covers the row it was read from, no row moves from an
  always-probed lane to the opt-in lane, and the rows themselves are unchanged.
\<close>

section \<open>Planning a stored row again\<close>

text \<open>
  A row can be planned under a dictionary when every mask bit of it still names a
  feature there, and the recovered features repeat none of the tail.
\<close>

definition row_anchored :: "dict \<Rightarrow> stored_row \<Rightarrow> bool" where
  "row_anchored d r \<longleftrightarrow> distinct (row_req r) \<and>
     (\<forall>b. bit (row_rmask r) b \<longrightarrow> (\<exists>f. mask_bit d f = b \<and> f \<notin> set (row_req r)))"

lemma row_anchored_extends:
  assumes "row_anchored d r" "mask_extends d d'" shows "row_anchored d' r"
proof -
  have "\<exists>f. mask_bit d' f = b \<and> f \<notin> set (row_req r)" if b: "bit (row_rmask r) b" for b
  proof -
    obtain f where "mask_bit d f = b" "f \<notin> set (row_req r)" using assms(1) b by (auto simp: row_anchored_def)
    moreover have "b \<noteq> NO_MASK_BIT" using bit_u64_bound [OF b] by (simp add: NO_MASK_BIT_def)
    ultimately show ?thesis using assms(2) unfolding mask_extends_def by blast
  qed
  then show ?thesis using assms(1) by (simp add: row_anchored_def)
qed

lemma row_anchored_compiled:
  assumes "dict_inv d" "mask_extends d0 d" "distinct (required ex)"
  shows "row_anchored d (row_of ex tags d0 ver logical prio pl gen)"
proof -
  have "\<exists>f. mask_bit d f = b \<and> f \<notin> set (tail_of d0 (required ex))" if "bit (mask_of d0 (required ex)) b" for b
    using that assms(2) unfolding mask_of_extends [OF assms(1,2)] mask_extends_def tail_of_def by auto
  then show ?thesis using assms(3) by (simp add: row_anchored_def row_of_def tail_of_def)
qed

lemma unmask_distinct:
  assumes "length tbl = 64" "\<And>a b f. tbl ! a = Some f \<Longrightarrow> tbl ! b = Some f \<Longrightarrow> a < 64 \<Longrightarrow> b < 64 \<Longrightarrow> a = b"
    and "unmask tbl bits = Some fs"
  shows "distinct fs"
  using assms
proof (induction tbl bits arbitrary: fs rule: unmask.induct)
  case (1 tbl bits)
  show ?case
  proof (cases "bits = 0")
    case True
    then show ?thesis using 1(4) by (simp add: unmask.simps)
  next
    case False
    let ?k = "trailing_zeros bits"
    have k: "?k < 64" using bit_u64_bound trailing_zeros_bit [OF False] by blast
    then have at: "at_index tbl ?k = Some (tbl ! ?k)" using 1(2) by (simp add: at_index_def)
    obtain gs where gs: "unmask tbl (bits AND (bits - 1)) = Some gs"
      "set gs = {f. \<exists>b. bit (bits AND (bits - 1)) b \<and> tbl ! b = Some f}"
      using unmask_set [OF 1(2)] by blast
    have fs: "fs = (case tbl ! ?k of Some f \<Rightarrow> f # gs | None \<Rightarrow> gs)"
      using 1(4) False at gs(1) by (simp add: unmask.simps [of tbl bits])
    have "distinct gs" using 1(1) [OF False at 1(2) _ gs(1)] 1(3) by blast
    moreover have "f \<notin> set gs" if "tbl ! ?k = Some f" for f
      using 1(3) [OF that _ k] bit_u64_bound unfolding gs(2) bit_clear_lowest [OF False] by blast
    ultimately show ?thesis by (simp add: fs split: option.split)
  qed
qed

lemma mask_inverse_length [simp]: "length (mask_inverse d) = 64"
  by (simp add: mask_inverse_def)

lemma replan_inputs:
  assumes "dict_inv d0" "row_anchored d0 r"
  shows "\<exists>fs. unmask (mask_inverse d0) (row_rmask r) = Some fs \<and> distinct (fs @ row_req r) \<and>
    (\<forall>f \<in> set fs. bit (row_rmask r) (mask_bit d0 f) \<and> mask_bit d0 f < 64)"
proof -
  note inverse = mask_inverse_nth [OF assms(1)]
  obtain fs where fs: "unmask (mask_inverse d0) (row_rmask r) = Some fs"
    "set fs = {f. \<exists>b. bit (row_rmask r) b \<and> mask_inverse d0 ! b = Some f}"
    using unmask_set [OF mask_inverse_length] by blast
  have named: "bit (row_rmask r) (mask_bit d0 f) \<and> mask_bit d0 f < 64" if "f \<in> set fs" for f
  proof -
    obtain b where "bit (row_rmask r) b" "mask_inverse d0 ! b = Some f" using \<open>f \<in> set fs\<close> fs(2) by auto
    then show ?thesis using inverse [of b f] bit_u64_bound by auto
  qed
  have "f \<notin> set (row_req r)" if f: "f \<in> set fs" for f
  proof -
    obtain g where g: "mask_bit d0 g = mask_bit d0 f" "g \<notin> set (row_req r)"
      using named [OF f] assms(2) unfolding row_anchored_def by blast
    have "mask_inverse d0 ! mask_bit d0 f = Some f" "mask_inverse d0 ! mask_bit d0 f = Some g"
      using inverse named [OF f] g(1) by simp_all
    then show ?thesis using g(2) by simp
  qed
  moreover have "distinct fs" by (rule unmask_distinct [OF _ _ fs(1)]) (simp_all add: inverse)
  ultimately show ?thesis using fs(1) named assms(2) by (auto simp: row_anchored_def)
qed

text \<open>Any plan for features the row insists on reaches every title the row matches.\<close>

lemma anchor_plan_row_cover:
  assumes "mask_extends d0 d" "distinct (required ex)"
    and "\<And>view. title_ok d view \<Longrightarrow> row_probed view r \<Longrightarrow> row_matches r view \<Longrightarrow>
      positive_sat ex (set (probe_labels view)) (set (view_pos view))"
    and plan: "plan = anchor_plan ex d0 theta"
  shows "row_cover d (plan_class plan) (sig_key ` set (main_anchors plan)) (sig_key ` set (broad_anchors plan))
      (sig_key ` set (hot_anchors plan)) r"
  unfolding row_cover_def
proof (intro allI impI, elim conjE)
  fix view :: title_view
  let ?pr = "set (probe_labels view)" and ?P = "set (view_pos view)"
  assume ok: "title_ok d view" "row_probed view r" "row_matches r view"
  have "?P \<subseteq> ?pr" using ok(1) by (simp add: title_ok_def)
  then have cov: "covered d0 ?pr ?P plan" unfolding plan using anchor_plan_covered [OF assms(3) [OF ok] _ assms(2)] by blast
  have sub: "main_probes d0 ?pr ?P \<subseteq> main_probes d ?pr ?P" by (rule main_probes_extends [OF assms(1)])
  show "case plan_class plan of
      ClassA \<Rightarrow> sig_key ` set (main_anchors plan) \<inter> main_keys d view \<noteq> {}
    | ClassB \<Rightarrow> sig_key ` set (main_anchors plan) \<inter> main_keys d view \<noteq> {}
    | ClassH \<Rightarrow> sig_key ` set (hot_anchors plan) \<inter> hot_keys view \<noteq> {}
    | _ \<Rightarrow> sig_key ` set (broad_anchors plan) \<inter> broad_keys view \<noteq> {}"
    using cov sub unfolding covered_def main_keys_def hot_keys_def broad_keys_def
    by (cases "plan_class plan") auto
qed

lemma anchor_plan_keys_in_lane:
  "plan = anchor_plan ex d0 theta \<Longrightarrow> keys_in_lane (plan_class plan) (sig_key ` set (main_anchors plan))
    (sig_key ` set (broad_anchors plan)) (sig_key ` set (hot_anchors plan))"
  using anchor_plan_lane [of ex d0 theta] by (cases "plan_class plan") (auto simp: keys_in_lane_def one_lane_def)

lemma replanned_positive:
  assumes "mask_extends d0 d" "title_ok d view" "row_matches r view"
    and "\<forall>f \<in> set fs. bit (row_rmask r) (mask_bit d0 f) \<and> mask_bit d0 f < 64"
  shows "positive_sat (empty_extracted\<lparr>required := fs @ row_req r, anyof := row_groups r\<rparr>) pr (set (view_pos view))"
proof -
  have flat: "row_flat r view" using assms(3) by (simp add: row_matches_def)
  have ok: "dict_inv d" "sorted (view_pos view)" "pos_mask view = title_mask d (view_pos view)"
    using assms(2) by (simp_all add: title_ok_def)
  have "f \<in> set (view_pos view)" if f: "f \<in> set fs" for f
  proof -
    have "bit (row_rmask r) (mask_bit d0 f)" "mask_bit d0 f \<noteq> NO_MASK_BIT"
      using assms(4) f by (auto simp: NO_MASK_BIT_def)
    then show ?thesis
      using mask_bit_title [OF ok(1) assms(1)] flat ok(3) by (auto simp: row_flat_def mask_subset_iff)
  qed
  then show ?thesis
    using flat ok(2) by (auto simp: positive_sat_def row_flat_def list_all_iff list_ex_iff search_ok_iff empty_extracted_def)
qed

section \<open>One entry of the merge\<close>

text \<open>A visible row stays visible.\<close>

abbreviation keeps_visible :: "cost_class \<Rightarrow> cost_class \<Rightarrow> bool" where
  "keeps_visible c c' \<equiv> (is_opt_in c' \<longrightarrow> is_opt_in c)"

definition reanchoring ::
  "'bm roaring \<Rightarrow> dict \<Rightarrow> (stored_row \<times> cost_class) list \<Rightarrow> 'bm reanchor_state \<Rightarrow> bool" where
  "reanchoring rb d rcs s \<longleftrightarrow> merging rb d keeps_visible rcs (ra_dest s) \<and> length (ra_replanned s) = length rcs"

lemma opt_in_after_keeps: "keeps_visible c c' \<and> (opt_in_after_reanchor c x \<longrightarrow> is_opt_in c)" if "keeps_visible c c'"
  using that by (auto simp: opt_in_after_reanchor_def refuses_visibility_move_def split: option.splits if_splits)

lemma replan_row_step:
  fixes dest :: "'bm segment"
  assumes "seg_inv rb d dest" "unsealed dest" "row_admissible r dest"
    and "dict_inv d0" "mask_extends d0 d" "row_anchored d0 r"
    and "row_cover d c (set m) (set b) (set h) r" "keys_in_lane c (set m) (set b) (set h)"
  shows "\<exists>s' c'. replan_row rb d0 theta max_moves hash (of_nat (segment_len dest)) (row_logical r) c (m, b, h)
      (dest\<lparr>seg_exact := append_row r (seg_exact dest)\<rparr>) s = Some s' \<and>
    row_added rb d dest r c' (ra_dest s') \<and> keeps_visible c c' \<and>
    length (ra_replanned s') = Suc (length (ra_replanned s))"
proof -
  let ?row = "of_nat (segment_len dest) :: u32" and ?st = "append_row r (seg_exact dest)"
  let ?dest = "dest\<lparr>seg_exact := ?st\<rparr>"
  obtain fs where fs: "unmask (mask_inverse d0) (row_rmask r) = Some fs" "distinct (fs @ row_req r)"
    "\<forall>f \<in> set fs. bit (row_rmask r) (mask_bit d0 f) \<and> mask_bit d0 f < 64"
    using replan_inputs [OF assms(4,6)] by blast
  have inputs: "anchoring_inputs ?st ?row (mask_inverse d0) = Some (fs @ row_req r, row_groups r)"
    using read_rowD [OF new_row_read [OF _ assms(3)]] assms(1) fs(1) by (simp add: anchoring_inputs_def seg_inv_def)
  let ?ex = "empty_extracted\<lparr>required := fs @ row_req r, anyof := row_groups r\<rparr>"
  define plan where "plan = anchor_plan ?ex d0 theta"
  define keep where "keep = keeps_old_cover d0 theta max_moves (ra_moves s) c plan"
  define keys where "keys = (if keep then (m, b, h)
    else (map sig_key (main_anchors plan), map sig_key (broad_anchors plan), map sig_key (hot_anchors plan)))"
  define cls where "cls = (if keep then c else plan_class plan)"
  obtain mk bk hk where ks: "keys = (mk, bk, hk)" by (cases keys)
  have "row_cover d (plan_class plan) (sig_key ` set (main_anchors plan)) (sig_key ` set (broad_anchors plan))
      (sig_key ` set (hot_anchors plan)) r"
    using fs(2) replanned_positive [OF assms(5) _ _ fs(3)] by (intro anchor_plan_row_cover [OF assms(5) _ _ plan_def]) simp_all
  then have cover: "row_cover d cls (set mk) (set bk) (set hk) r" "keys_in_lane cls (set mk) (set bk) (set hk)"
    using assms(7,8) anchor_plan_keys_in_lane [OF plan_def] ks by (auto simp: keys_def cls_def split: if_splits)
  obtain dest' where enter: "enter_row ?row (row_logical r) (lead_group rb (Some hash) ?row cls mk bk hk ?dest) = Some dest'"
    and added: "row_added rb d dest r cls dest'"
    using lead_enter [OF assms(1-3) cover, of "Some hash"] by blast
  have "keeps_visible c cls"
    by (auto simp: cls_def keep_def keeps_old_cover_def Let_def refuses_visibility_move_def)
  moreover have "\<exists>s'. replan_row rb d0 theta max_moves hash ?row (row_logical r) c (m, b, h) ?dest s = Some s' \<and>
      ra_dest s' = dest' \<and> length (ra_replanned s') = Suc (length (ra_replanned s))"
    using enter inputs ks
    by (cases keep) (auto simp: replan_row_def plan_def [symmetric] keep_def [symmetric] keys_def cls_def Let_def split: prod.split)
  ultimately show ?thesis using added by blast
qed

lemma reanchor_entry_step:
  assumes "seg_inv rb d src" "invert_lanes rb src = Some keys" "old < segment_len src"
    and "dict_inv d0" "mask_extends d0 d" "row_anchored d0 (seg_row src old)"
    and "reanchoring rb d rcs s" "rows_room (map fst rcs @ seg_row src old # rest)"
  shows "\<exists>s'. reanchor_entry rb d0 theta max_moves src keys old s = Some s' \<and>
    reanchoring rb d (rcs @ [(seg_row src old, seg_class src ! old)]) s'"
proof -
  let ?dst = "ra_dest s"
  let ?r = "seg_row src old" and ?c = "seg_class src ! old" and ?row = "of_nat (segment_len ?dst) :: u32"
  let ?dest = "?dst\<lparr>seg_exact := append_row ?r (seg_exact ?dst)\<rparr>"
  let ?wanted = "\<lambda>l. map_option (opt_in_after_reanchor ?c) (at_index (ra_replanned s) (unat l))"
  have st: "merging rb d keeps_visible rcs ?dst" "length (ra_replanned s) = segment_len ?dst"
    using assms(7) merging_len [of rb d keeps_visible rcs ?dst] by (simp_all add: reanchoring_def)
  have inv: "seg_inv rb d ?dst" "unsealed ?dst" "seg_columns ?dst" using st(1) by (simp_all add: merging_def seg_inv_def)
  have total: "?wanted l \<noteq> None" if "is_leader ?dst l" for l using that st(2) by (simp add: is_leader_def at_index_def)
  note entry = merge_entry [where wanted = ?wanted, OF assms(1-3) st(1) assms(8) total refl refl refl]
  obtain hash where hash: "body_signature (append_row ?r (seg_exact ?dst)) ?row = Some hash" using entry(5) by blast
  obtain found where found: "leader_for ?wanted hash ?row ?dest = Some found"
    "\<And>l. found = Some l \<Longrightarrow> is_leader ?dst l \<and> ?wanted l = Some (is_opt_in (seg_class ?dst ! unat l)) \<and> same_answers ?r (seg_row ?dst (unat l))"
    using entry(6) [of hash] by blast
  obtain m b h where prev: "previous_keys keys src old = Some (m, b, h)" "row_cover d ?c (set m) (set b) (set h) ?r"
    "keys_in_lane ?c (set m) (set b) (set h)"
    using previous_keys_cover [OF assms(1-3)] by blast
  note run = reanchor_entry_def entry(2-4) hash found(1) prev(1) and adm = entry(1)
  have snoc: "\<exists>s'. reanchor_entry rb d0 theta max_moves src keys old s = Some s' \<and> reanchoring rb d (rcs @ [(?r, ?c)]) s'"
    if "reanchor_entry rb d0 theta max_moves src keys old s = Some s'" "row_added rb d ?dst ?r c' (ra_dest s')"
      "keeps_visible ?c c'" "length (ra_replanned s') = Suc (length (ra_replanned s))" for s' c'
    using that merging_snoc [OF st(1) that(2), of ?c] assms(7) by (simp add: reanchoring_def)
  show ?thesis
  proof (cases found)
    case (Some l)
    then obtain dest1 dest' where join: "join_group l ?row ?dest = Some dest1" "enter_row ?row (row_logical ?r) dest1 = Some dest'"
      "row_added rb d ?dst ?r (seg_class ?dst ! unat l) dest'"
      using join_enter [OF inv(1,2) adm, of l] found(2) [of l] by auto
    have l: "at_index (seg_class ?dst) (unat l) = Some (seg_class ?dst ! unat l)"
      using found(2) [OF Some] inv(3) by (simp add: is_leader_def seg_columns_def at_index_def)
    have "keeps_visible ?c (seg_class ?dst ! unat l)" using found(2) [OF Some] opt_in_after_keeps [of ?c ?c] by auto
    moreover have "reanchor_entry rb d0 theta max_moves src keys old s = Some (s\<lparr>ra_dest := dest',
        ra_stats := count_adoption ?c (seg_class ?dst ! unat l) (ra_stats s), ra_replanned := ra_replanned s @ [None]\<rparr>)"
      using join l Some by (simp add: run)
    ultimately show ?thesis using snoc join(3) by simp
  next
    case None
    show ?thesis
    proof (cases "predicate_has_phrases (row_program ?r)")
      case True
      obtain dest' where lead: "enter_row ?row (row_logical ?r) (lead_group rb (Some hash) ?row ?c m b h ?dest) = Some dest'"
        "row_added rb d ?dst ?r ?c dest'"
        using lead_enter [OF inv(1,2) adm prev(2,3), of "Some hash"] by blast
      then have "reanchor_entry rb d0 theta max_moves src keys old s =
          Some (s\<lparr>ra_dest := dest', ra_replanned := ra_replanned s @ [None]\<rparr>)"
        using True None by (simp add: run)
      then show ?thesis using snoc lead(2) by simp
    next
      case False
      then show ?thesis
        using replan_row_step [OF inv(1,2) adm assms(4-6) prev(2,3), of theta max_moves hash s] None snoc by (auto simp: run)
    qed
  qed
qed

section \<open>The whole merge\<close>

lemma compact_reanchored_inv:
  assumes "roaring_ok rb" "\<And>src. src \<in> set sources \<Longrightarrow> seg_inv rb d src"
    and "rows_room (map fst (concat (map live_rows sources)))"
    and "dict_inv d0" "mask_extends d0 d" "\<forall>(r, c) \<in> set (concat (map live_rows sources)). row_anchored d0 r"
  shows "\<exists>dest stats. compact_from_reanchored rb sources d0 theta max_moves = Some (dest, stats) \<and> seg_inv rb d dest \<and>
    list_all2 (\<lambda>(r, c) (r', c'). r' = r \<and> keeps_visible c c') (concat (map live_rows sources)) (live_rows dest)"
proof -
  let ?T = "concat (map live_rows sources)"
  let ?s = "\<lparr>ra_dest = segment_new, ra_stats = \<lparr>reanchored = 0, hot_promoted = 0, hot_demoted = 0\<rparr>, ra_moves = 0, ra_replanned = []\<rparr>"
  have "\<exists>s. fold_opt (\<lambda>src s. do { keys \<leftarrow> invert_lanes rb src;
      each_alive (reanchor_entry rb d0 theta max_moves src keys) 0 (seg_alive src) s }) sources ?s = Some s \<and> reanchoring rb d ?T s"
  proof (rule fold_entries [OF assms(2), where I = "reanchoring rb d"])
    fix src keys old rcs rest and s :: "'a reanchor_state"
    assume "src \<in> set sources" "invert_lanes rb src = Some keys" "old < segment_len src" "reanchoring rb d rcs s"
      and T: "?T = rcs @ (seg_row src old, seg_class src ! old) # rest"
    moreover have "row_anchored d0 (seg_row src old)" using assms(6) unfolding T by simp
    ultimately show "\<exists>s'. reanchor_entry rb d0 theta max_moves src keys old s = Some s' \<and>
        reanchoring rb d (rcs @ [(seg_row src old, seg_class src ! old)]) s'"
      using assms(3-5) by (intro reanchor_entry_step [OF assms(2), of _ _ _ _ _ _ "map fst rest"]) simp_all
  qed (simp_all add: reanchoring_def merging_new [OF assms(1)])
  then obtain s where s: "fold_opt (\<lambda>src s. do { keys \<leftarrow> invert_lanes rb src;
      each_alive (reanchor_entry rb d0 theta max_moves src keys) 0 (seg_alive src) s }) sources ?s = Some s"
    "merging rb d keeps_visible ?T (ra_dest s)"
    by (auto simp: reanchoring_def)
  then show ?thesis using finish_merge_inv [OF s(2), of sources] by (auto simp: compact_from_reanchored_def)
qed

end
