(* ===== verification/Match_Collect.thy ===== *)
theory Match_Collect
  imports Prelude
begin

text \<open>
  What one matching pass writes to: the statistics and the deadline sampler of
  \<open>segment/match_types.rs\<close> and the collectors of \<open>collect.rs\<close>. A collector is a
  record of its callbacks over a state; the clock is the sequence of answers that
  successive reads give.
\<close>

section \<open>Statistics\<close>

record match_stats =
  unique_candidates :: u32
  postings_scanned :: u32
  broad_postings_scanned :: u32
  main_candidates :: u32
  broad_candidates :: u32
  stat_matches :: u32
  logical_emissions :: u64
  duplicate_emissions :: u64
  probes_attempted :: u32
  probes_skipped :: u32
  tag_segments_skipped :: u32
  broad_queries_evaluated :: u32
  broad_anchors_scanned :: u32
  broad_batches :: u32
  broad_prefilter_skipped :: u32
  hot_postings_scanned :: u32
  hot_candidates :: u32
  hot_queries_evaluated :: u32
  hot_anchors_scanned :: u32
  hot_batches :: u32
  hot_prefilter_skipped :: u32

definition stats_default :: match_stats where
  "stats_default = \<lparr>unique_candidates = 0, postings_scanned = 0, broad_postings_scanned = 0, main_candidates = 0,
     broad_candidates = 0, stat_matches = 0, logical_emissions = 0, duplicate_emissions = 0, probes_attempted = 0,
     probes_skipped = 0, tag_segments_skipped = 0, broad_queries_evaluated = 0, broad_anchors_scanned = 0,
     broad_batches = 0, broad_prefilter_skipped = 0, hot_postings_scanned = 0, hot_candidates = 0,
     hot_queries_evaluated = 0, hot_anchors_scanned = 0, hot_batches = 0, hot_prefilter_skipped = 0\<rparr>"

definition stats_merge :: "match_stats \<Rightarrow> match_stats \<Rightarrow> match_stats" where
  "stats_merge s other =
     \<lparr>unique_candidates = unique_candidates s + unique_candidates other,
      postings_scanned = postings_scanned s + postings_scanned other,
      broad_postings_scanned = broad_postings_scanned s + broad_postings_scanned other,
      main_candidates = main_candidates s + main_candidates other,
      broad_candidates = broad_candidates s + broad_candidates other,
      stat_matches = stat_matches s + stat_matches other,
      logical_emissions = logical_emissions s + logical_emissions other,
      duplicate_emissions = duplicate_emissions s + duplicate_emissions other,
      probes_attempted = probes_attempted s + probes_attempted other,
      probes_skipped = probes_skipped s + probes_skipped other,
      tag_segments_skipped = tag_segments_skipped s + tag_segments_skipped other,
      broad_queries_evaluated = broad_queries_evaluated s + broad_queries_evaluated other,
      broad_anchors_scanned = broad_anchors_scanned s + broad_anchors_scanned other,
      broad_batches = broad_batches s + broad_batches other,
      broad_prefilter_skipped = broad_prefilter_skipped s + broad_prefilter_skipped other,
      hot_postings_scanned = hot_postings_scanned s + hot_postings_scanned other,
      hot_candidates = hot_candidates s + hot_candidates other,
      hot_queries_evaluated = hot_queries_evaluated s + hot_queries_evaluated other,
      hot_anchors_scanned = hot_anchors_scanned s + hot_anchors_scanned other,
      hot_batches = hot_batches s + hot_batches other,
      hot_prefilter_skipped = hot_prefilter_skipped s + hot_prefilter_skipped other\<rparr>"

definition u64_of_len :: "nat \<Rightarrow> u64" where
  "u64_of_len n = (if n < 2 ^ 64 then of_nat n else - 1)"

definition record_cross_source_duplicates :: "nat \<Rightarrow> nat \<Rightarrow> match_stats \<Rightarrow> match_stats" where
  "record_cross_source_duplicates emissions unique s =
     s\<lparr>duplicate_emissions := saturating_add (duplicate_emissions s) (u64_of_len (emissions - unique))\<rparr>"

section \<open>The deadline sampler\<close>

text \<open>\<open>expired n\<close> is what the \<open>n\<close>-th read of the clock answers; an unarmed deadline never reads it.\<close>

record deadline_poll =
  armed :: bool
  expired :: "nat \<Rightarrow> bool"
  remaining :: u16
  clock_reads :: nat

definition DEADLINE_WORK_INTERVAL :: u16 where
  "DEADLINE_WORK_INTERVAL = 256"

definition poll_new :: "bool \<Rightarrow> (nat \<Rightarrow> bool) \<Rightarrow> deadline_poll" where
  "poll_new is_armed clock =
     \<lparr>armed = is_armed, expired = clock, remaining = DEADLINE_WORK_INTERVAL, clock_reads = 0\<rparr>"

definition no_deadline :: deadline_poll where
  "no_deadline = poll_new False (\<lambda>_. False)"

text \<open>The result is true when the deadline has passed (\<open>Err(MatchCancelled)\<close>).\<close>

definition read_clock :: "deadline_poll \<Rightarrow> bool \<times> deadline_poll" where
  "read_clock p = (expired p (clock_reads p), p\<lparr>clock_reads := Suc (clock_reads p)\<rparr>)"

definition check_now :: "deadline_poll \<Rightarrow> bool \<times> deadline_poll" where
  "check_now p = (if armed p then read_clock (p\<lparr>remaining := DEADLINE_WORK_INTERVAL\<rparr>) else (False, p))"

definition check_work :: "deadline_poll \<Rightarrow> bool \<times> deadline_poll" where
  "check_work p =
     (if armed p
      then let left = remaining p - 1 in
           if left = 0 then read_clock (p\<lparr>remaining := DEADLINE_WORK_INTERVAL\<rparr>)
           else (False, p\<lparr>remaining := left\<rparr>)
      else (False, p))"

section \<open>Collectors\<close>

text \<open>
  \<open>sink_deliver\<close> is \<open>on_match_at_with_poll\<close> with the sampler it is lent: its first
  component is true when the lent sampler reported cancellation.
\<close>

record 'c match_sink =
  sink_observes :: bool
  sink_candidate :: "u64 \<Rightarrow> 'c \<Rightarrow> 'c"
  sink_deliver :: "u64 \<Rightarrow> u32 \<Rightarrow> deadline_poll \<Rightarrow> 'c \<Rightarrow> bool \<times> deadline_poll \<times> 'c"
  sink_stop :: "'c \<Rightarrow> bool"

text \<open>The trait's default methods around a collector's \<open>on_match\<close>.\<close>

definition default_sink :: "(u64 \<Rightarrow> 'c \<Rightarrow> 'c) \<Rightarrow> 'c match_sink" where
  "default_sink on_match =
     \<lparr>sink_observes = False, sink_candidate = (\<lambda>_ c. c),
      sink_deliver = (\<lambda>logical local_id p c. (False, p, on_match logical c)), sink_stop = (\<lambda>_. False)\<rparr>"

datatype total_hits_relation = HitsEq | HitsGte

record total_hits =
  hits_value :: u64
  hits_relation :: total_hits_relation

definition hits_exact :: "u64 \<Rightarrow> total_hits" where
  "hits_exact v = \<lparr>hits_value = v, hits_relation = HitsEq\<rparr>"

definition hits_lower_bound :: "u64 \<Rightarrow> total_hits" where
  "hits_lower_bound v = \<lparr>hits_value = v, hits_relation = HitsGte\<rparr>"

record collection_summary =
  retained :: nat
  summary_total :: total_hits
  summary_emissions :: u64
  summary_duplicates :: "u64 option"

text \<open>The diagnostic collector that stops at one target id.\<close>

record candidate_hit =
  hit_target :: u64
  hit_found :: bool

definition candidate_hit_sink :: "candidate_hit match_sink" where
  "candidate_hit_sink =
     \<lparr>sink_observes = True,
      sink_candidate = (\<lambda>logical c. c\<lparr>hit_found := (hit_found c \<or> logical = hit_target c)\<rparr>),
      sink_deliver = (\<lambda>logical local_id p c. (False, p, c)), sink_stop = hit_found\<rparr>"

definition candidate_hit_reset :: "candidate_hit \<Rightarrow> candidate_hit" where
  "candidate_hit_reset c = c\<lparr>hit_found := False\<rparr>"

definition candidate_hit_finish :: "candidate_hit \<Rightarrow> collection_summary" where
  "candidate_hit_finish c =
     (let n = (if hit_found c then 1 else 0) in
      \<lparr>retained = n, summary_total = hits_exact (of_nat n), summary_emissions = 0, summary_duplicates = Some 0\<rparr>)"

text \<open>The collector of all ids: \<open>AllCollector\<close> and \<open>VecSink\<close> push alike.\<close>

record all_collector =
  all_out :: "u64 list"
  all_emissions :: u64

definition all_on_match :: "u64 \<Rightarrow> all_collector \<Rightarrow> all_collector" where
  "all_on_match logical c =
     c\<lparr>all_out := all_out c @ [logical], all_emissions := saturating_add (all_emissions c) 1\<rparr>"

definition vec_sink :: "all_collector match_sink" where
  "vec_sink = default_sink all_on_match"

definition all_reset :: "all_collector \<Rightarrow> all_collector" where
  "all_reset c = c\<lparr>all_out := [], all_emissions := 0\<rparr>"

definition all_finish :: "all_collector \<Rightarrow> collection_summary \<times> all_collector" where
  "all_finish c =
     (let out = sort_dedup (all_out c); unique = u64_of_len (length out) in
      (\<lparr>retained = length out, summary_total = hits_exact unique, summary_emissions = all_emissions c,
        summary_duplicates = Some (saturating_sub (all_emissions c) unique)\<rparr>, c\<lparr>all_out := out\<rparr>))"

text \<open>One output vector per title of a batch.\<close>

type_synonym all_batch = "u64 list list \<times> u64 list"

definition all_batch_on_match :: "nat \<Rightarrow> u64 \<Rightarrow> all_batch \<Rightarrow> all_batch option" where
  "all_batch_on_match title_index logical b =
     do {
       out \<leftarrow> at_index (fst b) title_index;
       count \<leftarrow> at_index (snd b) title_index;
       Some ((fst b)[title_index := out @ [logical]], (snd b)[title_index := saturating_add count 1])
     }"

definition all_batch_finish :: "all_batch \<Rightarrow> collection_summary \<times> all_batch" where
  "all_batch_finish b =
     (let n = min (length (fst b)) (length (snd b)); outs = map sort_dedup (take n (fst b));
          unique = fold (\<lambda>out u. saturating_add u (u64_of_len (length out))) outs 0;
          emitted = fold (\<lambda>count e. saturating_add e count) (take n (snd b)) 0
      in (\<lparr>retained = unat unique, summary_total = hits_exact unique, summary_emissions = emitted,
           summary_duplicates = Some (saturating_sub emitted unique)\<rparr>, (outs @ drop n (fst b), snd b)))"

definition all_batch_abort :: "all_batch \<Rightarrow> all_batch" where
  "all_batch_abort b = (map (\<lambda>_. []) (fst b), map (\<lambda>_. 0) (snd b))"

text \<open>The count-only collector, whose set of ids never exceeds the threshold by more than one.\<close>

record total_tracker =
  tracker_threshold :: nat
  tracker_seen :: "u64 set"
  tracker_exceeded :: bool

definition tracker_new :: "nat \<Rightarrow> total_tracker" where
  "tracker_new threshold = \<lparr>tracker_threshold = threshold, tracker_seen = {}, tracker_exceeded = False\<rparr>"

definition tracker_reset :: "total_tracker \<Rightarrow> total_tracker" where
  "tracker_reset t = t\<lparr>tracker_seen := {}, tracker_exceeded := False\<rparr>"

definition tracker_observe :: "u64 \<Rightarrow> total_tracker \<Rightarrow> total_tracker" where
  "tracker_observe logical t =
     (if tracker_exceeded t \<or> logical \<in> tracker_seen t then t
      else let t' = t\<lparr>tracker_seen := insert logical (tracker_seen t)\<rparr> in
           if card (tracker_seen t') > tracker_threshold t' then t'\<lparr>tracker_exceeded := True\<rparr> else t')"

definition tracker_total_hits :: "total_tracker \<Rightarrow> total_hits" where
  "tracker_total_hits t =
     (if tracker_exceeded t then hits_lower_bound (u64_of_len (tracker_threshold t))
      else hits_exact (u64_of_len (card (tracker_seen t))))"

record count_collector =
  count_totals :: total_tracker
  count_emissions :: u64

definition count_new :: "nat \<Rightarrow> count_collector" where
  "count_new threshold = \<lparr>count_totals = tracker_new threshold, count_emissions = 0\<rparr>"

definition count_on_match :: "u64 \<Rightarrow> count_collector \<Rightarrow> count_collector" where
  "count_on_match logical c =
     c\<lparr>count_emissions := saturating_add (count_emissions c) 1, count_totals := tracker_observe logical (count_totals c)\<rparr>"

definition count_sink :: "count_collector match_sink" where
  "count_sink = default_sink count_on_match"

definition count_reset :: "count_collector \<Rightarrow> count_collector" where
  "count_reset c = c\<lparr>count_totals := tracker_reset (count_totals c), count_emissions := 0\<rparr>"

definition exact_duplicates :: "u64 \<Rightarrow> total_hits \<Rightarrow> u64 option" where
  "exact_duplicates emissions hits =
     (if hits_relation hits = HitsEq then Some (saturating_sub emissions (hits_value hits)) else None)"

definition count_finish :: "count_collector \<Rightarrow> collection_summary" where
  "count_finish c =
     (let hits = tracker_total_hits (count_totals c) in
      \<lparr>retained = 0, summary_total = hits, summary_emissions = count_emissions c,
       summary_duplicates = exact_duplicates (count_emissions c) hits\<rparr>)"

section \<open>The contract of an exhaustive collector\<close>

text \<open>
  A match path may hand any collector that never stops and never polls the ids in
  emission order: its final state is the fold of its \<open>on_match\<close>.
\<close>

locale exhaustive_sink =
  fixes sink :: "'c match_sink" and on_match :: "u64 \<Rightarrow> 'c \<Rightarrow> 'c"
  assumes never_stops: "\<not> sink_stop sink c"
    and never_observes: "\<not> sink_observes sink"
    and delivers: "sink_deliver sink logical local_id p c = (False, p, on_match logical c)"

lemma default_sink_exhaustive: "exhaustive_sink (default_sink on_match) on_match"
  by unfold_locales (simp_all add: default_sink_def)

interpretation vec: exhaustive_sink vec_sink all_on_match
  unfolding vec_sink_def by (rule default_sink_exhaustive)

interpretation counting: exhaustive_sink count_sink count_on_match
  unfolding count_sink_def by (rule default_sink_exhaustive)

section \<open>Properties\<close>

lemma of_nat_u16_eq: "a < 2 ^ 16 \<Longrightarrow> b < 2 ^ 16 \<Longrightarrow> (of_nat a :: u16) = of_nat b \<longleftrightarrow> a = b"
  by (simp add: word_unat_eq_iff unat_of_nat take_bit_nat_eq_self)

lemma poll_after:
  "((snd \<circ> check_work) ^^ k) (poll_new True clock) =
     \<lparr>armed = True, expired = clock, remaining = of_nat (256 - k mod 256), clock_reads = k div 256\<rparr>"
proof (induction k)
  case (Suc k)
  have less: "k mod 256 < 256" by simp
  show ?case
  proof (cases "k mod 256 = 255")
    case True
    then have "Suc k mod 256 = 0" "Suc k div 256 = Suc (k div 256)" by (simp_all add: mod_Suc div_Suc)
    then show ?thesis using Suc True by (simp add: check_work_def read_clock_def DEADLINE_WORK_INTERVAL_def)
  next
    case False
    then have next_unit: "Suc k mod 256 = Suc (k mod 256)" "Suc k div 256 = k div 256" "k mod 256 < 255" using less by (simp_all add: mod_Suc div_Suc)
    have "(of_nat (256 - k mod 256) :: u16) - 1 = of_nat (256 - Suc (k mod 256))"
      using next_unit(3) by (simp add: of_nat_diff)
    moreover have "(of_nat (256 - Suc (k mod 256)) :: u16) \<noteq> 0"
      using of_nat_u16_eq [of "256 - Suc (k mod 256)" 0] next_unit(3) by (simp del: of_nat_diff)
    ultimately show ?thesis using Suc next_unit by (simp add: check_work_def Let_def)
  qed
qed (simp add: poll_new_def DEADLINE_WORK_INTERVAL_def)

text \<open>
  C39: An armed deadline is observed within a bounded amount of work: the sampler
  reads the clock on exactly every 256th work unit and reports cancellation at
  once when that read says the deadline has passed, so a pass that keeps working
  is cancelled at most 256 units after the deadline; an unarmed sampler never
  reads the clock and never cancels.
\<close>
theorem check_work_samples:
  "clock_reads (((snd \<circ> check_work) ^^ k) (poll_new True clock)) = k div 256 \<and>
   (fst (check_work (((snd \<circ> check_work) ^^ k) (poll_new True clock))) \<longleftrightarrow> k mod 256 = 255 \<and> clock (k div 256)) \<and>
   ((\<forall>n. clock n) \<longrightarrow> (\<exists>j < 256. fst (check_work (((snd \<circ> check_work) ^^ (k + j)) (poll_new True clock))))) \<and>
   check_work (poll_new False clock) = (False, poll_new False clock)"
proof -
  have fires: "fst (check_work (((snd \<circ> check_work) ^^ k) (poll_new True clock))) \<longleftrightarrow> k mod 256 = 255 \<and> clock (k div 256)"
    for k :: nat
  proof -
    have "(of_nat (256 - k mod 256) :: u16) - 1 = 0 \<longleftrightarrow> k mod 256 = 255"
    proof -
      have "(of_nat (256 - k mod 256) :: u16) = 1 \<longleftrightarrow> 256 - k mod 256 = 1"
        using of_nat_u16_eq [of "256 - k mod 256" 1] by simp
      moreover have "256 - k mod 256 = 1 \<longleftrightarrow> k mod 256 = 255" using mod_less_divisor [of 256 k] by linarith
      ultimately show ?thesis by simp
    qed
    then show ?thesis unfolding poll_after by (simp add: check_work_def Let_def read_clock_def)
  qed
  have "(k + (255 - k mod 256)) mod 256 = (k mod 256 + (255 - k mod 256)) mod 256" by (simp only: mod_add_left_eq)
  moreover have "k mod 256 \<le> 255" using mod_less_divisor [of 256 k] by simp
  ultimately have "(k + (255 - k mod 256)) mod 256 = 255" by simp
  moreover have "255 - k mod 256 < 256" by simp
  ultimately have "(\<forall>n. clock n) \<longrightarrow> (\<exists>j < 256. fst (check_work (((snd \<circ> check_work) ^^ (k + j)) (poll_new True clock))))"
    unfolding fires by blast
  moreover have "check_work (poll_new False clock) = (False, poll_new False clock)"
    by (simp add: check_work_def poll_new_def)
  ultimately show ?thesis using poll_after [of k clock] unfolding fires by simp
qed

theorem check_work_samples_witness:
  "\<exists>j < 256. fst (check_work (((snd \<circ> check_work) ^^ (1000 + j)) (poll_new True (\<lambda>_. True))))"
  using check_work_samples [of 1000 "\<lambda>_. True"] by blast

lemma length_sort_dedup: "length (sort_dedup xs) = card (set xs)"
  by (metis distinct_card set_sort_dedup strict_sorted_iff strict_sorted_sort_dedup)

lemma fold_all_on_match:
  "fold all_on_match ids c =
     c\<lparr>all_out := all_out c @ ids, all_emissions := fold (\<lambda>_ e. saturating_add e 1) ids (all_emissions c)\<rparr>"
  by (induction ids arbitrary: c) (simp_all add: all_on_match_def)

lemma fold_count_on_match:
  "fold count_on_match ids c =
     c\<lparr>count_totals := fold tracker_observe ids (count_totals c),
       count_emissions := fold (\<lambda>_ e. saturating_add e 1) ids (count_emissions c)\<rparr>"
  by (induction ids arbitrary: c) (simp_all add: count_on_match_def)

lemma fold_tracker:
  fixes ids :: "u64 list" and threshold :: nat
  defines "t \<equiv> fold tracker_observe ids (tracker_new threshold)"
  shows "tracker_threshold t = threshold \<and> (tracker_exceeded t \<longleftrightarrow> threshold < card (set ids)) \<and>
    card (tracker_seen t) \<le> Suc threshold \<and> finite (tracker_seen t) \<and> (\<not> tracker_exceeded t \<longrightarrow> tracker_seen t = set ids)"
  unfolding t_def
proof (induction ids rule: rev_induct)
  case (snoc i ids)
  have mono: "card (set ids) \<le> card (set (ids @ [i]))" by (intro card_mono) auto
  show ?case
  proof (cases "tracker_exceeded (fold tracker_observe ids (tracker_new threshold))")
    case True
    then show ?thesis using snoc mono by (simp add: tracker_observe_def)
  next
    case False
    then show ?thesis using snoc by (auto simp: tracker_observe_def Let_def insert_absorb)
  qed
qed (simp add: tracker_new_def)

text \<open>
  C40: Counting agrees with collecting. The count-only collector keeps at most one
  id more than its threshold; up to the threshold it reports the same exact total
  and the same number of duplicates as the collector that keeps, sorts and
  deduplicates every id, and above it the threshold as a lower bound.
\<close>
theorem count_collector_agrees:
  "let c = fold count_on_match ids (count_new threshold);
       a = fold all_on_match ids \<lparr>all_out = [], all_emissions = 0\<rparr>
   in card (tracker_seen (count_totals c)) \<le> Suc threshold \<and>
      summary_emissions (count_finish c) = summary_emissions (fst (all_finish a)) \<and>
      retained (fst (all_finish a)) = card (set ids) \<and>
      (if card (set ids) \<le> threshold
       then summary_total (count_finish c) = summary_total (fst (all_finish a)) \<and>
            summary_duplicates (count_finish c) = summary_duplicates (fst (all_finish a))
       else summary_total (count_finish c) = hits_lower_bound (u64_of_len threshold) \<and>
            summary_duplicates (count_finish c) = None)"
  using fold_tracker [of ids threshold]
  by (auto simp: Let_def fold_all_on_match fold_count_on_match count_new_def count_finish_def all_finish_def
      exact_duplicates_def tracker_total_hits_def hits_exact_def hits_lower_bound_def length_sort_dedup)

end
