(* ===== verification/Segment_Match.thy ===== *)
theory Segment_Match
  imports Segment_Store Match_Collect
begin

text \<open>
  Matching one title against a segment (\<open>segment/seg/matching.rs\<close>). The pass threads
  the epoch stamps, the collector, the statistics and the deadline sampler; its
  outcome is \<open>Go\<close> (ran to the end), \<open>Halt\<close> (the collector asked to stop, still
  \<open>Ok\<close>) or \<open>Cancelled\<close> (the deadline has passed, \<open>Err\<close>). \<open>None\<close> is a panic.
\<close>

section \<open>State and outcomes\<close>

record probe_lanes =
  include_broad :: bool
  include_hot :: bool

datatype probe_lane = MainLane | BroadLane | HotLane

record 'c match_state =
  ms_seen :: "u32 list"
  ms_coll :: 'c
  ms_stats :: match_stats
  ms_poll :: deadline_poll

datatype 's flow = Go 's | Halt 's | Cancelled 's

definition flow_bind :: "'s flow option \<Rightarrow> ('s \<Rightarrow> 's flow option) \<Rightarrow> 's flow option" where
  "flow_bind r k = (case r of Some (Go s) \<Rightarrow> k s | _ \<Rightarrow> r)"

lemma flow_bind_simps [simp]:
  "flow_bind (Some (Go s)) k = k s" "flow_bind (Some (Halt s)) k = Some (Halt s)"
  "flow_bind (Some (Cancelled s)) k = Some (Cancelled s)" "flow_bind None k = None"
  by (simp_all add: flow_bind_def)

lemma flow_bind_cong [fundef_cong]:
  "r = r' \<Longrightarrow> (\<And>s. r' = Some (Go s) \<Longrightarrow> k s = k' s) \<Longrightarrow> flow_bind r k = flow_bind r' k'"
  by (auto simp: flow_bind_def split: option.split flow.split)

definition stop_or_go :: "'c match_sink \<Rightarrow> 'c match_state \<Rightarrow> 'c match_state flow option" where
  "stop_or_go sink s = Some (if sink_stop sink (ms_coll s) then Halt s else Go s)"

definition poll_work :: "'c match_state \<Rightarrow> 'c match_state flow option" where
  "poll_work s =
     (case check_work (ms_poll s) of (late, p) \<Rightarrow>
        Some (if late then Cancelled (s\<lparr>ms_poll := p\<rparr>) else Go (s\<lparr>ms_poll := p\<rparr>)))"

definition collect_match_at :: "'c match_sink \<Rightarrow> u64 \<Rightarrow> u32 \<Rightarrow> 'c match_state \<Rightarrow> 'c match_state flow option" where
  "collect_match_at sink logical row s =
     (case sink_deliver sink logical row (ms_poll s) (ms_coll s) of (late, p, c) \<Rightarrow>
        Some (if late then Cancelled (s\<lparr>ms_poll := p, ms_coll := c\<rparr>) else Go (s\<lparr>ms_poll := p, ms_coll := c\<rparr>)))"

section \<open>One candidate\<close>

definition count_candidate :: "probe_lane \<Rightarrow> match_stats \<Rightarrow> match_stats" where
  "count_candidate lane st =
     (let st = st\<lparr>unique_candidates := unique_candidates st + 1\<rparr> in
      case lane of
        BroadLane \<Rightarrow> st\<lparr>broad_candidates := broad_candidates st + 1\<rparr>
      | HotLane \<Rightarrow> st\<lparr>hot_candidates := hot_candidates st + 1\<rparr>
      | MainLane \<Rightarrow> st\<lparr>main_candidates := main_candidates st + 1\<rparr>)"

definition observe_row :: "'c match_sink \<Rightarrow> 'bm segment \<Rightarrow> u32 \<Rightarrow> 'c match_state \<Rightarrow> 'c match_state flow option" where
  "observe_row sink sg row s =
     do {
       logical \<leftarrow> at_index (logical_col (seg_exact sg)) (unat row);
       stop_or_go sink (s\<lparr>ms_coll := sink_candidate sink logical (ms_coll s)\<rparr>)
     }"

definition deliver_row :: "'c match_sink \<Rightarrow> 'bm segment \<Rightarrow> u32 \<Rightarrow> 'c match_state \<Rightarrow> 'c match_state flow option" where
  "deliver_row sink sg row s =
     do { logical \<leftarrow> at_index (logical_col (seg_exact sg)) (unat row); collect_match_at sink logical row s }"

text \<open>A segment without body groups: one row per posting entry.\<close>

definition visit_row ::
  "'c match_sink \<Rightarrow> 'bm segment \<Rightarrow> title_view \<Rightarrow> tag_predicate \<Rightarrow> emission_policy \<Rightarrow> u32 \<Rightarrow>
   'c match_state \<Rightarrow> 'c match_state flow option" where
  "visit_row sink sg view pred pol row s =
     do {
       live \<leftarrow> at_index (seg_alive sg) (unat row);
       if \<not> live then Some (Go s)
       else flow_bind (if sink_observes sink then observe_row sink sg row s else Some (Go s)) (\<lambda>s. do {
         ok \<leftarrow> and_also (store_verify (seg_exact sg) row view pred)
                (map_option (should_emit pol) (placement_of (seg_exact sg) row));
         flow_bind (if ok then deliver_row sink sg row s else Some (Go s)) (stop_or_go sink)
       })
     }"

text \<open>A group: its members are observed, its body is verified once, and its identities are emitted.\<close>

definition member_passes :: "'bm segment \<Rightarrow> tag_predicate \<Rightarrow> emission_policy \<Rightarrow> u32 \<Rightarrow> bool option" where
  "member_passes sg pred pol row =
     and_also (at_index (seg_alive sg) (unat row))
       (and_also (map_option (tag_predicate_matches pred) (tags_of (seg_exact sg) row))
         (map_option (should_emit pol) (placement_of (seg_exact sg) row)))"

definition emit_member ::
  "'c match_sink \<Rightarrow> 'bm segment \<Rightarrow> tag_predicate \<Rightarrow> emission_policy \<Rightarrow> u32 \<Rightarrow> 'c match_state \<Rightarrow>
   'c match_state flow option" where
  "emit_member sink sg pred pol row s =
     do {
       ok \<leftarrow> member_passes sg pred pol row;
       if ok then flow_bind (deliver_row sink sg row s) (stop_or_go sink) else Some (Go s)
     }"

fun each_member ::
  "'c match_sink \<Rightarrow> (u32 \<Rightarrow> 'c match_state \<Rightarrow> 'c match_state flow option) \<Rightarrow> u32 list \<Rightarrow> 'c match_state \<Rightarrow>
   'c match_state flow option" where
  "each_member sink f [] s = Some (Go s)"
| "each_member sink f (m # ms) s =
     flow_bind (stop_or_go sink s) (\<lambda>s. flow_bind (poll_work s) (\<lambda>s. flow_bind (f m s) (each_member sink f ms)))"

definition observe_alive :: "'c match_sink \<Rightarrow> 'bm segment \<Rightarrow> u32 \<Rightarrow> 'c match_state \<Rightarrow> 'c match_state flow option" where
  "observe_alive sink sg row s =
     do { live \<leftarrow> at_index (seg_alive sg) (unat row); if live then observe_row sink sg row s else Some (Go s) }"

definition visit_group ::
  "'c match_sink \<Rightarrow> 'bm segment \<Rightarrow> title_view \<Rightarrow> tag_predicate \<Rightarrow> emission_policy \<Rightarrow> u32 \<Rightarrow>
   'c match_state \<Rightarrow> 'c match_state flow option" where
  "visit_group sink sg view pred pol row s =
     (let ms = members_of sg row in do {
       gone \<leftarrow> (if ms = [] then map_option Not (at_index (seg_alive sg) (unat row)) else Some False);
       if gone then Some (Go s)
       else flow_bind
         (if sink_observes sink
          then flow_bind (observe_alive sink sg row s) (each_member sink (observe_alive sink sg) ms)
          else Some (Go s)) (\<lambda>s. do {
         ok \<leftarrow> store_verify (seg_exact sg) row view [];
         if \<not> ok then Some (Go s)
         else flow_bind (emit_member sink sg pred pol row s) (each_member sink (emit_member sink sg pred pol) ms)
       })
     })"

definition visit ::
  "'c match_sink \<Rightarrow> 'bm segment \<Rightarrow> probe_lane \<Rightarrow> u32 \<Rightarrow> title_view \<Rightarrow> tag_predicate \<Rightarrow> emission_policy \<Rightarrow> u32 \<Rightarrow>
   'c match_state \<Rightarrow> 'c match_state flow option" where
  "visit sink sg lane epoch view pred pol row s =
     flow_bind (stop_or_go sink s) (\<lambda>s. flow_bind (poll_work s) (\<lambda>s. do {
       stamp \<leftarrow> at_index (ms_seen s) (unat row);
       if stamp = epoch then Some (Go s)
       else
         let s = s\<lparr>ms_seen := (ms_seen s)[unat row := epoch], ms_stats := count_candidate lane (ms_stats s)\<rparr> in
         if has_dup_groups sg then visit_group sink sg view pred pol row s
         else visit_row sink sg view pred pol row s
     }))"

section \<open>One signature\<close>

definition count_postings :: "probe_lane \<Rightarrow> nat \<Rightarrow> match_stats \<Rightarrow> match_stats" where
  "count_postings lane n st =
     (let st = st\<lparr>postings_scanned := postings_scanned st + of_nat n\<rparr> in
      case lane of
        BroadLane \<Rightarrow> st\<lparr>broad_postings_scanned := broad_postings_scanned st + of_nat n\<rparr>
      | HotLane \<Rightarrow> st\<lparr>hot_postings_scanned := hot_postings_scanned st + of_nat n\<rparr>
      | MainLane \<Rightarrow> st)"

text \<open>The callback answers whether the iteration goes on; its verdict stays in the state.\<close>

definition keep_visiting ::
  "(u32 \<Rightarrow> 's \<Rightarrow> 's flow option) \<Rightarrow> u32 \<Rightarrow> 's flow option \<Rightarrow> bool \<times> 's flow option" where
  "keep_visiting f row r =
     (let r' = flow_bind r (f row) in (case r' of Some (Go _) \<Rightarrow> True | _ \<Rightarrow> False, r'))"

definition probe ::
  "'bm roaring \<Rightarrow> 'c match_sink \<Rightarrow> 'bm segment \<Rightarrow> 'bm candidate_index \<Rightarrow> probe_lane \<Rightarrow> u32 \<Rightarrow> title_view \<Rightarrow>
   tag_predicate \<Rightarrow> emission_policy \<Rightarrow> u64 \<Rightarrow> 'c match_state \<Rightarrow> 'c match_state flow option" where
  "probe rb sink sg ix lane epoch view pred pol key s =
     (case index_get ix key of
        None \<Rightarrow> Some (Go s)
      | Some p \<Rightarrow>
          let s = s\<lparr>ms_stats := count_postings lane (posting_len rb p) (ms_stats s)\<rparr> in
          (case for_each_while rb (keep_visiting (visit sink sg lane epoch view pred pol)) p (Some (Go s)) of
             Some (Halt s) \<Rightarrow> Some (Go s)
           | r \<Rightarrow> r))"

definition filter_skips :: "'bm segment \<Rightarrow> u64 \<Rightarrow> bool option" where
  "filter_skips sg key =
     (case seg_filter sg of None \<Rightarrow> Some False | Some f \<Rightarrow> map_option Not (may_contain f key))"

definition probe_unless_skipped ::
  "'bm roaring \<Rightarrow> 'c match_sink \<Rightarrow> 'bm segment \<Rightarrow> 'bm candidate_index \<Rightarrow> probe_lane \<Rightarrow> u32 \<Rightarrow> title_view \<Rightarrow>
   tag_predicate \<Rightarrow> emission_policy \<Rightarrow> u64 \<Rightarrow> 'c match_state \<Rightarrow> 'c match_state flow option" where
  "probe_unless_skipped rb sink sg ix lane epoch view pred pol key s =
     (let st = ms_stats s; s = s\<lparr>ms_stats := st\<lparr>probes_attempted := probes_attempted st + 1\<rparr>\<rparr> in do {
       skip \<leftarrow> filter_skips sg key;
       if skip
       then let st = ms_stats s in Some (Go (s\<lparr>ms_stats := st\<lparr>probes_skipped := probes_skipped st + 1\<rparr>\<rparr>))
       else probe rb sink sg ix lane epoch view pred pol key s
     })"

section \<open>One title\<close>

text \<open>Every feature loop checks the collector and the deadline before its body.\<close>

fun each_feature ::
  "'c match_sink \<Rightarrow> (feature_id \<Rightarrow> 'c match_state \<Rightarrow> 'c match_state flow option) \<Rightarrow> feature_id list \<Rightarrow> 'c match_state \<Rightarrow>
   'c match_state flow option" where
  "each_feature sink f [] s = Some (Go s)"
| "each_feature sink f (x # xs) s =
     flow_bind (stop_or_go sink s) (\<lambda>s. flow_bind (poll_work s) (\<lambda>s. flow_bind (f x s) (each_feature sink f xs)))"

definition pair_key :: "feature_id \<Rightarrow> feature_id \<Rightarrow> u64" where
  "pair_key h f = sig_key (if h < f then [h, f] else [f, h])"

definition match_collect ::
  "'bm roaring \<Rightarrow> 'c match_sink \<Rightarrow> 'bm segment \<Rightarrow> title_view \<Rightarrow> dict \<Rightarrow> u32 \<Rightarrow> probe_lanes \<Rightarrow> tag_predicate \<Rightarrow>
   emission_policy \<Rightarrow> 'c match_state \<Rightarrow> 'c match_state flow option" where
  "match_collect rb sink sg view d epoch lanes pred pol s =
     (let go = (\<lambda>ix lane. probe_unless_skipped rb sink sg ix lane epoch view pred pol);
          single = (\<lambda>ix lane f. go ix lane (sig_key [f]));
          pairs = (\<lambda>h. if is_hot d h
            then each_feature sink
              (\<lambda>f s. if f \<noteq> h then go (seg_main sg) MainLane (pair_key h f) s else Some (Go s)) (view_pos view)
            else (\<lambda>s. Some (Go s)))
      in flow_bind (stop_or_go sink s) (\<lambda>s.
         flow_bind (each_feature sink (single (seg_main sg) MainLane) (probe_labels view) s) (\<lambda>s.
         flow_bind (each_feature sink pairs (view_pos view) s) (\<lambda>s.
         flow_bind
           (if include_hot lanes \<and> has_hot_entries sg
            then each_feature sink (single (seg_hot sg) HotLane) (view_pos view) s else Some (Go s)) (\<lambda>s.
         if include_broad lanes
         then flow_bind (each_feature sink (single (seg_broad sg) BroadLane) (view_pos view) s) (\<lambda>s.
              flow_bind (stop_or_go sink s) (\<lambda>s.
              flow_bind (poll_work s) (go (seg_broad sg) BroadLane universal_sig)))
         else Some (Go s))))))"

text \<open>The compatibility entry point: all ids into a vector, no deadline, every row emitted.\<close>

fun flow_state :: "'s flow \<Rightarrow> 's" where
  "flow_state (Go s) = s"
| "flow_state (Halt s) = s"
| "flow_state (Cancelled s) = s"

definition match_into ::
  "'bm roaring \<Rightarrow> 'bm segment \<Rightarrow> title_view \<Rightarrow> dict \<Rightarrow> u32 \<Rightarrow> u32 list \<Rightarrow> u64 list \<Rightarrow> probe_lanes \<Rightarrow> tag_predicate \<Rightarrow>
   match_stats \<Rightarrow> (u32 list \<times> u64 list \<times> match_stats) option" where
  "match_into rb sg view d epoch seen out lanes pred stats =
     map_option (\<lambda>r. let s = flow_state r in (ms_seen s, all_out (ms_coll s), ms_stats s))
       (match_collect rb vec_sink sg view d epoch lanes pred EmitAll
         \<lparr>ms_seen = seen, ms_coll = \<lparr>all_out = out, all_emissions = 0\<rparr>, ms_stats = stats, ms_poll = no_deadline\<rparr>)"

end
