(* ===== verification/Segment_Match_Correct.thy ===== *)
theory Segment_Match_Correct
  imports Segment_Invariant Segment_Match "HOL-Library.Multiset"
begin

text \<open>
  Matching is exact: a pass that is neither stopped nor cancelled visits every
  leader whose keys the title probes once, and emits, once each, exactly the live
  rows in the requested lanes that match the title.
\<close>

section \<open>Passes that add visited rows\<close>

text \<open>
  \<open>P L s\<close>: the state after the rows \<open>L\<close> have been visited. \<open>visits P f X\<close>: from
  such a state \<open>f\<close> runs to its end and visits the rows of \<open>X\<close>.
\<close>

definition visits ::
  "(u32 list \<Rightarrow> 's \<Rightarrow> bool) \<Rightarrow> ('s \<Rightarrow> 's flow option) \<Rightarrow> u32 set \<Rightarrow> bool" where
  "visits P f X \<longleftrightarrow> (\<forall>L s. P L s \<longrightarrow> (\<exists>L' s'. f s = Some (Go s') \<and> P L' s' \<and> set L' = set L \<union> X))"

lemma visitsD: "visits P f X \<Longrightarrow> P L s \<Longrightarrow> \<exists>L' s'. f s = Some (Go s') \<and> P L' s' \<and> set L' = set L \<union> X"
  by (simp add: visits_def)

lemma visits_go: "visits P (\<lambda>s. Some (Go s)) {}"
  by (auto simp: visits_def)

lemma visits_bind:
  assumes "visits P f X" "visits P g Y"
  shows "visits P (\<lambda>s. flow_bind (f s) g) (X \<union> Y)"
  unfolding visits_def
proof (intro allI impI)
  fix L s assume "P L s"
  then obtain L1 s1 where 1: "f s = Some (Go s1)" "P L1 s1" "set L1 = set L \<union> X" using visitsD [OF assms(1)] by blast
  obtain L2 s2 where "g s1 = Some (Go s2)" "P L2 s2" "set L2 = set L1 \<union> Y" using visitsD [OF assms(2) 1(2)] by blast
  then show "\<exists>L' s'. flow_bind (f s) g = Some (Go s') \<and> P L' s' \<and> set L' = set L \<union> (X \<union> Y)" using 1 by auto
qed

lemmas visits_guard = visits_bind [where X = "{}", simplified]

lemma visits_each:
  assumes "visits P (stop_or_go sink) {}" "visits P poll_work {}" "\<And>x. x \<in> set xs \<Longrightarrow> visits P (f x) (X x)"
  shows "visits P (each_feature sink f xs) (\<Union>x \<in> set xs. X x)"
  using assms(3)
proof (induction xs)
  case (Cons x xs)
  have "visits P (\<lambda>s. flow_bind (f x s) (each_feature sink f xs)) (X x \<union> (\<Union>x \<in> set xs. X x))"
    using Cons by (intro visits_bind) simp_all
  from visits_guard [OF assms(1) visits_guard [OF assms(2) this]] show ?case by simp
qed (auto simp: visits_def)

lemma visits_iterate:
  assumes "\<And>i. i \<in> set ids \<Longrightarrow> visits P (f i) {i}" "P L s"
  shows "\<exists>L' s'. iterate_while (keep_visiting f) ids (Some (Go s)) = Some (Go s') \<and> P L' s' \<and> set L' = set L \<union> set ids"
  using assms
proof (induction ids arbitrary: L s)
  case (Cons i ids)
  obtain L1 s1 where 1: "f i s = Some (Go s1)" "P L1 s1" "set L1 = set L \<union> {i}"
    using visitsD [OF Cons.prems(1) [of i] Cons.prems(2)] by auto
  obtain L2 s2 where "iterate_while (keep_visiting f) ids (Some (Go s1)) = Some (Go s2)" "P L2 s2" "set L2 = set L1 \<union> set ids"
    using Cons.IH [of L1 s1] Cons.prems(1) 1(2) by auto
  moreover have "keep_visiting f i (Some (Go s)) = (True, Some (Go s1))" by (simp add: keep_visiting_def 1(1))
  ultimately show ?case using 1(3) by auto
qed auto

section \<open>What a visit emits\<close>

definition member_ok :: "'bm segment \<Rightarrow> tag_predicate \<Rightarrow> emission_policy \<Rightarrow> u32 \<Rightarrow> bool" where
  "member_ok sg pred pol i \<longleftrightarrow> seg_alive sg ! unat i \<and> row_passes (seg_row sg (unat i)) pred \<and>
     should_emit pol (row_placement (seg_row sg (unat i)))"

definition emitted_by :: "'bm segment \<Rightarrow> title_view \<Rightarrow> tag_predicate \<Rightarrow> emission_policy \<Rightarrow> u32 \<Rightarrow> u32 list" where
  "emitted_by sg view pred pol l =
     (if row_matches (seg_row sg (unat l)) view then filter (member_ok sg pred pol) (l # members_of sg l) else [])"

definition emit_ids :: "(u64 \<Rightarrow> 'c \<Rightarrow> 'c) \<Rightarrow> 'bm segment \<Rightarrow> u32 list \<Rightarrow> 'c \<Rightarrow> 'c" where
  "emit_ids on_match sg rows c = fold on_match (map (\<lambda>i. row_logical (seg_row sg (unat i))) rows) c"

definition pass_state ::
  "(u64 \<Rightarrow> 'c \<Rightarrow> 'c) \<Rightarrow> 'bm segment \<Rightarrow> title_view \<Rightarrow> tag_predicate \<Rightarrow> emission_policy \<Rightarrow> u32 \<Rightarrow> 'c \<Rightarrow>
   u32 list \<Rightarrow> 'c match_state \<Rightarrow> bool" where
  "pass_state on_match sg view pred pol epoch c0 L s \<longleftrightarrow>
     \<not> armed (ms_poll s) \<and> length (ms_seen s) = segment_len sg \<and> distinct L \<and>
     (\<forall>i < segment_len sg. ms_seen s ! i = epoch \<longleftrightarrow> of_nat i \<in> set L) \<and>
     ms_coll s = emit_ids on_match sg (concat (map (emitted_by sg view pred pol) L)) c0"

lemma pass_state_stats [simp]:
  "pass_state on_match sg view pred pol epoch c0 L (s\<lparr>ms_stats := x\<rparr>) = pass_state on_match sg view pred pol epoch c0 L s"
  by (simp add: pass_state_def)

lemma poll_unarmed [simp]: "\<not> armed (ms_poll s) \<Longrightarrow> poll_work s = Some (Go s)"
  by (simp add: poll_work_def check_work_def)

lemma row_passes_iff: "row_passes r pred \<longleftrightarrow> tag_predicate_matches pred (row_tags r)"
  by (auto simp: row_passes_def tag_predicate_matches_def)

lemma member_passes_ok:
  assumes "seg_columns sg" "unat i < segment_len sg"
  shows "member_passes sg pred pol i = Some (member_ok sg pred pol i)"
  using read_rowD [OF read_seg_row [OF assms]] assms
  by (auto simp: member_passes_def member_ok_def row_passes_iff at_index_def seg_columns_def tags_of_def placement_of_def
      and_also_def split: bool.split)

context exhaustive_sink
begin

lemma stop_or_go_go [simp]: "stop_or_go sink s = Some (Go s)"
  by (simp add: stop_or_go_def never_stops)

lemma deliver_row_ok:
  assumes "seg_columns sg" "unat i < segment_len sg"
  shows "deliver_row sink sg i s = Some (Go (s\<lparr>ms_coll := on_match (row_logical (seg_row sg (unat i))) (ms_coll s)\<rparr>))"
  using read_rowD [OF read_seg_row [OF assms]] by (simp add: deliver_row_def collect_match_at_def delivers)

lemma emit_member_ok:
  assumes "seg_columns sg" "unat i < segment_len sg"
  shows "emit_member sink sg pred pol i s =
    Some (Go (s\<lparr>ms_coll := emit_ids on_match sg (filter (member_ok sg pred pol) [i]) (ms_coll s)\<rparr>))"
  by (simp add: emit_member_def member_passes_ok [OF assms] deliver_row_ok [OF assms] emit_ids_def)

lemma emit_members_ok:
  assumes "seg_columns sg" "\<forall>i \<in> set ms. unat i < segment_len sg" "\<not> armed (ms_poll s)"
  shows "each_member sink (emit_member sink sg pred pol) ms s =
    Some (Go (s\<lparr>ms_coll := emit_ids on_match sg (filter (member_ok sg pred pol) ms) (ms_coll s)\<rparr>))"
  using assms(2,3)
proof (induction ms arbitrary: s)
  case (Cons m ms)
  then show ?case by (simp add: emit_member_ok [OF assms(1)] emit_ids_def)
qed (simp add: emit_ids_def)

lemma visit_row_ok:
  assumes "seg_columns sg" "unat l < segment_len sg" "members_of sg l = []"
  shows "visit_row sink sg view pred pol l s =
    Some (Go (s\<lparr>ms_coll := emit_ids on_match sg (emitted_by sg view pred pol l) (ms_coll s)\<rparr>))"
proof -
  have "length (seg_alive sg) = segment_len sg" using assms(1) by (simp add: seg_columns_def)
  moreover have "placement_of (seg_exact sg) l = Some (row_placement (seg_row sg (unat l)))"
    using read_rowD [OF read_seg_row [OF assms(1,2)]] by (simp add: placement_of_def)
  ultimately show ?thesis
    using store_verify_usable [OF read_seg_row [OF assms(1,2)] seg_row_usable [OF assms(1,2)]] assms(2)
    by (auto simp: visit_row_def at_index_def never_observes deliver_row_ok [OF assms(1,2)] emit_ids_def emitted_by_def
        member_ok_def assms(3) and_also_def split: bool.split)
qed

lemma visit_group_ok:
  assumes "seg_columns sg" "unat l < segment_len sg" "\<forall>i \<in> set (members_of sg l). unat i < segment_len sg"
    "\<not> armed (ms_poll s)"
  shows "visit_group sink sg view pred pol l s =
    Some (Go (s\<lparr>ms_coll := emit_ids on_match sg (emitted_by sg view pred pol l) (ms_coll s)\<rparr>))"
proof -
  have alive: "at_index (seg_alive sg) (unat l) = Some (seg_alive sg ! unat l)"
    using assms(1,2) by (simp add: seg_columns_def at_index_def)
  note verify = store_verify_usable [OF read_seg_row [OF assms(1,2)] seg_row_usable [OF assms(1,2)], of view "[]"]
  show ?thesis
    using emit_members_ok [OF assms(1,3), of "s\<lparr>ms_coll := c\<rparr>" for c] assms(4)
    by (auto simp: visit_group_def Let_def alive never_observes verify row_passes_def emitted_by_def
        emit_member_ok [OF assms(1,2)] emit_ids_def member_ok_def)
qed

lemma visit_ok:
  assumes "seg_inv rb d sg" "unat l < segment_len sg"
  shows "visits (pass_state on_match sg view pred pol epoch c0) (visit sink sg lane epoch view pred pol l) {l}"
  unfolding visits_def
proof (intro allI impI)
  fix L s
  assume st: "pass_state on_match sg view pred pol epoch c0 L s"
  note inv = seg_invD [OF assms(1)]
  have cols: "seg_columns sg" using inv by blast
  have seen: "at_index (ms_seen s) (unat l) = Some (ms_seen s ! unat l)" "ms_seen s ! unat l = epoch \<longleftrightarrow> l \<in> set L"
    and unarmed: "\<not> armed (ms_poll s)"
    using st assms(2) by (simp_all add: pass_state_def at_index_def)
  show "\<exists>L' s'. visit sink sg lane epoch view pred pol l s = Some (Go s') \<and>
      pass_state on_match sg view pred pol epoch c0 L' s' \<and> set L' = set L \<union> {l}"
  proof (cases "l \<in> set L")
    case True
    then have "visit sink sg lane epoch view pred pol l s = Some (Go s)" using seen unarmed by (simp add: visit_def)
    then show ?thesis using st True by auto
  next
    case False
    let ?s = "s\<lparr>ms_seen := (ms_seen s)[unat l := epoch], ms_stats := count_candidate lane (ms_stats s)\<rparr>"
    let ?s' = "?s\<lparr>ms_coll := emit_ids on_match sg (emitted_by sg view pred pol l) (ms_coll ?s)\<rparr>"
    have members: "\<forall>i \<in> set (members_of sg l). unat i < segment_len sg" using inv by (simp add: seg_groups_def)
    have "members_of sg l = []" if "\<not> has_dup_groups sg"
      using that by (simp add: has_dup_groups_def members_of_def)
    then have "visit sink sg lane epoch view pred pol l s = Some (Go ?s')"
      using False seen unarmed visit_row_ok [OF cols assms(2), of view pred pol ?s]
        visit_group_ok [OF cols assms(2) members, of ?s view pred pol]
      by (simp add: visit_def Let_def)
    moreover have "pass_state on_match sg view pred pol epoch c0 (L @ [l]) ?s'"
      using st False assms(2) unat_row [of "segment_len sg"] cols
      by (auto simp: pass_state_def emit_ids_def nth_list_update seg_columns_def unat_row)
    ultimately show ?thesis by auto
  qed
qed

lemma probe_ok:
  assumes "seg_inv rb d sg" "ix \<in> {seg_main sg, seg_broad sg, seg_hot sg}"
  shows "visits (pass_state on_match sg view pred pol epoch c0) (probe rb sink sg ix lane epoch view pred pol key)
    (index_reach rb ix key)"
  unfolding visits_def
proof (intro allI impI)
  fix L s
  let ?P = "pass_state on_match sg view pred pol epoch c0"
  assume st: "?P L s"
  show "\<exists>L' s'. probe rb sink sg ix lane epoch view pred pol key s = Some (Go s') \<and> ?P L' s' \<and>
      set L' = set L \<union> index_reach rb ix key"
  proof (cases "index_get ix key")
    case None
    then show ?thesis using st by (auto simp: probe_def index_reach_def)
  next
    case (Some p)
    let ?s = "s\<lparr>ms_stats := count_postings lane (posting_len rb p) (ms_stats s)\<rparr>"
    have ids: "index_reach rb ix key = set (posting_ids rb p)" using Some by (simp add: index_reach_def)
    have "unat i < segment_len sg" if "i \<in> set (posting_ids rb p)" for i
      using that ids seg_invD [OF assms(1)] assms(2) unfolding seg_lanes_def is_leader_def by blast
    then obtain L' s' where "iterate_while (keep_visiting (visit sink sg lane epoch view pred pol)) (posting_ids rb p)
        (Some (Go ?s)) = Some (Go s')" "?P L' s'" "set L' = set L \<union> set (posting_ids rb p)"
      using visits_iterate [of "posting_ids rb p" ?P "visit sink sg lane epoch view pred pol" L ?s] visit_ok [OF assms(1)] st
      by auto
    then show ?thesis using Some ids by (auto simp: probe_def for_each_while_def Let_def)
  qed
qed

lemma probe_unless_skipped_ok:
  assumes "seg_inv rb d sg" "ix \<in> {seg_main sg, seg_broad sg, seg_hot sg}"
  shows "visits (pass_state on_match sg view pred pol epoch c0)
    (probe_unless_skipped rb sink sg ix lane epoch view pred pol key) (index_reach rb ix key)"
  unfolding visits_def
proof (intro allI impI)
  fix L s
  let ?P = "pass_state on_match sg view pred pol epoch c0"
  let ?keys = "index_keys (seg_main sg) @ index_keys (seg_broad sg) @ index_keys (seg_hot sg)"
  assume st: "?P L s"
  have skips: "\<exists>b. filter_skips sg key = Some b \<and> (b \<longrightarrow> index_reach rb ix key = {})"
  proof (cases "seg_filter sg")
    case (Some f)
    then have f: "filter_build ?keys = Some f" using seg_invD [OF assms(1)] by (simp add: seg_seals_def)
    obtain b where b: "may_contain f key = Some b" using bloom.query_total [OF f] by blast
    have "index_reach rb ix key = {}" if "\<not> b"
    proof -
      have "key \<notin> set ?keys" using bloom.rejected_absent [OF f] b that by simp
      then have "key \<notin> fst ` set ix" using assms(2) by (auto simp: index_keys_def)
      then have "index_get ix key = None" by (simp add: index_get_def map_of_eq_None_iff)
      then show ?thesis by (simp add: index_reach_def)
    qed
    then show ?thesis using Some b by (auto simp: filter_skips_def)
  qed (auto simp: filter_skips_def)
  then obtain b where b: "filter_skips sg key = Some b" "b \<Longrightarrow> index_reach rb ix key = {}" by blast
  let ?s = "s\<lparr>ms_stats := (ms_stats s)\<lparr>probes_attempted := probes_attempted (ms_stats s) + 1\<rparr>\<rparr>"
  have st': "?P L ?s" using st by simp
  show "\<exists>L' s'. probe_unless_skipped rb sink sg ix lane epoch view pred pol key s = Some (Go s') \<and> ?P L' s' \<and>
      set L' = set L \<union> index_reach rb ix key"
  proof (cases b)
    case True
    then show ?thesis using b st by (auto simp: probe_unless_skipped_def Let_def intro!: exI [of _ L])
  next
    case False
    then show ?thesis
      using b(1) visitsD [OF probe_ok [OF assms] st', of lane key] by (simp add: probe_unless_skipped_def Let_def)
  qed
qed

end

section \<open>The rows a title reaches\<close>

definition reached :: "'bm roaring \<Rightarrow> 'bm segment \<Rightarrow> probe_lanes \<Rightarrow> dict \<Rightarrow> title_view \<Rightarrow> u32 set" where
  "reached rb sg lanes d view =
     {l. keys_at rb (seg_main sg) l \<inter> main_keys d view \<noteq> {}} \<union>
     (if include_hot lanes then {l. keys_at rb (seg_hot sg) l \<inter> hot_keys view \<noteq> {}} else {}) \<union>
     (if include_broad lanes then {l. keys_at rb (seg_broad sg) l \<inter> broad_keys view \<noteq> {}} else {})"

lemma reach_keys: "{l. keys_at rb ix l \<inter> K \<noteq> {}} = (\<Union>k \<in> K. index_reach rb ix k)"
  by (auto simp: keys_at_def)

lemma main_reach:
  "(\<Union>k \<in> main_keys d view. index_reach rb ix k) =
     (\<Union>f \<in> set (probe_labels view). index_reach rb ix (sig_key [f])) \<union>
     (\<Union>h \<in> set (view_pos view). if is_hot d h
        then (\<Union>f \<in> set (view_pos view). if f \<noteq> h then index_reach rb ix (pair_key h f) else {}) else {})"
proof -
  have pair: "sig_key (pair_group h f) = pair_key h f" for h f by (simp add: pair_group_def pair_key_def)
  have "l \<in> (\<Union>k \<in> main_keys d view. index_reach rb ix k) \<longleftrightarrow>
      (\<exists>f \<in> set (probe_labels view). l \<in> index_reach rb ix (sig_key [f])) \<or>
      (\<exists>h \<in> set (view_pos view). \<exists>f \<in> set (view_pos view). is_hot d h \<and> f \<noteq> h \<and> l \<in> index_reach rb ix (pair_key h f))" for l
    unfolding main_keys_def main_probes_def pair [symmetric] by blast
  then show ?thesis by (intro set_eqI) (auto split: if_splits)
qed

lemma hot_reach: "(\<Union>k \<in> hot_keys view. index_reach rb ix k) = (\<Union>f \<in> set (view_pos view). index_reach rb ix (sig_key [f]))"
  by (auto simp: hot_keys_def hot_probes_def)

lemma broad_reach:
  "(\<Union>k \<in> broad_keys view. index_reach rb ix k) =
     (\<Union>f \<in> set (view_pos view). index_reach rb ix (sig_key [f])) \<union> index_reach rb ix universal_sig"
  by (auto simp: broad_keys_def broad_probes_def universal_sig_def)

lemma reach_empty: "\<not> has_hot_entries sg \<Longrightarrow> index_reach rb (seg_hot sg) k = {}"
  by (simp add: has_hot_entries_def num_signatures_def index_reach_def index_ids_def index_get_def)

context exhaustive_sink
begin

lemma pass_guards:
  "visits (pass_state on_match sg view pred pol epoch c0) (stop_or_go sink) {}"
  "visits (pass_state on_match sg view pred pol epoch c0) poll_work {}"
  unfolding visits_def by (auto simp: pass_state_def)

lemma match_collect_visits:
  assumes "seg_inv rb d' sg"
  shows "visits (pass_state on_match sg view pred pol epoch c0) (match_collect rb sink sg view d epoch lanes pred pol)
    (reached rb sg lanes d view)"
proof -
  let ?V = "visits (pass_state on_match sg view pred pol epoch c0)"
  let ?go = "\<lambda>ix lane. probe_unless_skipped rb sink sg ix lane epoch view pred pol"
  have go: "?V (?go ix lane key) (index_reach rb ix key)" if "ix \<in> {seg_main sg, seg_broad sg, seg_hot sg}" for ix lane key
    by (rule probe_unless_skipped_ok [OF assms that])
  note each = visits_each [OF pass_guards]
  have singles: "?V (each_feature sink (\<lambda>f. ?go ix lane (sig_key [f])) xs) (\<Union>f \<in> set xs. index_reach rb ix (sig_key [f]))"
    if "ix \<in> {seg_main sg, seg_broad sg, seg_hot sg}" for ix lane xs
    using go [OF that] by (intro each)
  let ?pairs = "\<lambda>h. if is_hot d h then each_feature sink
      (\<lambda>f s. if f \<noteq> h then ?go (seg_main sg) MainLane (pair_key h f) s else Some (Go s)) (view_pos view)
    else (\<lambda>s. Some (Go s))"
  have inner: "?V (\<lambda>s. if f \<noteq> h then ?go (seg_main sg) MainLane (pair_key h f) s else Some (Go s))
      (if f \<noteq> h then index_reach rb (seg_main sg) (pair_key h f) else {})" for f h
    using go [of "seg_main sg" MainLane "pair_key h f"] by (cases "f = h") (simp_all add: visits_go)
  have "?V (?pairs h) (if is_hot d h then (\<Union>f \<in> set (view_pos view). if f \<noteq> h
      then index_reach rb (seg_main sg) (pair_key h f) else {}) else {})" for h
    using each [OF inner] by (simp add: visits_go)
  then have pairs: "?V (each_feature sink ?pairs (view_pos view)) (\<Union>h \<in> set (view_pos view). if is_hot d h
      then (\<Union>f \<in> set (view_pos view). if f \<noteq> h then index_reach rb (seg_main sg) (pair_key h f) else {}) else {})"
    by (intro each)
  have hot: "?V (\<lambda>s. if include_hot lanes \<and> has_hot_entries sg
      then each_feature sink (\<lambda>f. ?go (seg_hot sg) HotLane (sig_key [f])) (view_pos view) s else Some (Go s))
      (if include_hot lanes then (\<Union>f \<in> set (view_pos view). index_reach rb (seg_hot sg) (sig_key [f])) else {})"
    using singles [of "seg_hot sg" HotLane "view_pos view"] reach_empty [of sg rb] visits_go
    by (cases "include_hot lanes"; cases "has_hot_entries sg") auto
  have broad: "?V (\<lambda>s. if include_broad lanes
      then flow_bind (each_feature sink (\<lambda>f. ?go (seg_broad sg) BroadLane (sig_key [f])) (view_pos view) s)
        (\<lambda>s. flow_bind (stop_or_go sink s) (\<lambda>s. flow_bind (poll_work s) (?go (seg_broad sg) BroadLane universal_sig)))
      else Some (Go s))
      (if include_broad lanes then (\<Union>f \<in> set (view_pos view). index_reach rb (seg_broad sg) (sig_key [f])) \<union>
        index_reach rb (seg_broad sg) universal_sig else {})"
    using visits_bind [OF singles visits_guard [OF pass_guards(1) visits_guard [OF pass_guards(2) go]],
        of "seg_broad sg" "seg_broad sg" BroadLane "view_pos view" BroadLane universal_sig] visits_go
    by (cases "include_broad lanes") auto
  have "?V (match_collect rb sink sg view d epoch lanes pred pol)
     ((\<Union>f \<in> set (probe_labels view). index_reach rb (seg_main sg) (sig_key [f])) \<union>
      ((\<Union>h \<in> set (view_pos view). if is_hot d h
        then (\<Union>f \<in> set (view_pos view). if f \<noteq> h then index_reach rb (seg_main sg) (pair_key h f) else {}) else {}) \<union>
      ((if include_hot lanes then (\<Union>f \<in> set (view_pos view). index_reach rb (seg_hot sg) (sig_key [f])) else {}) \<union>
       (if include_broad lanes then (\<Union>f \<in> set (view_pos view). index_reach rb (seg_broad sg) (sig_key [f])) \<union>
        index_reach rb (seg_broad sg) universal_sig else {}))))"
    unfolding match_collect_def [abs_def] Let_def
    by (rule visits_guard [OF pass_guards(1) visits_bind [OF singles visits_bind [OF pairs visits_bind [OF hot broad]]]]) simp
  then show ?thesis
    unfolding reached_def reach_keys main_reach hot_reach broad_reach by (simp add: Un_assoc)
qed

end

section \<open>The rows that are emitted\<close>

definition lane_on :: "probe_lanes \<Rightarrow> cost_class \<Rightarrow> bool" where
  "lane_on lanes cls \<longleftrightarrow>
     (if cls = ClassH then include_hot lanes else if is_opt_in cls then include_broad lanes else True)"

definition selected ::
  "probe_lanes \<Rightarrow> title_view \<Rightarrow> tag_predicate \<Rightarrow> emission_policy \<Rightarrow> stored_row \<times> cost_class \<Rightarrow> bool" where
  "selected lanes view pred pol rc \<longleftrightarrow> lane_on lanes (snd rc) \<and> row_matches (fst rc) view \<and>
     row_passes (fst rc) pred \<and> should_emit pol (row_placement (fst rc))"

lemma reached_leader: "seg_inv rb d' sg \<Longrightarrow> l \<in> reached rb sg lanes d view \<Longrightarrow> is_leader sg l"
  by (auto simp: reached_def seg_inv_def seg_lanes_def keys_at_def split: if_splits)

lemma leader_reached:
  assumes "seg_inv rb d sg" "title_ok d view" "is_leader sg l" "row_probed view (seg_row sg (unat l))"
    and "row_matches (seg_row sg (unat l)) view"
  shows "l \<in> reached rb sg lanes d view \<longleftrightarrow> lane_on lanes (seg_class sg ! unat l)"
proof -
  have "keys_in_lane (seg_class sg ! unat l) (keys_at rb (seg_main sg) l) (keys_at rb (seg_broad sg) l) (keys_at rb (seg_hot sg) l)"
    "row_cover d (seg_class sg ! unat l) (keys_at rb (seg_main sg) l) (keys_at rb (seg_broad sg) l)
      (keys_at rb (seg_hot sg) l) (seg_row sg (unat l))"
    using assms(1,3) by (simp_all add: seg_inv_def seg_lanes_def)
  then show ?thesis using assms(2,4,5)
    by (cases "seg_class sg ! unat l") (auto simp: row_cover_def keys_in_lane_def reached_def lane_on_def)
qed

lemma distinct_concat_owner:
  assumes "distinct L" "\<And>l. l \<in> set L \<Longrightarrow> distinct (f l)" "\<And>l i. l \<in> set L \<Longrightarrow> i \<in> set (f l) \<Longrightarrow> g i = l"
  shows "distinct (concat (map f L))"
  using assms
proof (induction L)
  case (Cons l L)
  have "distinct (concat (map f L))" using Cons.IH Cons.prems by simp
  moreover have "i \<notin> set (f x)" if "i \<in> set (f l)" "x \<in> set L" for i x
    using Cons.prems(1) Cons.prems(3) [of l i] Cons.prems(3) [of x i] that by auto
  ultimately show ?case using Cons.prems(2) [of l] by auto
qed simp

lemma emitted_by_rows:
  assumes "seg_inv rb d sg" "is_leader sg l"
  shows "distinct (emitted_by sg view pred pol l)"
    "set (emitted_by sg view pred pol l) =
       {i. unat i < segment_len sg \<and> dup_of sg ! unat i = l \<and> row_matches (seg_row sg (unat l)) view \<and> member_ok sg pred pol i}"
proof -
  have members: "distinct (members_of sg l)"
    "set (members_of sg l) = {i. unat i < segment_len sg \<and> dup_of sg ! unat i = l \<and> i \<noteq> l}"
    using assms(1) by (simp_all add: seg_inv_def seg_groups_def)
  then show "distinct (emitted_by sg view pred pol l)" by (simp add: emitted_by_def)
  show "set (emitted_by sg view pred pol l) =
       {i. unat i < segment_len sg \<and> dup_of sg ! unat i = l \<and> row_matches (seg_row sg (unat l)) view \<and> member_ok sg pred pol i}"
  proof (intro set_eqI)
    fix i
    have "i \<in> set (members_of sg l) \<longleftrightarrow> unat i < segment_len sg \<and> dup_of sg ! unat i = l \<and> i \<noteq> l" using members(2) by simp
    then show "i \<in> set (emitted_by sg view pred pol l) \<longleftrightarrow>
        i \<in> {i. unat i < segment_len sg \<and> dup_of sg ! unat i = l \<and> row_matches (seg_row sg (unat l)) view \<and> member_ok sg pred pol i}"
      using assms(2) by (cases "i = l") (auto simp: emitted_by_def is_leader_def)
  qed
qed

lemma emitted_rows:
  assumes "seg_inv rb d sg" "title_ok d view" "\<forall>(r, c) \<in> set (live_rows sg). row_probed view r"
    and "distinct L" "set L = reached rb sg lanes d view"
  shows "distinct (concat (map (emitted_by sg view pred pol) L))"
    "set (concat (map (emitted_by sg view pred pol) L)) = {i. unat i < segment_len sg \<and> seg_alive sg ! unat i \<and>
       selected lanes view pred pol (seg_row sg (unat i), seg_class sg ! unat i)}"
proof -
  have leaders: "is_leader sg l" if "l \<in> set L" for l using reached_leader [OF assms(1)] that assms(5) by blast
  show "distinct (concat (map (emitted_by sg view pred pol) L))"
    using emitted_by_rows [OF assms(1) leaders] by (intro distinct_concat_owner [OF assms(4), where g = "\<lambda>i. dup_of sg ! unat i"]) auto
  have group: "is_leader sg (dup_of sg ! unat i)" "seg_class sg ! unat i = seg_class sg ! unat (dup_of sg ! unat i)"
    "row_matches (seg_row sg (unat i)) view \<longleftrightarrow> row_matches (seg_row sg (unat (dup_of sg ! unat i))) view"
    "row_probed view (seg_row sg (unat i)) \<longleftrightarrow> row_probed view (seg_row sg (unat (dup_of sg ! unat i)))"
    if "unat i < segment_len sg" for i :: u32
    using assms(1) that by (simp_all add: seg_inv_def seg_groups_def same_answers_def)
  have probed: "row_probed view (seg_row sg i)" if "i < segment_len sg" "seg_alive sg ! i" for i
    using assms(3) that by (auto simp: live_rows_def)
  have mem: "i \<in> set (concat (map (emitted_by sg view pred pol) L)) \<longleftrightarrow> unat i < segment_len sg \<and>
      dup_of sg ! unat i \<in> reached rb sg lanes d view \<and>
      row_matches (seg_row sg (unat (dup_of sg ! unat i))) view \<and> member_ok sg pred pol i" for i
    using emitted_by_rows(2) [OF assms(1) leaders] assms(5) by auto
  have lane: "dup_of sg ! unat i \<in> reached rb sg lanes d view \<longleftrightarrow> lane_on lanes (seg_class sg ! unat i)"
    if "unat i < segment_len sg" "row_matches (seg_row sg (unat (dup_of sg ! unat i))) view" "seg_alive sg ! unat i" for i :: u32
    using leader_reached [OF assms(1,2) group(1) [OF that(1)] _ that(2)] probed [OF that(1,3)] group [OF that(1)] by simp
  show "set (concat (map (emitted_by sg view pred pol) L)) = {i. unat i < segment_len sg \<and> seg_alive sg ! unat i \<and>
       selected lanes view pred pol (seg_row sg (unat i), seg_class sg ! unat i)}"
    using lane group(3) by (intro set_eqI) (simp only: mem mem_Collect_eq selected_def member_ok_def fst_conv snd_conv, blast)
qed

lemma selected_ids:
  fixes E :: "u32 list"
  assumes "seg_inv rb d sg" "distinct E" "set E = {i. unat i < segment_len sg \<and> seg_alive sg ! unat i \<and>
       Q (seg_row sg (unat i), seg_class sg ! unat i)}"
  shows "mset (map (\<lambda>i. row_logical (seg_row sg (unat i))) E) = mset (map (row_logical \<circ> fst) (filter Q (live_rows sg)))"
proof -
  let ?n = "segment_len sg"
  let ?K = "filter (\<lambda>i. seg_alive sg ! i \<and> Q (seg_row sg i, seg_class sg ! i)) [0..<?n]"
  have small: "unat (of_nat i :: u32) = i" if "i < ?n" for i
    using assms(1) that by (intro unat_row) (simp add: seg_inv_def seg_columns_def)
  have "inj_on (of_nat :: nat \<Rightarrow> u32) (set ?K)" by (rule inj_on_inverseI [of _ unat]) (auto simp: small)
  then have "distinct (map (of_nat :: nat \<Rightarrow> u32) ?K)" by (simp add: distinct_map)
  moreover have "set (map (of_nat :: nat \<Rightarrow> u32) ?K) = set E"
  proof -
    have "i \<in> of_nat ` {k. k < ?n \<and> seg_alive sg ! k \<and> Q (seg_row sg k, seg_class sg ! k)} \<longleftrightarrow> i \<in> set E" for i :: u32
    proof
      assume "i \<in> set E"
      then show "i \<in> of_nat ` {k. k < ?n \<and> seg_alive sg ! k \<and> Q (seg_row sg k, seg_class sg ! k)}"
        by (intro image_eqI [of _ _ "unat i"]) (simp_all add: assms(3))
    qed (auto simp: assms(3) small)
    then show ?thesis by auto
  qed
  ultimately have "mset E = mset (map of_nat ?K)" 
    using set_eq_iff_mset_eq_distinct [OF assms(2), of "map of_nat ?K"] by blast
  then have "mset (map (\<lambda>i. row_logical (seg_row sg (unat i))) E) =
      mset (map (\<lambda>i. row_logical (seg_row sg (unat i))) (map (of_nat :: nat \<Rightarrow> u32) ?K))"
    by (simp only: mset_map)
  also have "map (\<lambda>i. row_logical (seg_row sg (unat i))) (map (of_nat :: nat \<Rightarrow> u32) ?K) = map (\<lambda>k. row_logical (seg_row sg k)) ?K"
    by (auto simp: small)
  also have "map (\<lambda>k. row_logical (seg_row sg k)) ?K = map (row_logical \<circ> fst) (filter Q (live_rows sg))"
    by (simp add: live_rows_def filter_map comp_def conj_commute)
  finally show ?thesis .
qed

context exhaustive_sink
begin

lemma match_collect_exact:
  assumes "seg_inv rb d sg" "title_ok d view" "\<forall>(r, c) \<in> set (live_rows sg). row_probed view r"
    and "length (ms_seen s) = segment_len sg" "epoch \<notin> set (ms_seen s)" "\<not> armed (ms_poll s)"
  shows "\<exists>s' ids. match_collect rb sink sg view d epoch lanes pred pol s = Some (Go s') \<and>
    ms_coll s' = fold on_match ids (ms_coll s) \<and>
    mset ids = mset (map (row_logical \<circ> fst) (filter (selected lanes view pred pol) (live_rows sg)))"
proof -
  have "pass_state on_match sg view pred pol epoch (ms_coll s) [] s"
    using assms(4-6) by (auto simp: pass_state_def emit_ids_def in_set_conv_nth)
  from visitsD [OF match_collect_visits [OF assms(1)] this, of d lanes] obtain L s' where
    run: "match_collect rb sink sg view d epoch lanes pred pol s = Some (Go s')"
    and st: "pass_state on_match sg view pred pol epoch (ms_coll s) L s'" and L: "set L = reached rb sg lanes d view"
    by auto
  let ?E = "concat (map (emitted_by sg view pred pol) L)"
  have "distinct L" using st by (simp add: pass_state_def)
  from selected_ids [OF assms(1) emitted_rows [OF assms(1-3) this L]]
  have "mset (map (\<lambda>i. row_logical (seg_row sg (unat i))) ?E) =
      mset (map (row_logical \<circ> fst) (filter (selected lanes view pred pol) (live_rows sg)))" .
  then show ?thesis using run st by (auto simp: pass_state_def emit_ids_def)
qed

end

end
