(* ===== verification/Segment_Lifecycle.thy ===== *)
theory Segment_Lifecycle
  imports Segment_Reanchor_Correct Segment_Match_Correct
begin

text \<open>
  The life of the segments of one engine: the dictionary they share grows, queries
  are added to an unsealed segment, rows are deleted, segments are sealed and
  merged, in any order. Every state that is reached satisfies the invariants that
  matching relies on, under the dictionary of that moment.
\<close>

section \<open>The shared dictionary\<close>

inductive dict_step :: "desc_sort \<Rightarrow> dict \<Rightarrow> dict \<Rightarrow> bool" for srt where
  interned: "length (names d) < 2 ^ 31 \<Longrightarrow> dict_step srt d (snd (intern n k d))"
| bumped: "bump_freq f d = Some d' \<Longrightarrow> dict_step srt d d'"
| finalized: "dict_step srt d (finalize_mask srt d)"
| equivalenced: "dict_step srt d (set_equivalences e d)"

text \<open>No mask bit is assigned before the one finalization.\<close>

definition dict_ok :: "dict \<Rightarrow> bool" where
  "dict_ok d \<longleftrightarrow> dict_inv d \<and> (\<not> Feature_Dict.finalized d \<longrightarrow> (\<forall>f. mask_bit d f = NO_MASK_BIT))"

lemma dict_ok_new: "dict_ok dict_new"
  by (simp add: dict_ok_def) (simp add: dict_new_def mask_bit_def)

lemma intern_mask:
  assumes "dict_inv d"
  shows "mask_bit (snd (intern n k d)) f = mask_bit d f \<and> Feature_Dict.finalized (snd (intern n k d)) = Feature_Dict.finalized d"
  using dict_inv_lengths(3) [OF assms]
  by (auto simp: intern_def Let_def mask_bit_def nth_append less_Suc_eq split: option.split)

lemma dict_step_ok:
  assumes "dict_step srt d d'" "sorts_descending srt" "dict_ok d"
  shows "dict_ok d' \<and> mask_extends d d'"
  using assms(1)
proof cases
  case (interned n k)
  then show ?thesis
    using assms(3) intern_inv [OF _ _ surjective_pairing, of d n k] intern_mask [of d n k] by (simp add: dict_ok_def mask_extends_def)
next
  case (bumped f)
  then show ?thesis using assms(3) by (auto simp: bump_freq_def dict_ok_def dict_inv_def mask_bit_def mask_extends_def split: if_splits)
next
  case finalized
  have fin: "Feature_Dict.finalized (finalize_mask srt d)" by (simp add: finalize_mask_def Let_def)
  then have "dict_ok (finalize_mask srt d)" using finalize_mask_inv [OF _ assms(2)] assms(3) by (simp add: dict_ok_def)
  moreover have "mask_extends d (finalize_mask srt d)"
    using assms(3) by (cases "Feature_Dict.finalized d") (simp_all add: finalize_mask_def dict_ok_def mask_extends_def)
  ultimately show ?thesis using finalized by simp
next
  case (equivalenced e)
  then show ?thesis using assms(3) by (auto simp: set_equivalences_def dict_ok_def dict_inv_def mask_bit_def mask_extends_def split: if_splits)
qed

section \<open>The segments\<close>

record 'bm shelf =
  shelf_dict :: dict
  shelf_segments :: "'bm segment list"

text \<open>What the compiler and the capacity of a segment guarantee of a query that is added.\<close>

definition storable :: "extracted \<Rightarrow> stored_row \<Rightarrow> 'bm segment \<Rightarrow> bool" where
  "storable ex r sg \<longleftrightarrow> column_overflow ex = None \<and> wf_extracted ex \<and> distinct (required ex) \<and>
     store_room r (seg_exact sg) \<and> Suc (segment_len sg) < 2 ^ 32"

definition mergeable :: "'bm segment list \<Rightarrow> bool" where
  "mergeable sources \<longleftrightarrow> rows_room (map fst (concat (map live_rows sources)))"

inductive shelf_step :: "'bm roaring \<Rightarrow> desc_sort \<Rightarrow> 'bm shelf \<Rightarrow> 'bm shelf \<Rightarrow> bool" for rb srt where
  learn: "dict_step srt d d' \<Longrightarrow>
    shelf_step rb srt \<lparr>shelf_dict = d, shelf_segments = sgs\<rparr> \<lparr>shelf_dict = d', shelf_segments = sgs\<rparr>"
| open_segment: "shelf_step rb srt \<lparr>shelf_dict = d, shelf_segments = sgs\<rparr> \<lparr>shelf_dict = d, shelf_segments = sgs @ [segment_new]\<rparr>"
| add: "i < length sgs \<Longrightarrow> unsealed (sgs ! i) \<Longrightarrow> storable ex (row_of ex tags d ver logical prio pl gen) (sgs ! i) \<Longrightarrow>
    add_compiled_with_source_generation rb ex tags d logical ver prio pl gen knobs (sgs ! i) = Some (added, sg) \<Longrightarrow>
    shelf_step rb srt \<lparr>shelf_dict = d, shelf_segments = sgs\<rparr> \<lparr>shelf_dict = d, shelf_segments = sgs[i := sg]\<rparr>"
| delete: "i < length sgs \<Longrightarrow> tombstone row (sgs ! i) = Some sg \<Longrightarrow>
    shelf_step rb srt \<lparr>shelf_dict = d, shelf_segments = sgs\<rparr> \<lparr>shelf_dict = d, shelf_segments = sgs[i := sg]\<rparr>"
| seal: "i < length sgs \<Longrightarrow> build_filter (sgs ! i) = Some sg \<Longrightarrow>
    shelf_step rb srt \<lparr>shelf_dict = d, shelf_segments = sgs\<rparr> \<lparr>shelf_dict = d, shelf_segments = sgs[i := sg]\<rparr>"
| compact: "mset sgs = mset (kept @ sources) \<Longrightarrow> mergeable sources \<Longrightarrow> compact_from rb sources = Some sg \<Longrightarrow>
    shelf_step rb srt \<lparr>shelf_dict = d, shelf_segments = sgs\<rparr> \<lparr>shelf_dict = d, shelf_segments = kept @ [sg]\<rparr>"
| reanchor: "mset sgs = mset (kept @ sources) \<Longrightarrow> mergeable sources \<Longrightarrow>
    compact_from_reanchored rb sources d theta max_moves = Some (sg, stats) \<Longrightarrow>
    shelf_step rb srt \<lparr>shelf_dict = d, shelf_segments = sgs\<rparr> \<lparr>shelf_dict = d, shelf_segments = kept @ [sg]\<rparr>"

inductive reachable :: "'bm roaring \<Rightarrow> desc_sort \<Rightarrow> 'bm shelf \<Rightarrow> bool" for rb srt where
  start: "reachable rb srt \<lparr>shelf_dict = dict_new, shelf_segments = []\<rparr>"
| moves: "reachable rb srt s \<Longrightarrow> shelf_step rb srt s s' \<Longrightarrow> reachable rb srt s'"

section \<open>The invariant\<close>

text \<open>
  A segment is sound for the dictionary it lives under and for every later one, and
  its rows can be planned again.
\<close>

definition segment_ok :: "'bm roaring \<Rightarrow> dict \<Rightarrow> 'bm segment \<Rightarrow> bool" where
  "segment_ok rb d sg \<longleftrightarrow> (\<forall>d'. dict_inv d' \<and> mask_extends d d' \<longrightarrow> seg_inv rb d' sg) \<and>
     (\<forall>(r, c) \<in> set (live_rows sg). row_anchored d r)"

definition shelf_inv :: "'bm roaring \<Rightarrow> 'bm shelf \<Rightarrow> bool" where
  "shelf_inv rb s \<longleftrightarrow> dict_ok (shelf_dict s) \<and> (\<forall>sg \<in> set (shelf_segments s). segment_ok rb (shelf_dict s) sg)"

lemma segment_ok_inv: "segment_ok rb d sg \<Longrightarrow> dict_inv d' \<Longrightarrow> mask_extends d d' \<Longrightarrow> seg_inv rb d' sg"
  by (simp add: segment_ok_def)

lemma segment_ok_later: "segment_ok rb d sg \<Longrightarrow> mask_extends d d' \<Longrightarrow> segment_ok rb d' sg"
  using mask_extends_trans row_anchored_extends unfolding segment_ok_def by blast

lemma live_rows_new [simp]: "live_rows segment_new = []"
  by (simp add: live_rows_def segment_new_def segment_len_def) (simp add: store_len_def store_new_def)

lemma segment_ok_new: "roaring_ok rb \<Longrightarrow> segment_ok rb d segment_new"
  unfolding segment_ok_def using segment_new_inv by auto

lemma segment_ok_add:
  assumes "segment_ok rb d sg" "dict_inv d" "unsealed sg" "storable ex (row_of ex tags d ver logical prio pl gen) sg"
    and "add_compiled_with_source_generation rb ex tags d logical ver prio pl gen knobs sg = Some (added, sg')"
  shows "segment_ok rb d sg'"
proof (cases "rejects_class_d (sig_class (visible_plan ex d pl knobs)) ex (accept_class_d knobs)")
  case True
  then show ?thesis using assms(1,5) by (simp add: add_compiled_with_source_generation_def)
next
  case False
  let ?r = "row_of ex tags d ver logical prio pl gen"
  have stored: "\<exists>c. row_added rb d' sg ?r c sg'" if "dict_inv d'" "mask_extends d d'" for d'
    using add_compiled_inv [OF segment_ok_inv [OF assms(1) that] assms(3) that(2) _ _ _ _ _ False, of tags ver logical prio gen]
      assms(4,5)
    by (auto simp: storable_def)
  obtain c where "live_rows sg' = live_rows sg @ [(?r, c)]"
    using stored [OF assms(2)] by (auto simp: row_added_def)
  moreover have "row_anchored d ?r"
    using row_anchored_compiled [OF assms(2)] assms(4) by (simp add: storable_def)
  ultimately show ?thesis using stored assms(1) by (auto simp: segment_ok_def row_added_def)
qed

lemma segment_ok_tombstone:
  assumes "segment_ok rb d sg" "dict_inv d" "tombstone row sg = Some sg'"
  shows "segment_ok rb d sg'"
proof -
  have "set (live_rows sg') \<subseteq> set (live_rows sg)"
    using tombstone_inv [OF segment_ok_inv [OF assms(1,2) mask_extends_refl], of row] assms(3) by (auto split: if_splits)
  moreover have "seg_inv rb d' sg'" if "dict_inv d'" "mask_extends d d'" for d'
    using tombstone_inv [OF segment_ok_inv [OF assms(1) that], of row] assms(3) by auto
  ultimately show ?thesis using assms(1) by (auto simp: segment_ok_def)
qed

lemma segment_ok_seal:
  assumes "segment_ok rb d sg" "dict_inv d" "build_filter sg = Some sg'"
  shows "segment_ok rb d sg'"
proof -
  have "seg_inv rb d' sg' \<and> live_rows sg' = live_rows sg" if "dict_inv d'" "mask_extends d d'" for d'
    using build_filter_inv [OF segment_ok_inv [OF assms(1) that]] assms(3) by auto
  then show ?thesis using assms(1,2) unfolding segment_ok_def by (metis mask_extends_refl)
qed

text \<open>Both merges keep the rows, so what holds of every live row of the sources holds of the result.\<close>

lemma same_rows_all:
  assumes "list_all2 (\<lambda>(r, c) (r', c'). r' = r \<and> R c c') xs ys" "\<forall>(r, c) \<in> set xs. P r"
  shows "\<forall>(r, c) \<in> set ys. P r"
  using assms by (induction rule: list_all2_induct) auto

lemma segment_ok_merge:
  assumes "\<And>src. src \<in> set sources \<Longrightarrow> segment_ok rb d src" "dict_inv d"
    and "\<And>d'. dict_inv d' \<Longrightarrow> mask_extends d d' \<Longrightarrow> seg_inv rb d' sg \<and>
      list_all2 (\<lambda>(r, c) (r', c'). r' = r \<and> R c c') (concat (map live_rows sources)) (live_rows sg)"
  shows "segment_ok rb d sg"
proof -
  have "\<forall>(r, c) \<in> set (concat (map live_rows sources)). row_anchored d r"
    using assms(1) by (fastforce simp: segment_ok_def)
  then have "\<forall>(r, c) \<in> set (live_rows sg). row_anchored d r"
    using same_rows_all assms(3) [OF assms(2) mask_extends_refl] by blast
  then show ?thesis using assms(3) by (simp add: segment_ok_def)
qed

lemma segment_ok_compact:
  assumes "roaring_ok rb" "\<And>src. src \<in> set sources \<Longrightarrow> segment_ok rb d src" "dict_inv d" "mergeable sources"
    and "compact_from rb sources = Some sg"
  shows "segment_ok rb d sg"
proof (rule segment_ok_merge [OF assms(2,3)])
  fix d' assume later: "dict_inv d'" "mask_extends d d'"
  show "seg_inv rb d' sg \<and> list_all2 (\<lambda>(r, c) (r', c'). r' = r \<and> is_opt_in c' = is_opt_in c)
      (concat (map live_rows sources)) (live_rows sg)"
    using compact_from_inv [OF assms(1) segment_ok_inv [OF assms(2) later], of sources] assms(4,5)
    by (simp add: mergeable_def)
qed

lemma segment_ok_reanchor:
  assumes "roaring_ok rb" "\<And>src. src \<in> set sources \<Longrightarrow> segment_ok rb d src" "dict_inv d" "mergeable sources"
    and "compact_from_reanchored rb sources d theta max_moves = Some (sg, stats)"
  shows "segment_ok rb d sg"
proof (rule segment_ok_merge [OF assms(2,3)])
  have "\<forall>(r, c) \<in> set (concat (map live_rows sources)). row_anchored d r"
    using assms(2) by (fastforce simp: segment_ok_def)
  then show "seg_inv rb d' sg \<and> list_all2 (\<lambda>(r, c) (r', c'). r' = r \<and> keeps_visible c c')
      (concat (map live_rows sources)) (live_rows sg)" if "dict_inv d'" "mask_extends d d'" for d'
    using compact_reanchored_inv [OF assms(1) segment_ok_inv [OF assms(2) that] _ assms(3) that(2), of sources theta max_moves]
      assms(4,5) by (simp add: mergeable_def)
qed

lemma shelf_step_inv:
  assumes "roaring_ok rb" "sorts_descending srt" "shelf_step rb srt s s'" "shelf_inv rb s"
  shows "shelf_inv rb s'"
  using assms(3)
proof cases
  case (learn d d' sgs)
  then show ?thesis
    using assms(4) dict_step_ok [OF learn(3) assms(2)] by (auto simp: shelf_inv_def intro: segment_ok_later)
next
  case (open_segment d sgs)
  then show ?thesis using assms(4) segment_ok_new [OF assms(1)] by (auto simp: shelf_inv_def)
next
  case (add i sgs ex tags d ver logical prio pl gen knobs added sg)
  then have "segment_ok rb d sg"
    using assms(4) by (intro segment_ok_add [OF _ _ add(4-6)]) (auto simp: shelf_inv_def dict_ok_def)
  then show ?thesis using add assms(4) by (auto simp: shelf_inv_def dest!: set_update_subset_insert [THEN subsetD])
next
  case (delete i sgs row sg d)
  then have "segment_ok rb d sg"
    using assms(4) by (intro segment_ok_tombstone [OF _ _ delete(4)]) (auto simp: shelf_inv_def dict_ok_def)
  then show ?thesis using delete assms(4) by (auto simp: shelf_inv_def dest!: set_update_subset_insert [THEN subsetD])
next
  case (seal i sgs sg d)
  then have "segment_ok rb d sg"
    using assms(4) by (intro segment_ok_seal [OF _ _ seal(4)]) (auto simp: shelf_inv_def dict_ok_def)
  then show ?thesis using seal assms(4) by (auto simp: shelf_inv_def dest!: set_update_subset_insert [THEN subsetD])
next
  case (compact sgs kept sources sg d)
  have all: "set sgs = set kept \<union> set sources" using arg_cong [OF compact(3), of set_mset] by simp
  then have "segment_ok rb d sg"
    using compact assms(4) by (intro segment_ok_compact [OF assms(1) _ _ compact(4,5)]) (auto simp: shelf_inv_def dict_ok_def)
  then show ?thesis using compact assms(4) all by (auto simp: shelf_inv_def)
next
  case (reanchor sgs kept sources d theta max_moves sg stats)
  have all: "set sgs = set kept \<union> set sources" using arg_cong [OF reanchor(3), of set_mset] by simp
  then have "segment_ok rb d sg"
    using reanchor assms(4) by (intro segment_ok_reanchor [OF assms(1) _ _ reanchor(4,5)]) (auto simp: shelf_inv_def dict_ok_def)
  then show ?thesis using reanchor assms(4) all by (auto simp: shelf_inv_def)
qed

lemma reachable_inv:
  assumes "roaring_ok rb" "sorts_descending srt" "reachable rb srt s"
  shows "shelf_inv rb s"
  using assms(3)
proof induction
  case start
  then show ?case by (simp add: shelf_inv_def dict_ok_new)
qed (rule shelf_step_inv [OF assms(1,2)])

end
