(* ===== verification/Segment_Match_Total.thy ===== *)
theory Segment_Match_Total
  imports Segment_Match_Correct
begin

text \<open>
  A matching pass returns whatever the collector and the deadline do: it neither
  panics nor runs forever, also when the collector stops it, observes candidates or
  polls, and when the deadline cancels it.
\<close>

section \<open>Steps that return\<close>

text \<open>\<open>yields n f\<close>: from a state with \<open>n\<close> stamps \<open>f\<close> returns one with \<open>n\<close> stamps.\<close>

definition yields :: "nat \<Rightarrow> ('c match_state \<Rightarrow> 'c match_state flow option) \<Rightarrow> bool" where
  "yields n f \<longleftrightarrow> (\<forall>s. length (ms_seen s) = n \<longrightarrow> (\<exists>r. f s = Some r \<and> length (ms_seen (flow_state r)) = n))"

lemma yieldsD: "yields n f \<Longrightarrow> length (ms_seen s) = n \<Longrightarrow> \<exists>r. f s = Some r \<and> length (ms_seen (flow_state r)) = n"
  by (simp add: yields_def)

named_theorems yield_intros \<open>steps that return, and how they compose\<close>

lemma yields_go [yield_intros]: "yields n (\<lambda>s. Some (Go s))"
  by (simp add: yields_def)

lemma yields_stop [yield_intros]: "yields n (stop_or_go sink)"
  by (simp add: yields_def stop_or_go_def)

lemma yields_poll [yield_intros]: "yields n poll_work"
  by (auto simp: yields_def poll_work_def split: prod.split)

lemma yields_bind [yield_intros]:
  assumes "yields n f" "yields n g"
  shows "yields n (\<lambda>s. flow_bind (f s) g)"
  unfolding yields_def
proof (intro allI impI)
  fix s :: "'a match_state"
  assume "length (ms_seen s) = n"
  then obtain r where r: "f s = Some r" "length (ms_seen (flow_state r)) = n" using yieldsD [OF assms(1)] by blast
  then show "\<exists>r. flow_bind (f s) g = Some r \<and> length (ms_seen (flow_state r)) = n"
    using yieldsD [OF assms(2)] by (cases r) auto
qed

lemma yields_if [yield_intros]: "yields n f \<Longrightarrow> yields n g \<Longrightarrow> yields n (\<lambda>s. if b then f s else g s)"
  by (cases b) simp_all

lemma each_unfold:
  "each_feature sink f [] = (\<lambda>s. Some (Go s))" "each_member sink g [] = (\<lambda>s. Some (Go s))"
  "each_feature sink f (x # xs) = (\<lambda>s. flow_bind (stop_or_go sink s) (\<lambda>s. flow_bind (poll_work s)
     (\<lambda>s. flow_bind (f x s) (each_feature sink f xs))))"
  "each_member sink g (i # is) = (\<lambda>s. flow_bind (stop_or_go sink s) (\<lambda>s. flow_bind (poll_work s)
     (\<lambda>s. flow_bind (g i s) (each_member sink g is))))"
  by (simp_all add: fun_eq_iff)

lemma yields_each [yield_intros]:
  "(\<And>x. x \<in> set xs \<Longrightarrow> yields n (f x)) \<Longrightarrow> yields n (each_feature sink f xs)"
  by (induction xs) (simp_all add: each_unfold yields_go yields_stop yields_poll yields_bind)

lemma yields_members [yield_intros]:
  "(\<And>x. x \<in> set xs \<Longrightarrow> yields n (f x)) \<Longrightarrow> yields n (each_member sink f xs)"
  by (induction xs) (simp_all add: each_unfold yields_go yields_stop yields_poll yields_bind)

lemma yields_iterate:
  assumes "\<And>i. i \<in> set ids \<Longrightarrow> yields n (f i)" "length (ms_seen (flow_state r)) = n"
  shows "\<exists>r'. iterate_while (keep_visiting f) ids (Some r) = Some r' \<and> length (ms_seen (flow_state r')) = n"
  using assms
proof (induction ids arbitrary: r)
  case (Cons i ids)
  have "yields n (f i)" using Cons.prems(1) by simp
  then obtain r1 where r1: "flow_bind (Some r) (f i) = Some r1" "length (ms_seen (flow_state r1)) = n"
    using yieldsD [of n "f i" "flow_state r"] Cons.prems(2) by (cases r) auto
  then have "keep_visiting f i (Some r) = ((case r1 of Go _ \<Rightarrow> True | _ \<Rightarrow> False), Some r1)"
    by (simp add: keep_visiting_def split: flow.split)
  then show ?case using Cons.IH [of r1] Cons.prems(1) r1(2) by (cases r1) auto
qed simp

section \<open>One candidate\<close>

lemma yields_observe [yield_intros]:
  assumes "seg_columns sg" "unat i < segment_len sg"
  shows "yields n (observe_row sink sg i)"
  using read_rowD [OF read_seg_row [OF assms]] by (simp add: yields_def observe_row_def stop_or_go_def)

lemma yields_deliver [yield_intros]:
  assumes "seg_columns sg" "unat i < segment_len sg"
  shows "yields n (deliver_row sink sg i)"
  using read_rowD [OF read_seg_row [OF assms]]
  by (auto simp: yields_def deliver_row_def collect_match_at_def split: prod.split)

lemma seg_alive_at:
  "seg_columns sg \<Longrightarrow> unat i < segment_len sg \<Longrightarrow> at_index (seg_alive sg) (unat i) = Some (seg_alive sg ! unat i)"
  by (simp add: seg_columns_def at_index_def)

lemma yields_observe_alive [yield_intros]:
  assumes "seg_columns sg" "unat i < segment_len sg"
  shows "yields n (observe_alive sink sg i)"
  unfolding observe_alive_def [abs_def] by (simp add: seg_alive_at [OF assms] yield_intros assms)

lemma yields_emit [yield_intros]:
  assumes "seg_columns sg" "unat i < segment_len sg"
  shows "yields n (emit_member sink sg pred pol i)"
  unfolding emit_member_def [abs_def] by (simp add: member_passes_ok [OF assms] yield_intros assms)

lemma yields_row [yield_intros]:
  assumes "seg_columns sg" "unat i < segment_len sg"
  shows "yields n (visit_row sink sg view pred pol i)"
proof -
  have "placement_of (seg_exact sg) i = Some (row_placement (seg_row sg (unat i)))"
    using read_rowD [OF read_seg_row [OF assms]] by (simp add: placement_of_def)
  moreover note store_verify_usable [OF read_seg_row [OF assms] seg_row_usable [OF assms], of view pred]
  ultimately have ok: "\<exists>b. and_also (store_verify (seg_exact sg) i view pred)
      (map_option (should_emit pol) (placement_of (seg_exact sg) i)) = Some b"
    using and_also_total by fastforce
  then show ?thesis
    unfolding visit_row_def [abs_def] by (auto simp: seg_alive_at [OF assms] intro!: yield_intros assms)
qed

lemma yields_group [yield_intros]:
  assumes "seg_columns sg" "unat i < segment_len sg" "\<forall>m \<in> set (members_of sg i). unat m < segment_len sg"
  shows "yields n (visit_group sink sg view pred pol i)"
proof -
  note verify = store_verify_usable [OF read_seg_row [OF assms(1,2)] seg_row_usable [OF assms(1,2)], of view "[]"]
  show ?thesis
    unfolding visit_group_def [abs_def] Let_def verify seg_alive_at [OF assms(1,2)]
    using assms by (auto intro!: yield_intros)
qed

lemma yields_visit:
  fixes sink :: "'c match_sink"
  assumes "seg_inv rb d sg" "unat i < segment_len sg"
  shows "yields (segment_len sg) (visit sink sg lane epoch view pred pol i)"
proof -
  note inv = seg_invD [OF assms(1)]
  let ?mark = "\<lambda>s. s\<lparr>ms_seen := (ms_seen s)[unat i := epoch], ms_stats := count_candidate lane (ms_stats s)\<rparr>"
  let ?go = "\<lambda>s. if has_dup_groups sg then visit_group sink sg view pred pol i s else visit_row sink sg view pred pol i s"
  have members: "\<forall>m \<in> set (members_of sg i). unat m < segment_len sg" using inv by (simp add: seg_groups_def)
  have go: "yields (segment_len sg) ?go" using inv assms(2) members by (intro yields_if yield_intros) blast+
  have "yields (segment_len sg) (\<lambda>s. do { stamp \<leftarrow> at_index (ms_seen s) (unat i);
      if stamp = epoch then Some (Go s) else let s = ?mark s in ?go s })"
    unfolding yields_def
  proof (intro allI impI)
    fix s :: "'c match_state"
    assume s: "length (ms_seen s) = segment_len sg"
    then show "\<exists>r. do { stamp \<leftarrow> at_index (ms_seen s) (unat i);
        if stamp = epoch then Some (Go s) else let s = ?mark s in ?go s } = Some r \<and>
      length (ms_seen (flow_state r)) = segment_len sg"
      using yieldsD [OF go, of "?mark s"] assms(2) by (simp add: at_index_def Let_def)
  qed
  then show ?thesis unfolding visit_def [abs_def] by (intro yields_bind yields_stop yields_poll)
qed

section \<open>The pass\<close>

lemma yields_probe:
  fixes sink :: "'c match_sink"
  assumes "seg_inv rb d sg" "ix \<in> {seg_main sg, seg_broad sg, seg_hot sg}"
  shows "yields (segment_len sg) (probe rb sink sg ix lane epoch view pred pol key)"
  unfolding yields_def
proof (intro allI impI)
  fix s :: "'c match_state"
  assume s: "length (ms_seen s) = segment_len sg"
  show "\<exists>r. probe rb sink sg ix lane epoch view pred pol key s = Some r \<and> length (ms_seen (flow_state r)) = segment_len sg"
  proof (cases "index_get ix key")
    case None
    then show ?thesis using s by (simp add: probe_def)
  next
    case (Some p)
    have "yields (segment_len sg) (visit sink sg lane epoch view pred pol i)" if "i \<in> set (posting_ids rb p)" for i
    proof (rule yields_visit [OF assms(1)])
      have "i \<in> index_reach rb ix key" using that Some by (simp add: index_reach_def)
      then show "unat i < segment_len sg"
        using seg_invD [OF assms(1)] assms(2) unfolding seg_lanes_def is_leader_def by blast
    qed
    from yields_iterate [where f = "visit sink sg lane epoch view pred pol" and ids = "posting_ids rb p", OF this,
        where r = "Go (s\<lparr>ms_stats := count_postings lane (posting_len rb p) (ms_stats s)\<rparr>)"] s
    obtain r where "iterate_while (keep_visiting (visit sink sg lane epoch view pred pol)) (posting_ids rb p)
        (Some (Go (s\<lparr>ms_stats := count_postings lane (posting_len rb p) (ms_stats s)\<rparr>))) = Some r"
      "length (ms_seen (flow_state r)) = segment_len sg" by auto
    then show ?thesis using Some by (cases r) (simp_all add: probe_def for_each_while_def Let_def)
  qed
qed

lemma filter_skips_total:
  assumes "seg_inv rb d sg" shows "\<exists>b. filter_skips sg key = Some b"
proof (cases "seg_filter sg")
  case (Some f)
  then have f: "filter_build (index_keys (seg_main sg) @ index_keys (seg_broad sg) @ index_keys (seg_hot sg)) = Some f"
    using seg_invD [OF assms] by (simp add: seg_seals_def)
  then show ?thesis using bloom.query_total [OF f, of key] Some by (auto simp: filter_skips_def)
qed (auto simp: filter_skips_def)

lemma yields_probe_unless_skipped:
  fixes sink :: "'c match_sink"
  assumes "seg_inv rb d sg" "ix \<in> {seg_main sg, seg_broad sg, seg_hot sg}"
  shows "yields (segment_len sg) (probe_unless_skipped rb sink sg ix lane epoch view pred pol key)"
  unfolding yields_def
proof (intro allI impI)
  fix s :: "'c match_state"
  assume s: "length (ms_seen s) = segment_len sg"
  obtain b where b: "filter_skips sg key = Some b" using filter_skips_total [OF assms(1)] by blast
  show "\<exists>r. probe_unless_skipped rb sink sg ix lane epoch view pred pol key s = Some r \<and>
      length (ms_seen (flow_state r)) = segment_len sg"
    using b s yieldsD [OF yields_probe [OF assms], of "s\<lparr>ms_stats := x\<rparr>" for x]
    by (simp add: probe_unless_skipped_def Let_def)
qed

lemma match_collect_total:
  assumes "seg_inv rb d sg"
  shows "yields (segment_len sg) (match_collect rb sink sg view d' epoch lanes pred pol)"
proof -
  note go = yields_probe_unless_skipped [OF assms]
  have singles: "yields (segment_len sg) (each_feature sink
      (\<lambda>f. probe_unless_skipped rb sink sg ix lane epoch view pred pol (sig_key [f])) xs)"
    if "ix \<in> {seg_main sg, seg_broad sg, seg_hot sg}" for ix lane xs
    using go [OF that] by (rule yields_each)
  let ?pairs = "\<lambda>h. if is_hot d' h then each_feature sink
      (\<lambda>f s. if f \<noteq> h then probe_unless_skipped rb sink sg (seg_main sg) MainLane epoch view pred pol (pair_key h f) s
        else Some (Go s)) (view_pos view)
    else (\<lambda>s. Some (Go s))"
  have "yields (segment_len sg) (?pairs h)" for h
    using go [of "seg_main sg"] by (cases "is_hot d' h") (auto intro!: yields_each yields_if yields_go)
  then have pairs: "yields (segment_len sg) (each_feature sink ?pairs (view_pos view))" by (intro yields_each)
  show ?thesis
    unfolding match_collect_def Let_def using go [of "seg_broad sg"]
    by (intro yields_bind yields_if singles pairs yields_stop yields_poll yields_go) simp_all
qed

end
