(* ===== verification/Top_K.thy ===== *)
theory Top_K
  imports Match_Collect
begin

text \<open>
  Bounded ranked collection (\<open>collect/top_k.rs\<close>, the ranked order of \<open>result.rs\<close>): a
  heap of at most \<open>k\<close> hits, an exclusive page boundary, and the per-title batch form.
  A scorer is a function of the title, the id and the sampler it is lent; its second
  result is true when the sampler reported cancellation.
\<close>

section \<open>The ranked order\<close>

datatype cmp_result = CmpLess | CmpEqual | CmpGreater

definition cmp_of :: "'a::linorder \<Rightarrow> 'a \<Rightarrow> cmp_result" where
  "cmp_of a b = (if a < b then CmpLess else if a = b then CmpEqual else CmpGreater)"

text \<open>Score descending, then id ascending.\<close>

definition ranked_order :: "int \<times> u64 \<Rightarrow> int \<times> u64 \<Rightarrow> cmp_result" where
  "ranked_order a b = (if cmp_of (fst b) (fst a) = CmpEqual then cmp_of (snd a) (snd b) else cmp_of (fst b) (fst a))"

definition ranked_beats :: "int \<times> u64 \<Rightarrow> int \<times> u64 \<Rightarrow> bool" where
  "ranked_beats a b \<longleftrightarrow> ranked_order a b = CmpLess"

datatype heap_hit = HeapHit (hit_id: u64) (hit_score: int)

abbreviation hit_rank :: "heap_hit \<Rightarrow> int \<times> u64" where
  "hit_rank h \<equiv> (hit_score h, hit_id h)"

lemma ranked_beats_iff: "ranked_beats a b \<longleftrightarrow> fst b < fst a \<or> fst b = fst a \<and> snd a < snd b"
  by (auto simp: ranked_beats_def ranked_order_def cmp_of_def)

text \<open>\<open>Ord\<close> for the hits of the heap: the greatest hit is the worst one.\<close>

instantiation heap_hit :: linorder
begin

definition less_eq_heap_hit :: "heap_hit \<Rightarrow> heap_hit \<Rightarrow> bool" where
  "less_eq_heap_hit a b \<longleftrightarrow> ranked_order (hit_rank a) (hit_rank b) \<noteq> CmpGreater"

definition less_heap_hit :: "heap_hit \<Rightarrow> heap_hit \<Rightarrow> bool" where
  "less_heap_hit a b \<longleftrightarrow> ranked_order (hit_rank a) (hit_rank b) = CmpLess"

instance
proof
  fix a b c :: heap_hit
  have le: "x \<le> y \<longleftrightarrow> hit_score y < hit_score x \<or> hit_score y = hit_score x \<and> hit_id x \<le> hit_id y" for x y :: heap_hit
    by (auto simp: less_eq_heap_hit_def ranked_order_def cmp_of_def)
  show "a < b \<longleftrightarrow> a \<le> b \<and> \<not> b \<le> a" unfolding le by (auto simp: less_heap_hit_def ranked_order_def cmp_of_def)
  show "a \<le> a" "a \<le> b \<Longrightarrow> b \<le> c \<Longrightarrow> a \<le> c" "a \<le> b \<or> b \<le> a" unfolding le by auto
  show "a \<le> b \<Longrightarrow> b \<le> a \<Longrightarrow> a = b" unfolding le by (auto intro: heap_hit.expand)
qed

end

lemma beats_less: "ranked_beats (hit_rank a) (hit_rank b) \<longleftrightarrow> a < b"
  by (simp add: ranked_beats_def less_heap_hit_def)

definition better :: "heap_hit \<Rightarrow> heap_hit \<Rightarrow> bool" where
  "better candidate worst \<longleftrightarrow> ranked_beats (hit_rank candidate) (hit_rank worst)"

section \<open>The heap\<close>

text \<open>The binary heap of the standard library: only its greatest element is observable.\<close>

definition heap_peek :: "heap_hit list \<Rightarrow> heap_hit option" where
  "heap_peek h = (if h = [] then None else Some (Max (set h)))"

definition heap_pop :: "heap_hit list \<Rightarrow> heap_hit option \<times> heap_hit list" where
  "heap_pop h = (case heap_peek h of None \<Rightarrow> (None, h) | Some w \<Rightarrow> (Some w, remove1 w h))"

section \<open>The bounded state\<close>

type_synonym topk_scorer = "nat \<Rightarrow> u64 \<Rightarrow> deadline_poll \<Rightarrow> int option \<times> bool \<times> deadline_poll"

definition plain_scorer :: "(nat \<Rightarrow> u64 \<Rightarrow> int) \<Rightarrow> topk_scorer" where
  "plain_scorer f = (\<lambda>title logical p. (Some (f title logical), False, p))"

record topk_state =
  topk_k :: nat
  topk_after :: "(int \<times> u64) option"
  topk_heap :: "heap_hit list"
  topk_ids :: "u64 set"
  topk_winners :: "(u64 \<times> int) list"
  topk_totals :: total_tracker
  topk_emissions :: u64
  topk_evaluations :: u64
  topk_replacements :: u64

definition topk_new :: "nat \<Rightarrow> nat \<Rightarrow> (int \<times> u64) option \<Rightarrow> topk_state" where
  "topk_new k threshold after =
     \<lparr>topk_k = k, topk_after = after, topk_heap = [], topk_ids = {}, topk_winners = [],
      topk_totals = tracker_new threshold, topk_emissions = 0, topk_evaluations = 0, topk_replacements = 0\<rparr>"

text \<open>A scored hit: the boundary gate, then room in the heap, then replacement of the worst.\<close>

definition topk_retain :: "heap_hit \<Rightarrow> topk_state \<Rightarrow> topk_state" where
  "topk_retain hit st =
     (if (case topk_after st of None \<Rightarrow> False | Some after \<Rightarrow> \<not> ranked_beats after (hit_rank hit)) then st
      else if length (topk_heap st) < topk_k st
      then st\<lparr>topk_heap := hit # topk_heap st, topk_ids := insert (hit_id hit) (topk_ids st)\<rparr>
      else if (case heap_peek (topk_heap st) of None \<Rightarrow> False | Some worst \<Rightarrow> better hit worst)
      then (case heap_pop (topk_heap st) of (removed, heap) \<Rightarrow>
        st\<lparr>topk_replacements := saturating_add (topk_replacements st) 1,
           topk_heap := hit # heap,
           topk_ids := insert (hit_id hit)
             (case removed of None \<Rightarrow> topk_ids st | Some r \<Rightarrow> topk_ids st - {hit_id r})\<rparr>)
      else st)"

definition topk_observe :: "topk_scorer \<Rightarrow> nat \<Rightarrow> u64 \<Rightarrow> deadline_poll \<Rightarrow> topk_state \<Rightarrow> bool \<times> deadline_poll \<times> topk_state" where
  "topk_observe scorer title logical p st =
     (let st = st\<lparr>topk_emissions := saturating_add (topk_emissions st) 1,
        topk_totals := tracker_observe logical (topk_totals st)\<rparr>
      in if topk_k st = 0 \<or> logical \<in> topk_ids st then (False, p, st)
      else let st = st\<lparr>topk_evaluations := saturating_add (topk_evaluations st) 1\<rparr>
      in case scorer title logical p of (score, late, p) \<Rightarrow>
        (late, p, case score of None \<Rightarrow> st | Some s \<Rightarrow> topk_retain (HeapHit logical s) st))"

definition topk_reset :: "topk_state \<Rightarrow> topk_state" where
  "topk_reset st = st\<lparr>topk_heap := [], topk_ids := {}, topk_winners := [], topk_totals := tracker_reset (topk_totals st),
     topk_emissions := 0, topk_evaluations := 0, topk_replacements := 0\<rparr>"

text \<open>Draining the heap and sorting the pairs by rank is sorting the hits.\<close>

definition topk_finish :: "topk_state \<Rightarrow> collection_summary \<times> topk_state" where
  "topk_finish st =
     (let winners = map (\<lambda>h. (hit_id h, hit_score h)) (sort (topk_heap st)); hits = tracker_total_hits (topk_totals st)
      in (\<lparr>retained = length winners, summary_total = hits, summary_emissions = topk_emissions st,
           summary_duplicates = exact_duplicates (topk_emissions st) hits\<rparr>,
          st\<lparr>topk_winners := winners, topk_heap := [], topk_ids := {}\<rparr>))"

record rank_stats =
  evaluations :: u64
  heap_replacements :: u64

definition topk_rank_stats :: "topk_state \<Rightarrow> rank_stats" where
  "topk_rank_stats st = \<lparr>evaluations = topk_evaluations st, heap_replacements = topk_replacements st\<rparr>"

section \<open>The collectors\<close>

definition topk_sink :: "topk_scorer \<Rightarrow> topk_state match_sink" where
  "topk_sink scorer = \<lparr>sink_observes = False, sink_candidate = (\<lambda>_ c. c),
     sink_deliver = (\<lambda>logical local_id p c. topk_observe scorer 0 logical p c), sink_stop = (\<lambda>_. False)\<rparr>"

text \<open>\<open>on_match\<close>, which lends a sampler that never fires.\<close>

definition topk_on_match :: "topk_scorer \<Rightarrow> u64 \<Rightarrow> topk_state \<Rightarrow> topk_state" where
  "topk_on_match scorer logical st = snd (snd (topk_observe scorer 0 logical no_deadline st))"

record topk_batch =
  batch_slots :: "topk_state list"
  batch_base :: nat

definition topk_batch_new :: "nat \<Rightarrow> nat \<Rightarrow> nat \<Rightarrow> nat \<Rightarrow> topk_batch" where
  "topk_batch_new titles k threshold base =
     \<lparr>batch_slots = replicate titles (topk_new k threshold None), batch_base = base\<rparr>"

definition topk_batch_on_match ::
  "topk_scorer \<Rightarrow> nat \<Rightarrow> u64 \<Rightarrow> deadline_poll \<Rightarrow> topk_batch \<Rightarrow> (bool \<times> deadline_poll \<times> topk_batch) option" where
  "topk_batch_on_match scorer title logical p b =
     do {
       slot \<leftarrow> at_index (batch_slots b) title;
       (case topk_observe scorer (min (batch_base b + title) (2 ^ 64 - 1)) logical p slot of (late, p, slot) \<Rightarrow>
          Some (late, p, b\<lparr>batch_slots := (batch_slots b)[title := slot]\<rparr>))
     }"

definition topk_batch_finish :: "topk_batch \<Rightarrow> collection_summary \<times> topk_batch" where
  "topk_batch_finish b =
     (let finished = map topk_finish (batch_slots b); sums = map fst finished;
          hit_count = fold (\<lambda>s v. saturating_add v (hits_value (summary_total s))) sums 0;
          emitted = fold (\<lambda>s e. saturating_add e (summary_emissions s)) sums 0;
          all_exact = list_all (\<lambda>s. hits_relation (summary_total s) = HitsEq) sums;
          hits = (if all_exact then hits_exact hit_count else hits_lower_bound hit_count)
      in (\<lparr>retained = min (sum_list (map retained sums)) (2 ^ 64 - 1), summary_total = hits, summary_emissions = emitted,
           summary_duplicates = exact_duplicates emitted hits\<rparr>, b\<lparr>batch_slots := map snd finished\<rparr>))"

definition topk_batch_abort :: "topk_batch \<Rightarrow> topk_batch" where
  "topk_batch_abort b = b\<lparr>batch_slots := map topk_reset (batch_slots b)\<rparr>"

section \<open>The best hits of a set\<close>

definition top_of :: "nat \<Rightarrow> 'a::linorder set \<Rightarrow> 'a set \<Rightarrow> bool" where
  "top_of k E W \<longleftrightarrow> W \<subseteq> E \<and> card W = min k (card E) \<and> (\<forall>w \<in> W. \<forall>e \<in> E - W. w < e)"

lemma top_of_full: "top_of k E W \<Longrightarrow> card W = k \<Longrightarrow> k \<le> card E"
  by (metis min.cobounded2 top_of_def)

lemma top_of_room:
  assumes "top_of k E W" "finite E" "card W < k" "h \<notin> W"
  shows "top_of k (insert h E) (insert h W)"
proof -
  have "W = E" using assms by (intro card_subset_eq) (auto simp: top_of_def)
  then show ?thesis using assms by (auto simp: top_of_def)
qed

lemma top_of_replace:
  assumes "top_of k E W" "finite E" "card W = k" "W \<noteq> {}" "h < Max W" "h \<notin> W"
  shows "top_of k (insert h E) (insert h (W - {Max W}))"
proof -
  have fin: "finite W" using assms(1,2) by (auto simp: top_of_def intro: finite_subset)
  then have W: "finite W" "Max W \<in> W" "\<And>w. w \<in> W \<Longrightarrow> w \<le> Max W" using assms(4) by simp_all
  have "h \<in> E \<Longrightarrow> Max W < h" using assms(1,6) W(2) by (simp add: top_of_def)
  then have "h \<notin> E" using assms(5) by auto
  have "Suc (card (W - {Max W})) = card W" using W(1,2) by (rule card_Suc_Diff1)
  then have "card (insert h (W - {Max W})) = k" using W(1) assms(3,6) by simp
  moreover have "k \<le> card E" using assms(1,3) by (rule top_of_full)
  moreover have "w < e" if "w \<in> insert h (W - {Max W})" "e \<in> insert h E - insert h (W - {Max W})" for w e
  proof (cases "e = Max W")
    case True
    then show ?thesis using that(1) W(3) assms(5) by (auto simp: order.strict_iff_order)
  next
    case False
    then have "e \<in> E - W" using that(2) by auto
    then show ?thesis using that(1) assms(1,5) W(2) by (auto simp: top_of_def intro: less_trans)
  qed
  moreover have "insert h (W - {Max W}) \<subseteq> insert h E" using assms(1) by (auto simp: top_of_def)
  ultimately show ?thesis unfolding top_of_def using assms(2) \<open>h \<notin> E\<close> by simp
qed

lemma top_of_keep:
  assumes "top_of k E W" "finite E" "card W = k" "W \<noteq> {}" "\<not> h < Max W" "h \<notin> W"
  shows "top_of k (insert h E) W"
proof -
  have "finite W" using assms(1,2) by (auto simp: top_of_def intro: finite_subset)
  then have "w < h" if "w \<in> W" for w using that assms(5,6) Max_ge [of W w] by (metis leI le_less order_trans)
  moreover have "k \<le> card (insert h E)" using top_of_full [OF assms(1,3)] card_insert_le [of E h] by linarith
  ultimately show ?thesis using assms(1,3) by (auto simp: top_of_def)
qed

lemma top_of_unique:
  assumes "top_of k E V" "top_of k E W" "finite E"
  shows "V = W"
proof (rule ccontr)
  have fin: "finite V" "finite W" "card V = card W" using assms by (auto simp: top_of_def intro: finite_subset)
  assume "V \<noteq> W"
  then obtain v w where "v \<in> V - W" "w \<in> W - V" using fin by (metis Diff_eq_empty_iff card_subset_eq ex_in_conv)
  then have "v < w" "w < v" using assms(1,2) by (auto simp: top_of_def)
  then show False by simp
qed

lemma top_of_take:
  assumes "finite E" shows "top_of k E (set (take k (sorted_list_of_set E)))"
proof -
  let ?xs = "sorted_list_of_set E"
  have xs: "distinct ?xs" "sorted ?xs" "set ?xs = E" "length ?xs = card E" using assms by simp_all
  have "x < y" if "x \<in> set (take k ?xs)" "y \<in> E - set (take k ?xs)" for x y
  proof -
    have "y \<in> set (drop k ?xs)" using that(2) xs(3) by (metis DiffE UnE append_take_drop_id set_append)
    moreover have "sorted (take k ?xs @ drop k ?xs)" using xs(2) by simp
    ultimately have "x \<le> y" using that(1) by (auto simp: sorted_append simp del: append_take_drop_id)
    moreover have "x \<noteq> y" using that by auto
    ultimately show ?thesis by simp
  qed
  then show ?thesis
    using xs set_take_subset [of k ?xs] distinct_card [of "take k ?xs"] by (auto simp: top_of_def min.commute)
qed

lemma sort_top_of:
  assumes "top_of k E (set hs)" "distinct hs" "finite E"
  shows "sort hs = take k (sorted_list_of_set E)"
  using top_of_unique [OF assms(1) top_of_take assms(3)] assms(2,3)
  by (intro sorted_distinct_set_unique) (auto intro: sorted_wrt_take)

section \<open>The heap keeps the best\<close>

text \<open>The hits a page may show: one per id, strictly after the boundary.\<close>

definition eligible :: "(u64 \<Rightarrow> int) \<Rightarrow> (int \<times> u64) option \<Rightarrow> u64 set \<Rightarrow> heap_hit set" where
  "eligible f after ids = {h \<in> (\<lambda>i. HeapHit i (f i)) ` ids.
     case after of None \<Rightarrow> True | Some boundary \<Rightarrow> ranked_beats boundary (hit_rank h)}"

lemma finite_eligible [simp]: "finite ids \<Longrightarrow> finite (eligible f after ids)"
  by (simp add: eligible_def)

definition heap_holds :: "heap_hit set \<Rightarrow> topk_state \<Rightarrow> bool" where
  "heap_holds E st \<longleftrightarrow> distinct (topk_heap st) \<and> topk_ids st = hit_id ` set (topk_heap st) \<and>
     top_of (topk_k st) E (set (topk_heap st))"

lemma retain_holds:
  assumes "heap_holds E st" "finite E" "0 < topk_k st" "inj_on hit_id (insert h E)" "hit_id h \<notin> topk_ids st"
    and "case topk_after st of None \<Rightarrow> True | Some boundary \<Rightarrow> ranked_beats boundary (hit_rank h)"
  shows "heap_holds (insert h E) (topk_retain h st)"
proof -
  let ?W = "set (topk_heap st)"
  have top: "top_of (topk_k st) E ?W" and dist: "distinct (topk_heap st)" and ids: "topk_ids st = hit_id ` ?W"
    using assms(1) by (simp_all add: heap_holds_def)
  have h: "h \<notin> ?W" and len: "length (topk_heap st) = card ?W" "card ?W \<le> topk_k st"
    using assms(5) ids dist top by (auto simp: distinct_card top_of_def)
  have gate: "\<not> (case topk_after st of None \<Rightarrow> False | Some after \<Rightarrow> \<not> ranked_beats after (hit_rank h))"
    using assms(6) by (auto split: option.splits)
  show ?thesis
  proof (cases "card ?W < topk_k st")
    case True
    then show ?thesis
      using gate len(1) dist ids h top_of_room [OF top assms(2)] by (simp add: topk_retain_def heap_holds_def)
  next
    case False
    then have full: "card ?W = topk_k st" "?W \<noteq> {}" using len(2) assms(3) by auto
    have "inj_on hit_id ?W" "Max ?W \<in> ?W"
      using assms(4) top full(2) by (auto simp: top_of_def intro: inj_on_subset)
    then have "hit_id ` ?W - {hit_id (Max ?W)} = hit_id ` (?W - {Max ?W})" by (auto simp: inj_on_def)
    then show ?thesis
      using gate full len(1) dist ids h top top_of_replace [OF top assms(2) full] top_of_keep [OF top assms(2) full]
      by (auto simp: topk_retain_def heap_holds_def heap_peek_def heap_pop_def better_def beats_less)
  qed
qed

lemma retain_fields [simp]:
  "topk_k (topk_retain h st) = topk_k st" "topk_after (topk_retain h st) = topk_after st"
  "topk_totals (topk_retain h st) = topk_totals st" "topk_emissions (topk_retain h st) = topk_emissions st"
  by (simp_all add: topk_retain_def heap_pop_def split: option.splits prod.splits)

lemma topk_on_match_plain:
  "topk_on_match (plain_scorer g) logical st =
     (let st = st\<lparr>topk_emissions := saturating_add (topk_emissions st) 1, topk_totals := tracker_observe logical (topk_totals st)\<rparr>
      in if topk_k st = 0 \<or> logical \<in> topk_ids st then st
      else topk_retain (HeapHit logical (g 0 logical)) (st\<lparr>topk_evaluations := saturating_add (topk_evaluations st) 1\<rparr>))"
  by (simp add: topk_on_match_def topk_observe_def plain_scorer_def Let_def)

lemma on_match_fields [simp]:
  "topk_k (topk_on_match (plain_scorer g) i st) = topk_k st"
  "topk_after (topk_on_match (plain_scorer g) i st) = topk_after st"
  "topk_totals (topk_on_match (plain_scorer g) i st) = tracker_observe i (topk_totals st)"
  "topk_emissions (topk_on_match (plain_scorer g) i st) = saturating_add (topk_emissions st) 1"
  by (simp_all add: topk_on_match_plain Let_def)

lemma inj_eligible: "inj_on hit_id (insert (HeapHit i (f i)) (eligible f after ids))"
  by (auto simp: inj_on_def eligible_def)

lemma on_match_holds:
  assumes "heap_holds (eligible (g 0) (topk_after st) ids) st" "finite ids"
  shows "heap_holds (eligible (g 0) (topk_after st) (insert i ids)) (topk_on_match (plain_scorer g) i st)"
proof -
  let ?E = "eligible (g 0) (topk_after st) ids" and ?h = "HeapHit i (g 0 i)"
  let ?st = "st\<lparr>topk_emissions := saturating_add (topk_emissions st) 1, topk_totals := tracker_observe i (topk_totals st)\<rparr>"
  let ?passes = "case topk_after st of None \<Rightarrow> True | Some boundary \<Rightarrow> ranked_beats boundary (hit_rank ?h)"
  have E: "eligible (g 0) (topk_after st) (insert i ids) = (if ?passes then insert ?h ?E else ?E)"
    by (auto simp: eligible_def split: option.splits)
  have fin: "finite ?E" using assms(2) by simp
  consider "topk_k st = 0" | "i \<in> topk_ids st" | "0 < topk_k st" "i \<notin> topk_ids st" by blast
  then show ?thesis
  proof cases
    case 1
    then show ?thesis using assms(1) fin E by (auto simp: topk_on_match_plain heap_holds_def top_of_def)
  next
    case 2
    then obtain h where "h \<in> ?E" "hit_id h = i" using assms(1) by (auto simp: heap_holds_def top_of_def)
    moreover from this have "h = ?h" by (auto simp: eligible_def)
    ultimately have "?h \<in> ?E" by simp
    then have "eligible (g 0) (topk_after st) (insert i ids) = ?E" using E by (simp add: insert_absorb)
    then show ?thesis using 2 assms(1) by (simp add: topk_on_match_plain heap_holds_def)
  next
    case 3
    have "heap_holds (if ?passes then insert ?h ?E else ?E) (topk_retain ?h (?st\<lparr>topk_evaluations := n\<rparr>))" for n
    proof (cases ?passes)
      case True
      then show ?thesis
        using retain_holds [of ?E "?st\<lparr>topk_evaluations := n\<rparr>" ?h] assms(1) fin 3 inj_eligible by (simp add: heap_holds_def)
    next
      case False
      then have "topk_retain ?h (?st\<lparr>topk_evaluations := n\<rparr>) = ?st\<lparr>topk_evaluations := n\<rparr>"
        by (auto simp: topk_retain_def split: option.splits)
      then show ?thesis using False assms(1) by (simp add: heap_holds_def)
    qed
    then show ?thesis using 3 E by (simp add: topk_on_match_plain Let_def)
  qed
qed

lemma fold_topk:
  fixes g :: "nat \<Rightarrow> u64 \<Rightarrow> int" and k threshold :: nat and after :: "(int \<times> u64) option"
  defines "run ids \<equiv> fold (topk_on_match (plain_scorer g)) ids (topk_new k threshold after)"
  shows "topk_k (run ids) = k \<and> topk_after (run ids) = after \<and> topk_totals (run ids) = fold tracker_observe ids (tracker_new threshold) \<and>
    topk_emissions (run ids) = fold (\<lambda>_ e. saturating_add e 1) ids 0 \<and> heap_holds (eligible (g 0) after (set ids)) (run ids)"
proof (induction ids rule: rev_induct)
  case Nil
  then show ?case by (simp add: run_def topk_new_def heap_holds_def top_of_def eligible_def)
next
  case (snoc i ids)
  then show ?case using on_match_holds [of g "run ids" "set ids" i] by (simp add: run_def)
qed

abbreviation hit_pair :: "heap_hit \<Rightarrow> u64 \<times> int" where
  "hit_pair h \<equiv> (hit_id h, hit_score h)"

abbreviation topk_page :: "(nat \<Rightarrow> u64 \<Rightarrow> int) \<Rightarrow> nat \<Rightarrow> nat \<Rightarrow> (int \<times> u64) option \<Rightarrow> u64 list \<Rightarrow> collection_summary \<times> topk_state" where
  "topk_page g k threshold after ids \<equiv> topk_finish (fold (topk_on_match (plain_scorer g)) ids (topk_new k threshold after))"

lemma topk_page_winners:
  "topk_winners (snd (topk_page g k threshold after ids)) =
     map hit_pair (take k (sorted_list_of_set (eligible (g 0) after (set ids))))"
proof -
  let ?st = "fold (topk_on_match (plain_scorer g)) ids (topk_new k threshold after)"
  have "heap_holds (eligible (g 0) after (set ids)) ?st" "topk_k ?st = k" using fold_topk [where g = g and k = k and threshold = threshold and after = after and ids = ids] by simp_all
  then have "sort (topk_heap ?st) = take k (sorted_list_of_set (eligible (g 0) after (set ids)))"
    by (intro sort_top_of) (auto simp: heap_holds_def)
  then show ?thesis by (simp add: topk_finish_def Let_def)
qed

lemma plain_topk_exhaustive: "exhaustive_sink (topk_sink (plain_scorer g)) (topk_on_match (plain_scorer g))"
  by unfold_locales (simp_all add: topk_sink_def topk_on_match_def topk_observe_def plain_scorer_def Let_def)

interpretation ranked: exhaustive_sink "topk_sink (plain_scorer g)" "topk_on_match (plain_scorer g)" for g
  by (rule plain_topk_exhaustive)

section \<open>Pages\<close>

lemma sorted_le_last: "sorted xs \<Longrightarrow> x \<in> set xs \<Longrightarrow> x \<le> last xs"
  by (induction xs) auto

lemma after_last:
  fixes E :: "'a::linorder set"
  assumes "finite E" "take k (sorted_list_of_set E) \<noteq> []"
  shows "sorted_list_of_set {e \<in> E. last (take k (sorted_list_of_set E)) < e} = drop k (sorted_list_of_set E)"
proof -
  let ?xs = "sorted_list_of_set E"
  let ?b = "last (take k ?xs)"
  have cut: "x < y" if "x \<in> set (take k ?xs)" "y \<in> set (drop k ?xs)" for x y
    using that sorted_wrt_append [of "(<)" "take k ?xs" "drop k ?xs"] strict_sorted_iff [of ?xs] by simp
  have low: "x \<le> ?b" if "x \<in> set (take k ?xs)" for x
    using that by (intro sorted_le_last) (auto intro: sorted_wrt_take)
  have "?b \<in> set (take k ?xs)" using assms(2) by (rule last_in_set)
  moreover have "E = set (take k ?xs) \<union> set (drop k ?xs)"
    using assms(1) set_append [of "take k ?xs" "drop k ?xs"] by simp
  ultimately have "{e \<in> E. ?b < e} = set (drop k ?xs)" using cut low by (auto simp: not_less [symmetric])
  then show ?thesis by (simp add: sorted_list_of_set.idem_if_sorted_distinct sorted_wrt_drop)
qed

text \<open>
  C9: Ranked collection is exact. Whatever the order and repetition of the emitted
  ids, the winners are the best \<open>k\<close> of the distinct ids strictly after the page
  boundary, in rank order: score descending, then id ascending. The boundary and the
  size leave the totals alone, which are those of the count-only collector.
\<close>

theorem topk_page_exact:
  "topk_winners (snd (topk_page g k threshold after ids)) =
     map hit_pair (take k (sorted_list_of_set (eligible (g 0) after (set ids)))) \<and>
   fst (topk_page g k threshold after ids) =
     (count_finish (fold count_on_match ids (count_new threshold)))
       \<lparr>retained := min k (card (eligible (g 0) after (set ids)))\<rparr>"
proof -
  let ?st = "fold (topk_on_match (plain_scorer g)) ids (topk_new k threshold after)"
  have st: "topk_totals ?st = fold tracker_observe ids (tracker_new threshold)"
    "topk_emissions ?st = fold (\<lambda>_ e. saturating_add e 1) ids 0"
    "heap_holds (eligible (g 0) after (set ids)) ?st" "topk_k ?st = k"
    using fold_topk [where g = g and k = k and threshold = threshold and after = after and ids = ids] by simp_all
  then have "length (topk_heap ?st) = min k (card (eligible (g 0) after (set ids)))"
    using distinct_card [of "topk_heap ?st"] by (simp add: heap_holds_def top_of_def)
  then show ?thesis
    using st topk_page_winners [of g ids k threshold after]
    by (simp add: topk_finish_def count_finish_def fold_count_on_match count_new_def Let_def)
qed

text \<open>
  C10: Pages neither repeat nor skip. When the last winner of a page becomes the
  boundary of the next request over the same ids, in any order, the two pages
  together are the page of their joint size.
\<close>

theorem topk_pages_tile:
  assumes "topk_winners (snd (topk_page g k threshold None ids)) = front @ [(logical, score)]" "set ids' = set ids"
  shows "topk_winners (snd (topk_page g k threshold None ids)) @ topk_winners (snd (topk_page g k' threshold' (Some (score, logical)) ids')) =
    topk_winners (snd (topk_page g (k + k') threshold None ids))"
proof -
  let ?E = "eligible (g 0) None (set ids)"
  let ?xs = "sorted_list_of_set ?E"
  have page: "map hit_pair (take k ?xs) = front @ [(logical, score)]" using assms(1) unfolding topk_page_winners .
  then have ne: "take k ?xs \<noteq> []" by (metis list.simps(8) snoc_eq_iff_butlast)
  have "last (map hit_pair (take k ?xs)) = (logical, score)" unfolding page by simp
  then have "(score, logical) = hit_rank (last (take k ?xs))" unfolding last_map [OF ne] by simp
  then have "eligible (g 0) (Some (score, logical)) (set ids') = {e \<in> ?E. last (take k ?xs) < e}"
    using assms(2) by (auto simp: eligible_def beats_less)
  then show ?thesis unfolding topk_page_winners by (simp add: after_last [OF _ ne] take_add)
qed

theorem topk_pages_tile_witness:
  "topk_winners (snd (topk_page (\<lambda>_ i. if i = 7 then 5 else 2) 2 9 None [9, 7, 4, 9])) = [(7, 5)] @ [(4, 2)] \<and>
   [(7, 5), (4, 2)] @ topk_winners (snd (topk_page (\<lambda>_ i. if i = 7 then 5 else 2) 1 9 (Some (2, 4)) [4, 9, 7])) =
     topk_winners (snd (topk_page (\<lambda>_ i. if i = 7 then 5 else 2) 3 9 None [9, 7, 4, 9]))"
proof -
  have page: "topk_winners (snd (topk_page (\<lambda>_ i. if i = 7 then 5 else 2) 2 9 None [9, 7, 4, 9])) = [(7, 5)] @ [(4, 2)]"
    by (simp add: topk_on_match_plain topk_new_def topk_retain_def topk_finish_def heap_peek_def heap_pop_def better_def
        ranked_beats_def less_eq_heap_hit_def ranked_order_def cmp_of_def max_def Let_def)
  show ?thesis using topk_pages_tile [OF page, of "[4, 9, 7]" 1 9] page by auto
qed

end
