(* ===== verification/Segment_Properties.thy ===== *)
theory Segment_Properties
  imports Segment_Lifecycle Segment_Match_Total Top_K
begin

text \<open>
  The properties of a segment over its whole life: matching is exact in every
  reachable state, merges are invisible to readers, and every pass returns.
\<close>

section \<open>Answers\<close>

text \<open>The ids a reader must get from live rows: the specification of a match.\<close>

definition answers :: "probe_lanes \<Rightarrow> title_view \<Rightarrow> tag_predicate \<Rightarrow> (stored_row \<times> cost_class) list \<Rightarrow> u64 multiset" where
  "answers lanes view pred rcs = mset (map (row_logical \<circ> fst) (filter (\<lambda>(r, c).
     row_matches r view \<and> tag_predicate_matches pred (row_tags r) \<and>
     (c = ClassH \<longrightarrow> include_hot lanes) \<and> (is_opt_in c \<longrightarrow> include_broad lanes)) rcs))"

text \<open>The ids a scalar match collects, with fresh stamps.\<close>

definition match_ids ::
  "'bm roaring \<Rightarrow> 'bm segment \<Rightarrow> title_view \<Rightarrow> dict \<Rightarrow> probe_lanes \<Rightarrow> tag_predicate \<Rightarrow> u64 multiset option" where
  "match_ids rb sg view d lanes pred = map_option (\<lambda>(seen, ids, stats). mset ids)
     (match_into rb sg view d 1 (replicate (segment_len sg) 0) [] lanes pred stats_default)"

definition rows_probed :: "title_view \<Rightarrow> (stored_row \<times> cost_class) list \<Rightarrow> bool" where
  "rows_probed view rcs \<longleftrightarrow> (\<forall>(r, c) \<in> set rcs. row_probed view r)"

lemma selected_answers:
  "mset (map (row_logical \<circ> fst) (filter (selected lanes view pred EmitAll) rcs)) = answers lanes view pred rcs"
proof -
  have "selected lanes view pred EmitAll = (\<lambda>(r, c). row_matches r view \<and> tag_predicate_matches pred (row_tags r) \<and>
      (c = ClassH \<longrightarrow> include_hot lanes) \<and> (is_opt_in c \<longrightarrow> include_broad lanes))"
  proof (intro ext, clarify)
    fix r c
    show "selected lanes view pred EmitAll (r, c) \<longleftrightarrow> row_matches r view \<and> tag_predicate_matches pred (row_tags r) \<and>
        (c = ClassH \<longrightarrow> include_hot lanes) \<and> (is_opt_in c \<longrightarrow> include_broad lanes)"
      by (cases c) (auto simp: selected_def lane_on_def row_passes_iff)
  qed
  then show ?thesis by (simp add: answers_def)
qed

lemma match_into_exact:
  assumes "seg_inv rb d sg" "title_ok d view" "rows_probed view (live_rows sg)"
    and "length seen = segment_len sg" "epoch \<notin> set seen"
  shows "\<exists>seen' ids stats'. match_into rb sg view d epoch seen out lanes pred stats = Some (seen', out @ ids, stats') \<and>
    mset ids = answers lanes view pred (live_rows sg)"
proof -
  let ?s = "\<lparr>ms_seen = seen, ms_coll = \<lparr>all_out = out, all_emissions = 0\<rparr>, ms_stats = stats, ms_poll = no_deadline\<rparr>"
  obtain s' ids where "match_collect rb vec_sink sg view d epoch lanes pred EmitAll ?s = Some (Go s')"
    "ms_coll s' = fold all_on_match ids (ms_coll ?s)"
    "mset ids = mset (map (row_logical \<circ> fst) (filter (selected lanes view pred EmitAll) (live_rows sg)))"
    using vec.match_collect_exact [OF assms(1,2), of ?s epoch lanes pred EmitAll] assms(3-5)
    by (auto simp: rows_probed_def no_deadline_def poll_new_def)
  then show ?thesis
    unfolding selected_answers by (intro exI [of _ "ms_seen s'"] exI [of _ ids]) (simp add: match_into_def fold_all_on_match Let_def)
qed

lemma match_ids_exact:
  assumes "seg_inv rb d sg" "title_ok d view" "rows_probed view (live_rows sg)"
  shows "match_ids rb sg view d lanes pred = Some (answers lanes view pred (live_rows sg))"
  using match_into_exact [OF assms, of "replicate (segment_len sg) 0" 1 "[]" lanes pred stats_default]
  by (auto simp: match_ids_def)

lemma match_ids_sources:
  assumes "\<forall>src \<in> set sources. seg_inv rb d src" "title_ok d view" "rows_probed view (concat (map live_rows sources))"
  shows "map (\<lambda>src. match_ids rb src view d lanes pred) sources =
    map (\<lambda>src. Some (answers lanes view pred (live_rows src))) sources"
  using assms by (intro map_cong refl match_ids_exact) (auto simp: rows_probed_def)

lemma answers_concat: "answers lanes view pred (concat rss) = sum_list (map (answers lanes view pred) rss)"
  by (induction rss) (simp_all add: answers_def)

section \<open>Merged rows\<close>

lemma answers_same:
  assumes "list_all2 (\<lambda>(r, c) (r', c'). r' = r \<and> is_opt_in c' = is_opt_in c) xs ys" "include_hot lanes"
  shows "answers lanes view pred ys = answers lanes view pred xs"
  using assms by (induction rule: list_all2_induct) (auto simp: answers_def)

lemma subset_add_mset: "A \<subseteq># B \<Longrightarrow> A \<subseteq># add_mset x B"
  by (auto simp: subseteq_mset_def intro: le_SucI)

lemma answers_visible:
  assumes "list_all2 (\<lambda>(r, c) (r', c'). r' = r \<and> keeps_visible c c') xs ys" "include_hot lanes"
  shows "answers lanes view pred xs \<subseteq># answers lanes view pred ys"
  using assms by (induction rule: list_all2_induct) (auto simp: answers_def intro: subset_add_mset)

lemma answers_all_lanes:
  assumes "list_all2 (\<lambda>(r, c) (r', c'). r' = r \<and> keeps_visible c c') xs ys" "include_hot lanes" "include_broad lanes"
  shows "answers lanes view pred ys = answers lanes view pred xs"
  using assms by (induction rule: list_all2_induct) (auto simp: answers_def)

lemma rows_probed_merged:
  assumes "list_all2 (\<lambda>(r, c) (r', c'). r' = r \<and> R c c') xs ys" "rows_probed view xs"
  shows "rows_probed view ys"
  using same_rows_all [OF assms(1), of "row_probed view"] assms(2) by (simp add: rows_probed_def)

section \<open>Deleting a query\<close>

lemma tombstone_columns:
  assumes "tombstone row sg = Some sg'"
  shows "seg_exact sg' = seg_exact sg \<and> seg_class sg' = seg_class sg \<and> seg_alive sg' = (seg_alive sg)[unat row := False]"
proof (cases "at_index (seg_alive sg) (unat row)")
  case None
  then show ?thesis using assms by (simp add: tombstone_def at_index_def list_update_beyond split: if_splits)
next
  case (Some live)
  then have "unat row < length (seg_alive sg)" "seg_alive sg ! unat row = live" by (simp_all add: at_index_def split: if_splits)
  then have "\<not> live \<Longrightarrow> (seg_alive sg)[unat row := False] = seg_alive sg" by (simp add: list_update_same_conv)
  then show ?thesis using assms Some by (cases live) (auto simp: tombstone_def bind_eq_Some_conv)
qed

lemma tombstones:
  fixes rows :: "u32 list"
  assumes "seg_inv rb d sg"
  shows "\<exists>sg'. fold_opt tombstone rows sg = Some sg' \<and> seg_inv rb d sg' \<and> seg_exact sg' = seg_exact sg \<and>
    seg_class sg' = seg_class sg \<and>
    (\<forall>i < segment_len sg. seg_alive sg' ! i \<longleftrightarrow> seg_alive sg ! i \<and> i \<notin> unat ` set rows)"
  using assms
proof (induction rows arbitrary: sg)
  case (Cons row rows)
  obtain sg1 where t: "tombstone row sg = Some sg1" using tombstone_inv [OF Cons.prems, of row] by blast
  have one: "seg_inv rb d sg1" "seg_exact sg1 = seg_exact sg" "seg_class sg1 = seg_class sg"
    "seg_alive sg1 = (seg_alive sg)[unat row := False]"
    using tombstone_columns [OF t] tombstone_inv [OF Cons.prems, of row] t by auto
  have len: "length (seg_alive sg) = segment_len sg" "segment_len sg1 = segment_len sg"
    using Cons.prems one(2) by (simp_all add: seg_inv_def seg_columns_def segment_len_def)
  obtain sg' where "fold_opt tombstone rows sg1 = Some sg'" "seg_inv rb d sg'" "seg_exact sg' = seg_exact sg1"
    "seg_class sg' = seg_class sg1" "\<forall>i < segment_len sg1. seg_alive sg' ! i \<longleftrightarrow> seg_alive sg1 ! i \<and> i \<notin> unat ` set rows"
    using Cons.IH [OF one(1)] by blast
  moreover have "(seg_alive sg)[unat row := False] ! i \<longleftrightarrow> seg_alive sg ! i \<and> i \<noteq> unat row" if "i < segment_len sg" for i
    using that len(1) by (cases "i = unat row") simp_all
  ultimately show ?case using t one len(2) by auto
qed simp

lemma delete_logical:
  assumes "seg_inv rb d sg"
  shows "\<exists>sg'. fold_opt tombstone (locals_for_logical sg logical) sg = Some sg' \<and> seg_inv rb d sg' \<and>
    live_rows sg' = filter (\<lambda>(r, c). row_logical r \<noteq> logical) (live_rows sg)"
proof -
  let ?L = "locals_for_logical sg logical" and ?n = "segment_len sg"
  obtain sg' where sg': "fold_opt tombstone ?L sg = Some sg'" "seg_inv rb d sg'" "seg_exact sg' = seg_exact sg"
    "seg_class sg' = seg_class sg" "\<forall>i < ?n. seg_alive sg' ! i \<longleftrightarrow> seg_alive sg ! i \<and> i \<notin> unat ` set ?L"
    using tombstones [OF assms, of ?L] by blast
  have counts: "\<forall>lg i. i \<in> set (locals_for_logical sg lg) \<longrightarrow> unat i < ?n \<and> row_logical (seg_row sg (unat i)) = lg"
    "\<forall>i < ?n. seg_alive sg ! i \<longrightarrow> of_nat i \<in> set (locals_for_logical sg (row_logical (seg_row sg i)))" "?n < 2 ^ 32"
    using assms by (simp_all add: seg_inv_def seg_counts_def seg_columns_def)
  have owner: "i \<in> unat ` set ?L \<longleftrightarrow> row_logical (seg_row sg i) = logical" if i: "i < ?n" "seg_alive sg ! i" for i
  proof
    show "i \<in> unat ` set ?L \<Longrightarrow> row_logical (seg_row sg i) = logical" using counts(1) by auto
    assume "row_logical (seg_row sg i) = logical"
    then have "of_nat i \<in> set ?L" using counts(2) i by auto
    then show "i \<in> unat ` set ?L" using unat_row [of i] i(1) counts(3) by (metis image_eqI order_less_trans)
  qed
  have "filter ((!) (seg_alive sg')) [0..<?n] = filter (\<lambda>i. row_logical (seg_row sg i) \<noteq> logical) (filter ((!) (seg_alive sg)) [0..<?n])"
    unfolding filter_filter using sg'(5) owner by (intro filter_cong refl) auto
  then have "live_rows sg' = filter (\<lambda>(r, c). row_logical r \<noteq> logical) (live_rows sg)"
    unfolding live_rows_def segment_len_def sg'(3,4) by (simp add: filter_map comp_def)
  then show ?thesis using sg' by blast
qed

section \<open>A compiled row on a full title view\<close>

lemma row_matches_compiled:
  assumes "title_ok d view" "mask_extends d0 d" "column_overflow ex = None" "wf_extracted ex"
    and "view = view_dual_positioned labels pm pos pp pa pc nm neg np na Free"
  shows "row_matches (row_of ex tags d0 ver logical prio pl gen) view \<longleftrightarrow> matches_positioned ex pos neg pp pa pc np na"
proof -
  have "view_pos view = pos" "view_neg view = neg" by (simp_all add: assms(5) view_dual_positioned_def)
  then show ?thesis
    using row_flat_compiled [OF assms(1,2)] verify_program_words [OF assms(3,4)] matches_positioned_split [of ex pos neg]
    by (simp add: row_matches_def row_of_def assms(5))
qed

section \<open>A sample life\<close>

abbreviation sample_row :: stored_row where
  "sample_row \<equiv> row_of sample_compound [4] dict_new 1 77 0 placement_standalone 9"

abbreviation sample_view :: title_view where
  "sample_view \<equiv> view_dual_positioned [1, 2, 5] (title_mask dict_new [1, 2, 5]) [1, 2, 5] 0 [] True
     (title_mask dict_new [1, 2, 5]) [1, 2, 5] 0 [] Free"

abbreviation sample_knobs :: compile_knobs where
  "sample_knobs \<equiv> \<lparr>accept_class_d = False, hot_anchor_threshold = 0, dedup_bodies = True, keep_visible = False\<rparr>"

lemma sample_plan: "sig_class (visible_plan sample_compound dict_new placement_standalone sample_knobs) = ClassA"
  by (simp add: visible_plan_def build_signatures_def anchor_plan_def required_plan_def sample_compound_simps Let_def
      placement_standalone_def is_hot_def mask_bit_def dict_new_def)

lemma sample_storable: "storable sample_compound sample_row segment_new"
  using sample_compound_ok sample_room
  by (simp add: storable_def segment_new_def segment_len_def) (simp add: sample_compound_simps store_len_def store_new_def)

lemma sample_added:
  "\<exists>added sg. add_compiled_with_source_generation list_bitmap sample_compound [4] dict_new 77 1 0 placement_standalone 9
     sample_knobs segment_new = Some (Some added, sg) \<and> row_added list_bitmap dict_new segment_new sample_row (added_class added) sg \<and>
   \<not> is_opt_in (added_class added)"
  using add_compiled_inv [of list_bitmap dict_new segment_new dict_new sample_compound "[4]" 1 77 0 placement_standalone 9 sample_knobs]
    segment_new_inv [OF list_bitmap_ok] sample_storable sample_plan
  by (auto simp: storable_def rejects_class_d_def)

lemma sample_title: "title_ok dict_new sample_view" "row_matches sample_row sample_view" "row_probed sample_view sample_row"
proof -
  show ok: "title_ok dict_new sample_view" by (simp add: title_ok_def view_dual_positioned_def)
  show "row_matches sample_row sample_view"
    using row_matches_compiled [OF ok mask_extends_refl sample_compound_ok refl]
    by (simp add: sample_compound_simps matches_positioned_def matches_flat_features_def search_ok_iff)
  have "\<not> predicate_has_phrases (row_program sample_row)"
    by (simp add: row_of_def program_words_phrases) (simp add: sample_compound_simps)
  then show "row_probed sample_view sample_row" using row_probed_plain row_usable_of [OF sample_compound_ok] by blast
qed

lemma sample_segment:
  "\<exists>sg c. reachable list_bitmap stable_desc_sort \<lparr>shelf_dict = dict_new, shelf_segments = [sg]\<rparr> \<and>
     seg_inv list_bitmap dict_new sg \<and> live_rows sg = [(sample_row, c)] \<and> \<not> is_opt_in c \<and> segment_len sg = 1"
proof -
  obtain added sg where add: "add_compiled_with_source_generation list_bitmap sample_compound [4] dict_new 77 1 0
      placement_standalone 9 sample_knobs segment_new = Some (Some added, sg)"
    and sg: "row_added list_bitmap dict_new segment_new sample_row (added_class added) sg" "\<not> is_opt_in (added_class added)"
    using sample_added by blast
  have "reachable list_bitmap stable_desc_sort \<lparr>shelf_dict = dict_new, shelf_segments = [segment_new]\<rparr>"
    using reachable.moves [OF reachable.start shelf_step.open_segment] by simp
  then have "reachable list_bitmap stable_desc_sort \<lparr>shelf_dict = dict_new, shelf_segments = [segment_new][0 := sg]\<rparr>"
    using reachable.moves [OF _ shelf_step.add [where sgs = "[segment_new]" and i = 0, simplified, OF _ sample_storable add]]
      segment_new_inv [OF list_bitmap_ok] by auto
  moreover have "segment_len sg = 1"
    using sg(1) by (simp add: row_added_def segment_len_def) (simp add: segment_new_def store_len_def store_new_def)
  ultimately show ?thesis using sg by (auto simp: row_added_def)
qed

abbreviation default_lanes :: probe_lanes where
  "default_lanes \<equiv> \<lparr>include_broad = False, include_hot = True\<rparr>"

lemma sample_answers:
  assumes "\<not> is_opt_in c" shows "answers default_lanes sample_view [[4]] [(sample_row, c)] = {#77#}"
proof -
  have "tag_predicate_matches [[4]] [4]" by (simp add: tag_matches_iff)
  then show ?thesis using assms sample_title(2) by (simp add: answers_def row_of_def)
qed

lemma sample_probed: "rows_probed sample_view [(sample_row, c)]"
  using sample_title(3) by (simp add: rows_probed_def)

lemma answers_without:
  "answers lanes view pred (filter (\<lambda>(r, c). row_logical r \<noteq> logical) rcs) =
     filter_mset (\<lambda>i. i \<noteq> logical) (answers lanes view pred rcs)"
proof -
  have "map (row_logical \<circ> fst) (filter P (filter (\<lambda>(r, c). row_logical r \<noteq> logical) rcs)) =
      filter (\<lambda>i. i \<noteq> logical) (map (row_logical \<circ> fst) (filter P rcs))" for P :: "stored_row \<times> cost_class \<Rightarrow> bool"
    by (induction rcs) auto
  then show ?thesis unfolding answers_def mset_filter [symmetric] by simp
qed

lemma those_Some: "those (map (\<lambda>x. Some (f x)) xs) = Some (map f xs)"
  by (induction xs) simp_all

lemma reachable_seg_inv:
  assumes "roaring_ok rb" "sorts_descending srt" "reachable rb srt s" "sg \<in> set (shelf_segments s)"
  shows "seg_inv rb (shelf_dict s) sg"
  using reachable_inv [OF assms(1-3)] assms(4) segment_ok_inv [of rb "shelf_dict s" sg]
  by (auto simp: shelf_inv_def dict_ok_def)

section \<open>Properties\<close>

text \<open>
  C2: Matching is exact in every reachable state. Whatever queries were interned,
  added, deleted, sealed and merged before, a scalar match of a title against any
  segment neither panics nor misses: it appends, each once, exactly the ids of the
  live rows that match the title, pass the tag filter and live in a requested lane.
\<close>

theorem reachable_match_exact:
  assumes "roaring_ok rb" "sorts_descending srt" "reachable rb srt s" "sg \<in> set (shelf_segments s)"
    and "title_ok (shelf_dict s) view" "rows_probed view (live_rows sg)"
    and "length seen = segment_len sg" "epoch \<notin> set seen"
  shows "\<exists>seen' ids stats'. match_into rb sg view (shelf_dict s) epoch seen out lanes pred stats = Some (seen', out @ ids, stats') \<and>
    mset ids = answers lanes view pred (live_rows sg)"
  by (rule match_into_exact [OF reachable_seg_inv [OF assms(1-4)] assms(5-8)])

theorem reachable_match_exact_witness:
  "\<exists>sg seen stats. match_into list_bitmap sg sample_view dict_new 1 [0] [] default_lanes [[4]] stats_default =
     Some (seen, [77], stats)"
proof -
  obtain sg c where sg: "reachable list_bitmap stable_desc_sort \<lparr>shelf_dict = dict_new, shelf_segments = [sg]\<rparr>"
    "live_rows sg = [(sample_row, c)]" "\<not> is_opt_in c" "segment_len sg = 1"
    using sample_segment by blast
  obtain seen ids stats where "match_into list_bitmap sg sample_view dict_new 1 [0] [] default_lanes [[4]] stats_default =
      Some (seen, ids, stats)" "mset ids = answers default_lanes sample_view [[4]] (live_rows sg)"
    using reachable_match_exact [OF list_bitmap_ok sorts_descending_stable sg(1), of sg sample_view "[0]" 1 "[]" default_lanes "[[4]]" stats_default]
      sample_title(1) sample_probed sg(2,4) by auto
  then show ?thesis using sample_answers [OF sg(3)] sg(2) by auto
qed

text \<open>
  C8: Ranked matching is exact in every reachable state. A pass with the top-k
  collector and no deadline returns, and the winners are the best \<open>k\<close> of the ids a match
  must return that lie strictly after the page boundary, in rank order.
\<close>

theorem reachable_ranked_exact:
  assumes "roaring_ok rb" "sorts_descending srt" "reachable rb srt s" "sg \<in> set (shelf_segments s)"
    and "title_ok (shelf_dict s) view" "rows_probed view (live_rows sg)"
    and "length seen = segment_len sg" "epoch \<notin> set seen"
  shows "\<exists>s'. match_collect rb (topk_sink (plain_scorer g)) sg view (shelf_dict s) epoch lanes pred EmitAll
      \<lparr>ms_seen = seen, ms_coll = topk_new k threshold after, ms_stats = stats, ms_poll = no_deadline\<rparr> = Some (Go s') \<and>
    topk_winners (snd (topk_finish (ms_coll s'))) =
      map hit_pair (take k (sorted_list_of_set (eligible (g 0) after (set_mset (answers lanes view pred (live_rows sg))))))"
proof -
  let ?s = "\<lparr>ms_seen = seen, ms_coll = topk_new k threshold after, ms_stats = stats, ms_poll = no_deadline\<rparr>"
  obtain s' ids where run: "match_collect rb (topk_sink (plain_scorer g)) sg view (shelf_dict s) epoch lanes pred EmitAll ?s = Some (Go s')"
    "ms_coll s' = fold (topk_on_match (plain_scorer g)) ids (topk_new k threshold after)"
    "mset ids = mset (map (row_logical \<circ> fst) (filter (selected lanes view pred EmitAll) (live_rows sg)))"
    using exhaustive_sink.match_collect_exact [OF plain_topk_exhaustive reachable_seg_inv [OF assms(1-4)] assms(5), of ?s epoch g lanes pred EmitAll] assms(6-8)
    by (auto simp: rows_probed_def no_deadline_def poll_new_def)
  have "set ids = set_mset (answers lanes view pred (live_rows sg))"
    using arg_cong [OF run(3), of set_mset] unfolding selected_answers by simp
  then show ?thesis using run(1,2) topk_page_winners [of g ids k threshold after] by simp
qed

theorem reachable_ranked_exact_witness:
  "\<exists>sg s'. match_collect list_bitmap (topk_sink (plain_scorer (\<lambda>_ _. 3))) sg sample_view dict_new 1 default_lanes [[4]] EmitAll
      \<lparr>ms_seen = [0], ms_coll = topk_new 5 9 None, ms_stats = stats_default, ms_poll = no_deadline\<rparr> = Some (Go s') \<and>
    topk_winners (snd (topk_finish (ms_coll s'))) = [(77, 3)]"
proof -
  obtain sg c where sg: "reachable list_bitmap stable_desc_sort \<lparr>shelf_dict = dict_new, shelf_segments = [sg]\<rparr>"
    "live_rows sg = [(sample_row, c)]" "\<not> is_opt_in c" "segment_len sg = 1"
    using sample_segment by blast
  have "eligible (\<lambda>_. 3) None {77} = {HeapHit 77 3}" by (simp add: eligible_def)
  then show ?thesis
    using reachable_ranked_exact [OF list_bitmap_ok sorts_descending_stable sg(1), of sg sample_view "[0]" 1 "\<lambda>_ _. 3"
        default_lanes "[[4]]" 5 9 None stats_default]
      sample_title(1) sample_probed sg(2,4) sample_answers [OF sg(3)] by auto
qed

text \<open>
  C3: Compaction is invisible to readers. Merging segments, on either arm, returns
  a sound segment whose match yields, for every title, tag filter and choice of the
  broad lane, exactly the ids the sources yield together; deleted rows stay deleted.
\<close>

theorem compact_from_same_answers:
  assumes "roaring_ok rb" "\<forall>src \<in> set sources. seg_inv rb d src" "mergeable sources"
    and "title_ok d view" "rows_probed view (concat (map live_rows sources))" "include_hot lanes"
  shows "\<exists>dest found. compact_from rb sources = Some dest \<and> seg_inv rb d dest \<and>
    those (map (\<lambda>src. match_ids rb src view d lanes pred) sources) = Some found \<and>
    match_ids rb dest view d lanes pred = Some (sum_list found)"
proof -
  obtain dest where dest: "compact_from rb sources = Some dest" "seg_inv rb d dest"
    and rows: "list_all2 (\<lambda>(r, c) (r', c'). r' = r \<and> is_opt_in c' = is_opt_in c) (concat (map live_rows sources)) (live_rows dest)"
    using compact_from_inv [OF assms(1) bspec [OF assms(2)]] assms(3) by (auto simp: mergeable_def)
  have "match_ids rb dest view d lanes pred = Some (answers lanes view pred (concat (map live_rows sources)))"
    using match_ids_exact [OF dest(2) assms(4) rows_probed_merged [OF rows assms(5)]] answers_same [OF rows assms(6)] by simp
  then show ?thesis
    unfolding match_ids_sources [OF assms(2,4,5)] those_Some using dest by (simp add: answers_concat comp_def)
qed

theorem compact_from_same_answers_witness:
  "\<exists>sg dest. compact_from list_bitmap [sg] = Some dest \<and>
     match_ids list_bitmap sg sample_view dict_new default_lanes [[4]] = Some {#77#} \<and>
     match_ids list_bitmap dest sample_view dict_new default_lanes [[4]] = Some {#77#}"
proof -
  obtain sg c where sg: "seg_inv list_bitmap dict_new sg" "live_rows sg = [(sample_row, c)]" "\<not> is_opt_in c"
    using sample_segment by blast
  have ids: "match_ids list_bitmap sg sample_view dict_new default_lanes [[4]] = Some {#77#}"
    using match_ids_exact [OF sg(1) sample_title(1)] sample_probed sample_answers [OF sg(3)] sg(2) by simp
  have "mergeable [sg]" using sg(2) sample_room by (simp add: mergeable_def rows_room_def)
  then show ?thesis
    using compact_from_same_answers [OF list_bitmap_ok, of "[sg]" dict_new sample_view default_lanes "[[4]]"]
      sg sample_title(1) sample_probed ids by auto
qed

text \<open>
  C4: The re-anchoring merge loses nothing. Planning every stored row again under
  current frequencies and a mask that only grew since, it returns a sound segment
  that yields every id the sources yield, and with the broad lane on exactly those:
  rows may only become visible to more readers.
\<close>

theorem reanchored_loses_nothing:
  assumes "roaring_ok rb" "\<forall>src \<in> set sources. seg_inv rb d src" "mergeable sources"
    and "dict_inv d0" "mask_extends d0 d" "\<forall>(r, c) \<in> set (concat (map live_rows sources)). row_anchored d0 r"
    and "title_ok d view" "rows_probed view (concat (map live_rows sources))" "include_hot lanes"
  shows "\<exists>dest stats found ids. compact_from_reanchored rb sources d0 theta max_moves = Some (dest, stats) \<and> seg_inv rb d dest \<and>
    those (map (\<lambda>src. match_ids rb src view d lanes pred) sources) = Some found \<and>
    match_ids rb dest view d lanes pred = Some ids \<and> sum_list found \<subseteq># ids \<and> (include_broad lanes \<longrightarrow> ids = sum_list found)"
proof -
  obtain dest stats where dest: "compact_from_reanchored rb sources d0 theta max_moves = Some (dest, stats)" "seg_inv rb d dest"
    and rows: "list_all2 (\<lambda>(r, c) (r', c'). r' = r \<and> keeps_visible c c') (concat (map live_rows sources)) (live_rows dest)"
    using compact_reanchored_inv [OF assms(1) bspec [OF assms(2)] _ assms(4-6), of theta max_moves] assms(3)
    unfolding mergeable_def by blast
  have "match_ids rb dest view d lanes pred = Some (answers lanes view pred (live_rows dest))"
    using match_ids_exact [OF dest(2) assms(7) rows_probed_merged [OF rows assms(8)]] .
  then show ?thesis
    unfolding match_ids_sources [OF assms(2,7,8)] those_Some
    using dest answers_visible [OF rows assms(9)] answers_all_lanes [OF rows assms(9)] by (simp add: answers_concat comp_def)
qed

theorem reanchored_loses_nothing_witness:
  "\<exists>sg dest stats ids. compact_from_reanchored list_bitmap [sg] dict_new 10 3 = Some (dest, stats) \<and>
     match_ids list_bitmap dest sample_view dict_new default_lanes [[4]] = Some ids \<and> 77 \<in># ids"
proof -
  obtain sg c where sg: "seg_inv list_bitmap dict_new sg" "live_rows sg = [(sample_row, c)]" "\<not> is_opt_in c"
    using sample_segment by blast
  have ids: "match_ids list_bitmap sg sample_view dict_new default_lanes [[4]] = Some {#77#}"
    using match_ids_exact [OF sg(1) sample_title(1)] sample_probed sample_answers [OF sg(3)] sg(2) by simp
  have "mergeable [sg]" using sg(2) sample_room by (simp add: mergeable_def rows_room_def)
  moreover have "row_anchored dict_new sample_row"
    by (rule row_anchored_compiled [OF dict_inv_new mask_extends_refl]) (simp add: sample_compound_simps)
  ultimately show ?thesis
    using reanchored_loses_nothing [OF list_bitmap_ok, of "[sg]" dict_new dict_new sample_view default_lanes 10 3 "[[4]]"]
      sg sample_title(1) sample_probed ids by auto
qed

text \<open>
  C6: Adding a query. A plan the class-D gate rejects changes nothing; any other
  query is stored under the next local id as the last live row, alone or as a member
  of a group with an equal body, on the side of the opt-in boundary its plan has,
  and the invariant is kept. Neither branch panics.
\<close>

theorem add_compiled_correct:
  assumes "seg_inv rb d sg" "unsealed sg" "mask_extends d0 d" "storable ex (row_of ex tags d0 ver logical prio pl gen) sg"
  shows "if rejects_class_d (sig_class (visible_plan ex d0 pl knobs)) ex (accept_class_d knobs)
    then add_compiled_with_source_generation rb ex tags d0 logical ver prio pl gen knobs sg = Some (None, sg)
    else \<exists>added sg'. add_compiled_with_source_generation rb ex tags d0 logical ver prio pl gen knobs sg = Some (Some added, sg') \<and>
      added_local added = of_nat (segment_len sg) \<and> seg_inv rb d sg' \<and>
      live_rows sg' = live_rows sg @ [(row_of ex tags d0 ver logical prio pl gen, added_class added)] \<and>
      is_opt_in (added_class added) = is_opt_in (sig_class (visible_plan ex d0 pl knobs))"
proof (cases "rejects_class_d (sig_class (visible_plan ex d0 pl knobs)) ex (accept_class_d knobs)")
  case True
  then show ?thesis by (simp add: add_compiled_with_source_generation_def)
next
  case False
  then show ?thesis
    using add_compiled_inv [OF assms(1-3) _ _ _ _ _ False, of tags ver logical prio gen] assms(4)
    by (auto simp: storable_def row_added_def)
qed

theorem add_compiled_correct_witness:
  "\<exists>added sg. add_compiled_with_source_generation list_bitmap sample_compound [4] dict_new 77 1 0 placement_standalone 9
     sample_knobs segment_new = Some (Some added, sg) \<and> live_rows sg = [(sample_row, added_class added)]"
  using add_compiled_correct [of list_bitmap dict_new segment_new dict_new sample_compound "[4]" 1 77 0 placement_standalone 9 sample_knobs]
    segment_new_inv [OF list_bitmap_ok] sample_storable sample_plan
  by (auto simp: rejects_class_d_def)

text \<open>
  C5: Deleting a query. Tombstoning the rows the reverse index lists for a logical
  id never panics and removes exactly the live rows of that id: a match afterwards
  yields what it yielded before without that id.
\<close>

theorem delete_removes_id:
  assumes "seg_inv rb d sg" "title_ok d view" "rows_probed view (live_rows sg)"
  shows "\<exists>sg' ids. fold_opt tombstone (locals_for_logical sg logical) sg = Some sg' \<and> seg_inv rb d sg' \<and>
    match_ids rb sg view d lanes pred = Some ids \<and>
    match_ids rb sg' view d lanes pred = Some (filter_mset (\<lambda>i. i \<noteq> logical) ids)"
proof -
  obtain sg' where sg': "fold_opt tombstone (locals_for_logical sg logical) sg = Some sg'" "seg_inv rb d sg'"
    "live_rows sg' = filter (\<lambda>(r, c). row_logical r \<noteq> logical) (live_rows sg)"
    using delete_logical [OF assms(1)] by blast
  have "rows_probed view (live_rows sg')" using assms(3) sg'(3) by (auto simp: rows_probed_def)
  from match_ids_exact [OF sg'(2) assms(2) this, of lanes pred]
  have "match_ids rb sg' view d lanes pred = Some (answers lanes view pred (live_rows sg'))" .
  moreover note answers_without [of lanes view pred logical "live_rows sg"]
  ultimately show ?thesis using sg' match_ids_exact [OF assms] by (simp del: mset_filter)
qed

theorem delete_removes_id_witness:
  "\<exists>sg sg'. match_ids list_bitmap sg sample_view dict_new default_lanes [[4]] = Some {#77#} \<and>
     fold_opt tombstone (locals_for_logical sg 77) sg = Some sg' \<and>
     match_ids list_bitmap sg' sample_view dict_new default_lanes [[4]] = Some {#}"
proof -
  obtain sg c where sg: "seg_inv list_bitmap dict_new sg" "live_rows sg = [(sample_row, c)]" "\<not> is_opt_in c"
    using sample_segment by blast
  have "match_ids list_bitmap sg sample_view dict_new default_lanes [[4]] = Some {#77#}"
    using match_ids_exact [OF sg(1) sample_title(1)] sample_probed sample_answers [OF sg(3)] sg(2) by simp
  then show ?thesis
    using delete_removes_id [OF sg(1) sample_title(1), of 77 default_lanes "[[4]]"] sample_probed sg(2) by auto
qed

text \<open>
  C7: Every matching pass returns. On a sound segment, for every collector (one that
  observes candidates, stops the pass or polls the deadline included), every
  deadline, emission policy and title, the pass neither panics nor diverges; it ends
  with a verdict and leaves one stamp per row.
\<close>

theorem match_collect_returns:
  assumes "seg_inv rb d sg" "length (ms_seen s) = segment_len sg"
  shows "\<exists>r. match_collect rb sink sg view d' epoch lanes pred pol s = Some r \<and> length (ms_seen (flow_state r)) = segment_len sg"
  using yieldsD [OF match_collect_total [OF assms(1)] assms(2)] .

theorem match_collect_returns_witness:
  "\<exists>sg r. match_collect list_bitmap candidate_hit_sink sg sample_view dict_new 1 default_lanes [] EmitAll
     \<lparr>ms_seen = [0], ms_coll = \<lparr>hit_target = 77, hit_found = False\<rparr>, ms_stats = stats_default, ms_poll = poll_new True (\<lambda>_. True)\<rparr> =
     Some r \<and> length (ms_seen (flow_state r)) = 1"
proof -
  obtain sg where sg: "seg_inv list_bitmap dict_new sg" "segment_len sg = 1" using sample_segment by blast
  from match_collect_returns [OF sg(1), of "\<lparr>ms_seen = [0], ms_coll = \<lparr>hit_target = 77, hit_found = False\<rparr>,
      ms_stats = stats_default, ms_poll = poll_new True (\<lambda>_. True)\<rparr>" candidate_hit_sink sample_view dict_new 1 default_lanes "[]" EmitAll]
  show ?thesis using sg(2) by auto
qed

end
