(* ===== verification/Rank_Profiles.thy ===== *)
theory Rank_Profiles
  imports Exact_Store "HOL-Library.AList"
begin

text \<open>
  Scoring (\<open>rank.rs\<close>, \<open>rank/profiles.rs\<close>, \<open>rank/profiles/tree.rs\<close>): the two scorers, the rank
  features, and the profiles with their validation. All arithmetic is on integers that
  saturate at the range of \<open>i64\<close>. The Unicode classes of a character are parameters;
  reading the JSON file is outside the model, which starts at the decoded configuration.
\<close>

section \<open>Saturating arithmetic\<close>

definition i64_clamp :: "int \<Rightarrow> int" where
  "i64_clamp x = max (- (2 ^ 63)) (min (2 ^ 63 - 1) x)"

definition i64_add :: "int \<Rightarrow> int \<Rightarrow> int" where
  "i64_add a b = i64_clamp (a + b)"

definition i64_mul :: "int \<Rightarrow> int \<Rightarrow> int" where
  "i64_mul a b = i64_clamp (a * b)"

definition is_i64 :: "int \<Rightarrow> bool" where
  "is_i64 x \<longleftrightarrow> - (2 ^ 63) \<le> x \<and> x < 2 ^ 63"

definition u32_saturating_mul :: "u32 \<Rightarrow> u32 \<Rightarrow> u32" where
  "u32_saturating_mul a b = (if unat a * unat b < 2 ^ 32 then a * b else - 1)"

section \<open>Features\<close>

datatype rank_feature = QueryPositiveTerms | QueryNegativeTerms | QueryAnyOfGroups | QueryTagCount | TitleTokens
  | TitleBytes | TitleDigits | PositiveCoverageMilli | UnmatchedTitleTokens

record rank_title_features =
  title_tokens :: u32
  title_bytes :: u32
  title_digits :: u32

fun scan_title :: "(rchar \<Rightarrow> bool) \<Rightarrow> (rchar \<Rightarrow> bool) \<Rightarrow> rstring \<Rightarrow> bool \<Rightarrow> u32 \<Rightarrow> u32 \<Rightarrow> u32 \<times> u32" where
  "scan_title alnum numeric [] in_token tokens digits = (tokens, digits)"
| "scan_title alnum numeric (ch # rest) in_token tokens digits =
     scan_title alnum numeric rest (alnum ch)
       (if alnum ch \<and> \<not> in_token then saturating_add tokens 1 else tokens)
       (if numeric ch then saturating_add digits 1 else digits)"

definition from_title :: "(rchar \<Rightarrow> bool) \<Rightarrow> (rchar \<Rightarrow> bool) \<Rightarrow> rstring \<Rightarrow> rank_title_features" where
  "from_title alnum numeric title =
     (case scan_title alnum numeric title False 0 0 of (tokens, digits) \<Rightarrow>
        \<lparr>title_tokens = tokens, title_bytes = u32_of_len (str_len title), title_digits = digits\<rparr>)"

type_synonym rank_feature_view = "rank_query_features \<times> rank_title_features"

fun feature_value :: "rank_feature_view \<Rightarrow> rank_feature \<Rightarrow> int" where
  "feature_value (q, t) QueryPositiveTerms = uint (positive_terms q)"
| "feature_value (q, t) QueryNegativeTerms = uint (negative_terms_count q)"
| "feature_value (q, t) QueryAnyOfGroups = uint (any_of_groups q)"
| "feature_value (q, t) QueryTagCount = uint (tag_count q)"
| "feature_value (q, t) TitleTokens = uint (title_tokens t)"
| "feature_value (q, t) TitleBytes = uint (title_bytes t)"
| "feature_value (q, t) TitleDigits = uint (title_digits t)"
| "feature_value (q, t) PositiveCoverageMilli =
     uint (u32_saturating_mul (positive_terms q) 1000 div max (title_tokens t) 1)"
| "feature_value (q, t) UnmatchedTitleTokens = uint (saturating_sub (title_tokens t) (positive_terms q))"

section \<open>Trees\<close>

datatype tree_node = Split rank_feature int nat nat | Leaf int

record compiled_tree =
  tree_nodes :: "tree_node list"
  max_depth :: nat

text \<open>The reasons of \<open>RankProfileError::Invalid\<close>, one per message.\<close>

datatype profile_error =
    TreeEmpty nat | MissingNode nat nat | RepeatedNode nat nat | RootIsChild nat | TreeTooDeep nat
  | TreeCycle nat nat | UnreachableNode nat nat
  | TooManyWeights nat | RepeatedFeature rank_feature | TreeCount nat | TooManyNodes nat | TooManySteps nat
  | BadVersion u32 | TooManyProfiles nat | BadName rstring | ReservedName | FingerprintMismatch u64

definition MAX_TREE_DEPTH :: nat where
  "MAX_TREE_DEPTH = 16"

fun node_children :: "tree_node \<Rightarrow> nat list" where
  "node_children (Split f threshold left right) = [left, right]"
| "node_children (Leaf v) = []"

text \<open>One child reference: the parent count of the child, or the reason to reject it.\<close>

fun count_parents :: "nat \<Rightarrow> nat list \<Rightarrow> u8 list \<Rightarrow> profile_error + u8 list" where
  "count_parents tree [] parents = Inr parents"
| "count_parents tree (child # rest) parents =
     (case at_index parents child of
        None \<Rightarrow> Inl (MissingNode tree child)
      | Some n \<Rightarrow>
          let n = saturating_add n 1
          in if n > 1 then Inl (RepeatedNode tree child) else count_parents tree rest (parents[child := n]))"

definition unseen :: "u8 list \<Rightarrow> nat" where
  "unseen state = length (filter (\<lambda>s. s \<noteq> 1 \<and> s \<noteq> 2) state)"

lemma unseen_update:
  assumes "i < length state" "v = 1 \<or> v = 2"
  shows "unseen (state[i := v]) \<le> unseen state"
    and "state ! i \<noteq> 1 \<Longrightarrow> state ! i \<noteq> 2 \<Longrightarrow> unseen (state[i := v]) < unseen state"
  using assms by (induction state arbitrary: i) (auto simp: unseen_def nth_Cons split: nat.splits)

lemma node_children_le: "length (node_children n) \<le> 2"
  by (cases n) simp_all

text \<open>The depth-first walk: 0 is an unseen node, 1 an open and 2 a finished one.\<close>

function tree_walk ::
  "nat \<Rightarrow> tree_node list \<Rightarrow> u8 list \<Rightarrow> (nat \<times> bool \<times> nat) list \<Rightarrow> nat \<Rightarrow> (profile_error + u8 list \<times> nat) option" where
  "tree_walk tree nodes state [] deepest = Some (Inr (state, deepest))"
| "tree_walk tree nodes state ((index, exiting, depth) # stack) deepest =
     (if depth > MAX_TREE_DEPTH then Some (Inl (TreeTooDeep tree))
      else if index \<ge> length nodes then Some (Inl (MissingNode tree index))
      else if index \<ge> length state then None
      else if exiting then tree_walk tree nodes (state[index := 2]) stack deepest
      else if state ! index = 1 then Some (Inl (TreeCycle tree index))
      else if state ! index = 2 then tree_walk tree nodes state stack deepest
      else tree_walk tree nodes (state[index := 1])
        (map (\<lambda>child. (child, False, Suc depth)) (node_children (nodes ! index)) @ (index, True, depth) # stack)
        (max deepest depth))"
  by pat_completeness auto
termination
proof (relation "measure (\<lambda>(tree, nodes, state, stack, deepest). 4 * unseen state + length stack)", goal_cases)
  case (2 tree nodes state index exiting depth stack deepest)
  then show ?case using unseen_update(1) [of index state 2] by simp
next
  case (4 tree nodes state index exiting depth stack deepest)
  then show ?case using unseen_update(2) [of index state 1] node_children_le [of "nodes ! index"] by simp
qed simp_all

definition compile_tree :: "nat \<Rightarrow> tree_node list \<Rightarrow> (profile_error + compiled_tree) option" where
  "compile_tree tree nodes =
     (if nodes = [] then Some (Inl (TreeEmpty tree))
      else case count_parents tree (concat (map node_children nodes)) (replicate (length nodes) 0) of
        Inl e \<Rightarrow> Some (Inl e)
      | Inr parents \<Rightarrow> do {
          root \<leftarrow> at_index parents 0;
          if root \<noteq> 0 then Some (Inl (RootIsChild tree))
          else do {
            walked \<leftarrow> tree_walk tree nodes (replicate (length nodes) 0) [(0, False, 1)] 0;
            Some (case walked of
              Inl e \<Rightarrow> Inl e
            | Inr (state, deepest) \<Rightarrow>
                if 0 \<in> set state then Inl (UnreachableNode tree (length (takeWhile (\<lambda>s. s \<noteq> 0) state)))
                else Inr \<lparr>tree_nodes = nodes, max_depth = deepest\<rparr>)
          }
        })"

text \<open>\<open>CompiledTree::score\<close>: at most one read per node, 0 when no leaf was found.\<close>

fun tree_steps :: "tree_node list \<Rightarrow> rank_feature_view \<Rightarrow> nat \<Rightarrow> nat \<Rightarrow> int" where
  "tree_steps nodes view 0 index = 0"
| "tree_steps nodes view (Suc n) index =
     (case at_index nodes index of
        Some (Leaf v) \<Rightarrow> v
      | Some (Split f threshold left right) \<Rightarrow>
          tree_steps nodes view n (if feature_value view f \<le> threshold then left else right)
      | None \<Rightarrow> 0)"

definition tree_score :: "compiled_tree \<Rightarrow> rank_feature_view \<Rightarrow> int" where
  "tree_score t view = tree_steps (tree_nodes t) view (length (tree_nodes t)) 0"

section \<open>Profiles\<close>

datatype profile_config =
    StaticConfig "rstring option"
  | LinearConfig "rstring option" int "(rank_feature \<times> int) list"
  | TreeConfig "rstring option" int "tree_node list list"

datatype rank_profile_program =
    ProfileStatic | ProfileLinear int "(rank_feature \<times> int) list" | ProfileTrees int "compiled_tree list"

definition MAX_LINEAR_TERMS :: nat where "MAX_LINEAR_TERMS = 64"
definition MAX_TREES :: nat where "MAX_TREES = 256"
definition MAX_TREE_NODES :: nat where "MAX_TREE_NODES = 16384"
definition MAX_TREE_EVAL_STEPS :: nat where "MAX_TREE_EVAL_STEPS = 1024"

fun compile_weights :: "(rank_feature \<times> int) list \<Rightarrow> rank_feature list \<Rightarrow> profile_error + (rank_feature \<times> int) list" where
  "compile_weights [] seen = Inr []"
| "compile_weights ((f, w) # rest) seen =
     (if f \<in> set seen then Inl (RepeatedFeature f)
      else case compile_weights rest (f # seen) of Inl e \<Rightarrow> Inl e | Inr ws \<Rightarrow> Inr ((f, w) # ws))"

fun compile_trees :: "nat \<Rightarrow> tree_node list list \<Rightarrow> (profile_error + compiled_tree list) option" where
  "compile_trees i [] = Some (Inr [])"
| "compile_trees i (nodes # rest) =
     do {
       t \<leftarrow> compile_tree i nodes;
       case t of
         Inl e \<Rightarrow> Some (Inl e)
       | Inr t \<Rightarrow> do {
           ts \<leftarrow> compile_trees (Suc i) rest;
           Some (case ts of Inl e \<Rightarrow> Inl e | Inr ts \<Rightarrow> Inr (t # ts))
         }
     }"

fun compile_profile :: "profile_config \<Rightarrow> (profile_error + rank_profile_program) option" where
  "compile_profile (StaticConfig expected) = Some (Inr ProfileStatic)"
| "compile_profile (LinearConfig expected intercept weights) =
     Some (if length weights > MAX_LINEAR_TERMS then Inl (TooManyWeights (length weights))
       else case compile_weights weights [] of Inl e \<Rightarrow> Inl e | Inr ws \<Rightarrow> Inr (ProfileLinear intercept ws))"
| "compile_profile (TreeConfig expected base trees) =
     (if trees = [] \<or> length trees > MAX_TREES then Some (Inl (TreeCount (length trees)))
      else if sum_list (map length trees) > MAX_TREE_NODES then Some (Inl (TooManyNodes (sum_list (map length trees))))
      else do {
        compiled \<leftarrow> compile_trees 0 trees;
        Some (case compiled of
          Inl e \<Rightarrow> Inl e
        | Inr ts \<Rightarrow>
            let steps = sum_list (map max_depth ts)
            in if steps > MAX_TREE_EVAL_STEPS then Inl (TooManySteps steps) else Inr (ProfileTrees base ts))
      })"

fun relevance_score :: "rank_profile_program \<Rightarrow> rank_feature_view \<Rightarrow> int" where
  "relevance_score ProfileStatic view = 0"
| "relevance_score (ProfileLinear intercept weights) view =
     fold (\<lambda>(f, w) score. i64_add score (i64_mul (feature_value view f) w)) weights intercept"
| "relevance_score (ProfileTrees base trees) view = fold (\<lambda>t score. i64_add score (tree_score t view)) trees base"

section \<open>Fingerprints and the registry\<close>

fun feature_code :: "rank_feature \<Rightarrow> u8" where
  "feature_code QueryPositiveTerms = 0"
| "feature_code QueryNegativeTerms = 1"
| "feature_code QueryAnyOfGroups = 2"
| "feature_code QueryTagCount = 3"
| "feature_code TitleTokens = 4"
| "feature_code TitleBytes = 5"
| "feature_code TitleDigits = 6"
| "feature_code PositiveCoverageMilli = 7"
| "feature_code UnmatchedTitleTokens = 8"

abbreviation le_bytes_i64 :: "int \<Rightarrow> u8 list" where
  "le_bytes_i64 x \<equiv> map ucast (le_bytes64 (word_of_int x))"

abbreviation le_bytes_usize :: "nat \<Rightarrow> u8 list" where
  "le_bytes_usize n \<equiv> map ucast (le_bytes64 (of_nat n))"

fun node_bytes :: "tree_node \<Rightarrow> u8 list" where
  "node_bytes (Split f threshold left right) =
     [0, feature_code f] @ le_bytes_i64 threshold @ le_bytes_usize left @ le_bytes_usize right"
| "node_bytes (Leaf v) = [1] @ le_bytes_i64 v"

fun profile_bytes :: "rank_profile_program \<Rightarrow> u8 list" where
  "profile_bytes ProfileStatic = [0]"
| "profile_bytes (ProfileLinear intercept weights) =
     [1] @ le_bytes_i64 intercept @ le_bytes_usize (length weights) @
       concat (map (\<lambda>(f, w). feature_code f # le_bytes_i64 w) weights)"
| "profile_bytes (ProfileTrees base trees) =
     [2] @ le_bytes_i64 base @ le_bytes_usize (length trees) @
       concat (map (\<lambda>t. le_bytes_usize (length (tree_nodes t)) @ concat (map node_bytes (tree_nodes t))) trees)"

definition profile_fingerprint :: "rank_profile_program \<Rightarrow> u64" where
  "profile_fingerprint program = fnv1a64 (profile_bytes program)"

text \<open>\<open>fnv1a64:\<close> and sixteen lower-case hexadecimal digits.\<close>

definition hex_digit :: "nat \<Rightarrow> rchar" where
  "hex_digit n = (if n < 10 then 48 + n else 87 + n)"

definition fingerprint_text :: "u64 \<Rightarrow> rstring" where
  "fingerprint_text fp = rstr ''fnv1a64:'' @ map (\<lambda>i. hex_digit (unat (drop_bit (4 * i) fp AND 15))) (rev [0..<16])"

definition STATIC_RANK_PROFILE :: rstring where
  "STATIC_RANK_PROFILE = rstr ''static_v1''"

definition PROFILE_SCHEMA_VERSION :: u32 where "PROFILE_SCHEMA_VERSION = 1"
definition MAX_PROFILES :: nat where "MAX_PROFILES = 64"

definition valid_profile_name :: "rstring \<Rightarrow> bool" where
  "valid_profile_name name \<longleftrightarrow> name \<noteq> [] \<and> str_len name \<le> 64 \<and>
     list_all (\<lambda>b. 97 \<le> b \<and> b \<le> 122 \<or> 48 \<le> b \<and> b \<le> 57 \<or> b = 95 \<or> b = 45) (as_bytes name)"

type_synonym rank_profiles = "(rstring \<times> rank_profile_program \<times> u64) list"

definition profiles_default :: rank_profiles where
  "profiles_default = [(STATIC_RANK_PROFILE, ProfileStatic, profile_fingerprint ProfileStatic)]"

fun expected_fingerprint :: "profile_config \<Rightarrow> rstring option" where
  "expected_fingerprint (StaticConfig e) = e"
| "expected_fingerprint (LinearConfig e intercept weights) = e"
| "expected_fingerprint (TreeConfig e base trees) = e"

definition register_profile :: "rstring \<Rightarrow> profile_config \<Rightarrow> rank_profiles \<Rightarrow> (profile_error + rank_profiles) option" where
  "register_profile name config registry =
     (if \<not> valid_profile_name name then Some (Inl (BadName name))
      else do {
        compiled \<leftarrow> compile_profile config;
        Some (case compiled of
          Inl e \<Rightarrow> Inl e
        | Inr program \<Rightarrow>
            if name = STATIC_RANK_PROFILE \<and> program \<noteq> ProfileStatic then Inl ReservedName
            else let fp = profile_fingerprint program
              in if (case expected_fingerprint config of None \<Rightarrow> False | Some e \<Rightarrow> e \<noteq> fingerprint_text fp)
                then Inl (FingerprintMismatch fp)
                else Inr (AList.update name (program, fp) registry))
      })"

fun register_profiles :: "(rstring \<times> profile_config) list \<Rightarrow> rank_profiles \<Rightarrow> (profile_error + rank_profiles) option" where
  "register_profiles [] registry = Some (Inr registry)"
| "register_profiles ((name, config) # rest) registry =
     do {
       r \<leftarrow> register_profile name config registry;
       case r of Inl e \<Rightarrow> Some (Inl e) | Inr registry \<Rightarrow> register_profiles rest registry
     }"

text \<open>\<open>from_config\<close>, over the decoded file: its version and its profiles in the order of their names.\<close>

definition profiles_from_config :: "u32 \<Rightarrow> (rstring \<times> profile_config) list \<Rightarrow> (profile_error + rank_profiles) option" where
  "profiles_from_config version configs =
     (if version \<noteq> PROFILE_SCHEMA_VERSION then Some (Inl (BadVersion version))
      else if length configs > MAX_PROFILES then Some (Inl (TooManyProfiles (length configs)))
      else register_profiles configs profiles_default)"

section \<open>Programs and scores\<close>

type_synonym tag_boosts = "(tag_id \<times> int) list"

record compiled_rank_program =
  rank_profile_name :: rstring
  rank_profile :: rank_profile_program
  rank_fingerprint :: u64
  use_priority :: bool
  rank_boosts :: tag_boosts

definition resolve_boosts :: "tag_dict \<Rightarrow> (rstring \<times> rstring \<times> int) list \<Rightarrow> tag_boosts" where
  "resolve_boosts d boosts = fold (\<lambda>(key, v, w) m. AList.update (tag_get_or_synthetic d key v) w m) boosts []"

definition boost_sum :: "tag_id list \<Rightarrow> tag_boosts \<Rightarrow> int" where
  "boost_sum tags boosts =
     (if boosts = [] then 0
      else fold (\<lambda>tag s. case map_of boosts tag of None \<Rightarrow> s | Some w \<Rightarrow> i64_add s w) tags 0)"

definition score_program ::
  "int \<Rightarrow> tag_id list \<Rightarrow> rank_query_features \<Rightarrow> rank_title_features \<Rightarrow> compiled_rank_program \<Rightarrow> int" where
  "score_program prio tags query title spec =
     i64_add (i64_add (if use_priority spec then prio else 0) (boost_sum tags (rank_boosts spec)))
       (relevance_score (rank_profile spec) (query, title))"

datatype rank_program_error = UnsupportedField rstring | UnknownProfile rstring

record rank_program_spec =
  spec_profile :: "rstring option"
  priority_field :: "rstring option"
  program_boosts :: "(rstring \<times> rstring \<times> int) list"

definition compile_with ::
  "tag_dict \<Rightarrow> rank_program_spec \<Rightarrow> rank_profiles \<Rightarrow> bool \<Rightarrow> rank_program_error + compiled_rank_program" where
  "compile_with d spec profiles priority_used =
     (let name = (case spec_profile spec of None \<Rightarrow> STATIC_RANK_PROFILE | Some n \<Rightarrow> n)
      in case map_of profiles name of
          None \<Rightarrow> Inl (UnknownProfile name)
        | Some (program, fp) \<Rightarrow> Inr \<lparr>rank_profile_name = name, rank_profile = program, rank_fingerprint = fp,
            use_priority = priority_used, rank_boosts = resolve_boosts d (program_boosts spec)\<rparr>)"

definition compile_rank_program_with_profiles ::
  "tag_dict \<Rightarrow> rank_program_spec \<Rightarrow> rank_profiles \<Rightarrow> rank_program_error + compiled_rank_program" where
  "compile_rank_program_with_profiles d spec profiles =
     (case priority_field spec of
        Some field \<Rightarrow> if field \<noteq> rstr ''priority'' then Inl (UnsupportedField field) else compile_with d spec profiles True
      | None \<Rightarrow> compile_with d spec profiles False)"

record compiled_rank_spec =
  priority_key :: "rstring option"
  spec_boosts :: tag_boosts

definition compiled_rank_spec_new :: "rstring option \<Rightarrow> tag_boosts \<Rightarrow> compiled_rank_spec" where
  "compiled_rank_spec_new key boosts =
     \<lparr>priority_key = (case key of None \<Rightarrow> None | Some k \<Rightarrow> if k = [] then None else Some k), spec_boosts = boosts\<rparr>"

definition is_noop :: "compiled_rank_spec \<Rightarrow> bool" where
  "is_noop spec \<longleftrightarrow> priority_key spec = None \<and> spec_boosts spec = []"

fun priority_tag :: "tag_dict \<Rightarrow> rstring \<Rightarrow> tag_id list \<Rightarrow> int option" where
  "priority_tag d pkey [] = None"
| "priority_tag d pkey (t # ts) =
     (case key_value d t of
        Some (k, v) \<Rightarrow> if k = pkey then Some (case parse_i64 v of None \<Rightarrow> 0 | Some n \<Rightarrow> n) else priority_tag d pkey ts
      | None \<Rightarrow> priority_tag d pkey ts)"

definition rank_score :: "tag_id list \<Rightarrow> tag_dict \<Rightarrow> compiled_rank_spec \<Rightarrow> int" where
  "rank_score tags d spec =
     (let s = boost_sum tags (spec_boosts spec)
      in case priority_key spec of
          None \<Rightarrow> s
        | Some pkey \<Rightarrow> (case priority_tag d pkey tags of None \<Rightarrow> s | Some n \<Rightarrow> i64_add s n))"

section \<open>Scores agree\<close>

lemma clamp_i64 [simp]: "is_i64 (i64_clamp x)"
  by (simp add: is_i64_def i64_clamp_def)

lemma clamp_id [simp]: "is_i64 x \<Longrightarrow> i64_clamp x = x"
  by (simp add: is_i64_def i64_clamp_def)

lemma boost_sum_i64: "is_i64 (boost_sum tags boosts)"
proof -
  have "is_i64 s \<Longrightarrow> is_i64 (fold (\<lambda>tag s. case map_of boosts tag of None \<Rightarrow> s | Some w \<Rightarrow> i64_add s w) tags s)" for s
    by (induction tags arbitrary: s) (simp_all add: i64_add_def split: option.split)
  moreover have "is_i64 0" by (simp add: is_i64_def)
  ultimately show ?thesis by (simp add: boost_sum_def)
qed

text \<open>The parsed priorities follow the keys; interning keeps this for keys without the separator.\<close>

definition priorities_ok :: "tag_dict \<Rightarrow> bool" where
  "priorities_ok d \<longleftrightarrow> priority_values d = map (\<lambda>c. case split_once TAG_SEP c of
     Some (k, v) \<Rightarrow> if k = rstr ''priority'' then Some (case parse_i64 v of None \<Rightarrow> 0 | Some n \<Rightarrow> n) else None
   | None \<Rightarrow> None) (tag_keys d)"

lemma intern_priorities:
  assumes "priorities_ok d" "TAG_SEP \<notin> set key"
  shows "priorities_ok (snd (tag_intern key v d))"
  using assms by (auto simp: priorities_ok_def tag_intern_def Let_def split_canonical split: option.split)

lemma fold_intern_priorities:
  assumes "\<forall>(key, v) \<in> set pairs. TAG_SEP \<notin> set key" "priorities_ok d"
  shows "priorities_ok (fold (\<lambda>(key, v) d. snd (tag_intern key v d)) pairs d)"
  using assms by (induction pairs arbitrary: d) (auto intro: intern_priorities)

lemma legacy_priority_tag:
  assumes "priorities_ok d"
  shows "legacy_priority_for_tags d tags = (case priority_tag d (rstr ''priority'') tags of None \<Rightarrow> 0 | Some n \<Rightarrow> n)"
proof (induction tags)
  case (Cons t ts)
  have "legacy_priority d t = (case key_value d t of
      Some (k, v) \<Rightarrow> if k = rstr ''priority'' then Some (case parse_i64 v of None \<Rightarrow> 0 | Some n \<Rightarrow> n) else None | None \<Rightarrow> None)"
    using assms by (auto simp: priorities_ok_def legacy_priority_def key_value_def at_index_def split: option.splits)
  then show ?case using Cons by (auto split: option.splits prod.splits)
qed simp

text \<open>
  C12: The two scorers agree. Over a tag dictionary built by interning tags whose
  keys are free of the separator, the native scorer with the static profile, reading
  the stored legacy priority, gives every query the score of the tag-only scorer.
\<close>

theorem static_score_agrees:
  assumes "\<forall>(key, v) \<in> set pairs. TAG_SEP \<notin> set key"
    and "d = fold (\<lambda>(key, v) d. snd (tag_intern key v d)) pairs tag_dict_new"
  shows "rank_score tags d (compiled_rank_spec_new (Some (rstr ''priority'')) boosts) =
    score_program (legacy_priority_for_tags d tags) tags query title
      \<lparr>rank_profile_name = name, rank_profile = ProfileStatic, rank_fingerprint = fp, use_priority = True, rank_boosts = boosts\<rparr>"
proof -
  have "priorities_ok tag_dict_new" by (simp add: priorities_ok_def tag_dict_new_def)
  then have "priorities_ok d" unfolding assms(2) by (rule fold_intern_priorities [OF assms(1)])
  moreover have "rstr ''priority'' \<noteq> []" by (simp add: rstr_def)
  ultimately show ?thesis
    using boost_sum_i64 [of tags boosts]
    by (simp add: rank_score_def compiled_rank_spec_new_def score_program_def legacy_priority_tag i64_add_def add.commute
        split: option.split)
qed

theorem static_score_agrees_witness:
  "let d = snd (tag_intern (rstr ''priority'') (rstr ''12'') tag_dict_new) in
   rank_score [0] d (compiled_rank_spec_new (Some (rstr ''priority'')) [(0, 5)]) =
     score_program (legacy_priority_for_tags d [0]) [0]
       \<lparr>positive_terms = 1, negative_terms_count = 0, any_of_groups = 0, tag_count = 1\<rparr>
       \<lparr>title_tokens = 2, title_bytes = 9, title_digits = 0\<rparr>
       \<lparr>rank_profile_name = STATIC_RANK_PROFILE, rank_profile = ProfileStatic, rank_fingerprint = 0, use_priority = True,
        rank_boosts = [(0, 5)]\<rparr>"
  unfolding Let_def
  by (rule static_score_agrees [where pairs = "[(rstr ''priority'', rstr ''12'')]"]) (simp_all add: TAG_SEP_def rstr_def)

section \<open>Accepted trees\<close>

lemma count_parents_ok:
  assumes "count_parents tree cs parents = Inr parents'" "\<forall>n \<in> set parents. n = 0 \<or> n = 1"
  shows "distinct cs \<and> length parents' = length parents \<and> (\<forall>c \<in> set cs. c < length parents \<and> parents ! c = 0) \<and>
    (\<forall>c < length parents. parents' ! c = (if c \<in> set cs then 1 else parents ! c))"
  using assms
proof (induction tree cs parents rule: count_parents.induct)
  case (2 tree child rest parents)
  then obtain n where n: "at_index parents child = Some n" "\<not> saturating_add n 1 > 1"
    "count_parents tree rest (parents[child := saturating_add n 1]) = Inr parents'"
    by (auto simp: Let_def split: option.splits if_splits)
  then have c: "child < length parents" "parents ! child = n" by (simp_all add: at_index_def split: if_splits)
  have "n = 0 \<or> n = 1" using 2(3) c by auto
  moreover have "n \<noteq> 1" using n(2) by (auto simp: saturating_add_def)
  ultimately have zero: "n = 0" "saturating_add n 1 = 1" by (simp_all add: saturating_add_def)
  have "\<forall>m \<in> set (parents[child := 1]). m = 0 \<or> m = 1"
    using 2(3) set_update_subset_insert [of parents child 1] by auto
  then have IH: "distinct rest" "length parents' = length parents"
    "\<forall>c \<in> set rest. c < length parents \<and> parents[child := 1] ! c = 0"
    "\<forall>c < length parents. parents' ! c = (if c \<in> set rest then 1 else parents[child := 1] ! c)"
    using 2(1) [OF n(1) refl] n(2,3) zero(2) by simp_all
  have "child \<notin> set rest" using IH(3) c(1) by auto
  then show ?case using IH c zero(1) by (auto simp: nth_list_update split: if_splits)
qed simp

lemma distinct_concat_index:
  assumes "distinct (concat xss)" "i < length xss" "j < length xss" "x \<in> set (xss ! i)" "x \<in> set (xss ! j)"
  shows "i = j"
  using assms
proof (induction xss arbitrary: i j)
  case (Cons xs xss)
  have apart: "y \<notin> set xs" if "k < length xss" "y \<in> set (xss ! k)" for k y
  proof -
    have "y \<in> set (concat xss)" using that nth_mem [OF that(1)] by auto
    then show ?thesis using Cons.prems(1) by auto
  qed
  show ?case
    using Cons.IH [of "i - 1" "j - 1"] Cons.prems apart [of "i - 1" x] apart [of "j - 1" x]
    by (cases i; cases j) auto
qed simp

text \<open>The reads of \<open>score\<close>, with no value when no leaf is found within them.\<close>

fun leaf_within :: "tree_node list \<Rightarrow> rank_feature_view \<Rightarrow> nat \<Rightarrow> nat \<Rightarrow> int option" where
  "leaf_within nodes view 0 index = None"
| "leaf_within nodes view (Suc n) index =
     (case at_index nodes index of
        Some (Leaf v) \<Rightarrow> Some v
      | Some (Split f threshold left right) \<Rightarrow>
          leaf_within nodes view n (if feature_value view f \<le> threshold then left else right)
      | None \<Rightarrow> None)"

lemma leaf_within_mono: "leaf_within nodes view n i = Some v \<Longrightarrow> n \<le> m \<Longrightarrow> leaf_within nodes view m i = Some v"
proof (induction n arbitrary: i m)
  case (Suc n)
  then obtain m' where "m = Suc m'" "n \<le> m'" by (cases m) auto
  then show ?case using Suc by (auto split: option.splits tree_node.splits)
qed simp

lemma leaf_within_steps: "leaf_within nodes view n i = Some v \<Longrightarrow> tree_steps nodes view n i = v"
  by (induction n arbitrary: i) (auto split: option.splits tree_node.splits)

text \<open>A numbering of the seen nodes by their depth, closed under children.\<close>

definition child_of :: "tree_node list \<Rightarrow> nat \<Rightarrow> nat \<Rightarrow> bool" where
  "child_of nodes p c \<longleftrightarrow> p < length nodes \<and> c \<in> set (node_children (nodes ! p))"

definition rooted :: "tree_node list \<Rightarrow> bool" where
  "rooted nodes \<longleftrightarrow> nodes \<noteq> [] \<and> (\<forall>p c. child_of nodes p c \<longrightarrow> c < length nodes \<and> c \<noteq> 0) \<and>
     (\<forall>p q c. child_of nodes p c \<longrightarrow> child_of nodes q c \<longrightarrow> p = q)"

definition depth_at :: "tree_node list \<Rightarrow> u8 list \<Rightarrow> (nat \<Rightarrow> nat) \<Rightarrow> nat \<Rightarrow> nat \<Rightarrow> bool" where
  "depth_at nodes state dep c d \<longleftrightarrow> c = 0 \<and> d = 1 \<or> (\<exists>p. child_of nodes p c \<and> state ! p \<noteq> 0 \<and> d = Suc (dep p))"

definition walk_inv :: "tree_node list \<Rightarrow> u8 list \<Rightarrow> (nat \<times> bool \<times> nat) list \<Rightarrow> nat \<Rightarrow> (nat \<Rightarrow> nat) \<Rightarrow> bool" where
  "walk_inv nodes state stack deepest dep \<longleftrightarrow>
     length state = length nodes \<and> deepest \<le> MAX_TREE_DEPTH \<and>
     (\<forall>c d. (c, False, d) \<in> set stack \<longrightarrow> depth_at nodes state dep c d) \<and>
     (\<forall>c < length nodes. state ! c \<noteq> 0 \<longrightarrow> depth_at nodes state dep c (dep c) \<and> dep c \<le> deepest) \<and>
     (\<forall>p c. child_of nodes p c \<and> state ! p \<noteq> 0 \<longrightarrow> state ! c \<noteq> 0 \<or> (c, False, Suc (dep p)) \<in> set stack) \<and>
     (state ! 0 \<noteq> 0 \<or> (0, False, 1) \<in> set stack) \<and>
     (\<forall>c d. (c, True, d) \<in> set stack \<longrightarrow> c < length nodes \<longrightarrow> state ! c \<noteq> 0)"

lemma depth_at_unique: "rooted nodes \<Longrightarrow> depth_at nodes state dep c d \<Longrightarrow> depth_at nodes state dep c e \<Longrightarrow> d = e"
  unfolding depth_at_def rooted_def by metis

lemma rooted_ok:
  assumes "nodes \<noteq> []" "count_parents tree (concat (map node_children nodes)) (replicate (length nodes) 0) = Inr parents"
    "parents ! 0 = 0"
  shows "rooted nodes"
proof -
  let ?cs = "concat (map node_children nodes)"
  have ok: "distinct ?cs" "\<forall>c \<in> set ?cs. c < length nodes" "\<forall>c < length nodes. parents ! c = (if c \<in> set ?cs then 1 else 0)"
    using count_parents_ok [OF assms(2)] by (auto split: if_splits)
  have child: "child_of nodes p c \<Longrightarrow> c \<in> set ?cs" for p c by (auto simp: child_of_def)
  have "0 \<notin> set ?cs" using ok(3) assms(1,3) by (metis length_greater_0_conv zero_neq_one)
  moreover have "p = q" if "child_of nodes p c" "child_of nodes q c" for p q c
    using distinct_concat_index [OF ok(1), of p q c] that by (simp add: child_of_def)
  ultimately show ?thesis using ok(2) child assms(1) unfolding rooted_def by metis
qed

lemma walk_inv_exit:
  assumes "walk_inv nodes state ((i, True, d) # stack) deepest dep" "i < length nodes" "rooted nodes"
  shows "walk_inv nodes (state[i := 2]) stack deepest dep"
proof -
  have len: "length state = length nodes" "state ! i \<noteq> 0" using assms(1,2) by (auto simp: walk_inv_def)
  have nz: "(state[i := 2]) ! c \<noteq> 0 \<longleftrightarrow> state ! c \<noteq> 0" if "c < length nodes" for c
    using that len by (cases "c = i") simp_all
  have depth: "depth_at nodes (state[i := 2]) dep c e \<longleftrightarrow> depth_at nodes state dep c e" for c e
    using nz by (auto simp: depth_at_def child_of_def)
  have "0 < length nodes" "\<And>p c. child_of nodes p c \<Longrightarrow> p < length nodes \<and> c < length nodes"
    using assms(3) by (auto simp: rooted_def child_of_def)
  then show ?thesis using assms(1) nz len(1) unfolding walk_inv_def depth by auto
qed

lemma walk_inv_skip:
  assumes "walk_inv nodes state ((i, False, d) # stack) deepest dep" "state ! i \<noteq> 0"
  shows "walk_inv nodes state stack deepest dep"
  using assms unfolding walk_inv_def by auto

lemma walk_inv_enter:
  assumes "walk_inv nodes state ((i, False, d) # stack) deepest dep" "i < length nodes" "state ! i = 0"
    and "d \<le> MAX_TREE_DEPTH" "rooted nodes"
  shows "walk_inv nodes (state[i := 1])
    (map (\<lambda>child. (child, False, Suc d)) (node_children (nodes ! i)) @ (i, True, d) # stack) (max deepest d) (dep(i := d))"
proof -
  let ?st = "state[i := 1]" and ?dep = "dep(i := d)"
  have old: "length state = length nodes" "deepest \<le> MAX_TREE_DEPTH"
    "\<And>c e. (c, False, e) \<in> set ((i, False, d) # stack) \<Longrightarrow> depth_at nodes state dep c e"
    "\<And>c. c < length nodes \<Longrightarrow> state ! c \<noteq> 0 \<Longrightarrow> depth_at nodes state dep c (dep c) \<and> dep c \<le> deepest"
    "\<And>p c. child_of nodes p c \<Longrightarrow> state ! p \<noteq> 0 \<Longrightarrow> state ! c \<noteq> 0 \<or> (c, False, Suc (dep p)) \<in> set ((i, False, d) # stack)"
    "state ! 0 \<noteq> 0 \<or> (0, False, 1) \<in> set ((i, False, d) # stack)"
    "\<And>c e. (c, True, e) \<in> set ((i, False, d) # stack) \<Longrightarrow> c < length nodes \<Longrightarrow> state ! c \<noteq> 0"
    using assms(1) unfolding walk_inv_def by blast+
  have inv: "length state = length nodes" "deepest \<le> MAX_TREE_DEPTH" "depth_at nodes state dep i d"
    "\<And>c e. (c, False, e) \<in> set stack \<Longrightarrow> depth_at nodes state dep c e"
    "\<And>c. c < length nodes \<Longrightarrow> state ! c \<noteq> 0 \<Longrightarrow> depth_at nodes state dep c (dep c) \<and> dep c \<le> deepest"
    "\<And>p c. child_of nodes p c \<Longrightarrow> state ! p \<noteq> 0 \<Longrightarrow> state ! c \<noteq> 0 \<or> c = i \<or> (c, False, Suc (dep p)) \<in> set stack"
    "state ! 0 \<noteq> 0 \<or> i = 0 \<or> (0, False, 1) \<in> set stack"
    "\<And>c e. (c, True, e) \<in> set stack \<Longrightarrow> c < length nodes \<Longrightarrow> state ! c \<noteq> 0"
    using old(1,2,4,6,7) old(3) [of i d] old(3) old(5) by (simp_all, blast+)
  have nz: "?st ! c \<noteq> 0 \<longleftrightarrow> c = i \<or> state ! c \<noteq> 0" if "c < length nodes" for c
    using that inv(1) by (cases "c = i") simp_all
  have range: "0 < length nodes" "\<And>p c. child_of nodes p c \<Longrightarrow> p < length nodes \<and> c < length nodes"
    using assms(5) by (auto simp: rooted_def child_of_def)
  have depth: "depth_at nodes ?st ?dep c e" if was: "depth_at nodes state dep c e" for c e
  proof (cases "c = 0 \<and> e = 1")
    case False
    then obtain q where "child_of nodes q c" "state ! q \<noteq> 0" "e = Suc (dep q)" using was by (auto simp: depth_at_def)
    moreover from this have "q \<noteq> i" "?st ! q \<noteq> 0" using assms(3) nz range(2) by auto
    ultimately show ?thesis unfolding depth_at_def by auto
  qed (simp add: depth_at_def)
  have new: "depth_at nodes ?st ?dep c (Suc d)" if "c \<in> set (node_children (nodes ! i))" for c
    using that assms(2) nz [of i] unfolding depth_at_def child_of_def by auto
  show ?thesis
    unfolding walk_inv_def
  proof (intro conjI allI impI)
    fix p c assume "child_of nodes p c \<and> ?st ! p \<noteq> 0"
    then show "?st ! c \<noteq> 0 \<or> (c, False, Suc (?dep p)) \<in> set (map (\<lambda>child. (child, False, Suc d)) (node_children (nodes ! i)) @ (i, True, d) # stack)"
      using inv(6) [of p c] nz [of c] nz [of p] range(2) [of p c] by (cases "p = i") (auto simp: child_of_def)
  next
    fix c assume c: "c < length nodes" "?st ! c \<noteq> 0"
    show "depth_at nodes ?st ?dep c (?dep c)" using depth inv(3,5) c nz by (cases "c = i") auto
    show "?dep c \<le> max deepest d" using inv(5) c nz by (cases "c = i") (auto simp: le_max_iff_disj)
  qed (use inv assms(2,4) nz range(1) depth new in \<open>auto\<close>)
qed

lemma tree_walk_closed:
  assumes "rooted nodes" "walk_inv nodes state stack deepest dep" "\<forall>s \<in> set state. s = 0 \<or> s = 1 \<or> s = 2"
  shows "\<exists>r. tree_walk tree nodes state stack deepest = Some r \<and>
    (\<forall>state' deepest'. r = Inr (state', deepest') \<longrightarrow> (\<exists>dep'. walk_inv nodes state' [] deepest' dep'))"
  using assms
proof (induction tree nodes state stack deepest arbitrary: dep rule: tree_walk.induct)
  case (2 tree nodes state index exiting depth stack deepest)
  have len: "length state = length nodes" using 2(5) by (simp add: walk_inv_def)
  have vals: "\<forall>s \<in> set (state[index := v]). s = 0 \<or> s = 1 \<or> s = 2" if "v = 1 \<or> v = 2" for v :: u8
    using that 2(6) set_update_subset_insert [of state index v] by auto
  consider "depth > MAX_TREE_DEPTH \<or> index \<ge> length nodes"
    | "depth \<le> MAX_TREE_DEPTH" "index < length nodes" exiting
    | "depth \<le> MAX_TREE_DEPTH" "index < length nodes" "\<not> exiting" "state ! index = 1"
    | "depth \<le> MAX_TREE_DEPTH" "index < length nodes" "\<not> exiting" "state ! index = 2"
    | "depth \<le> MAX_TREE_DEPTH" "index < length nodes" "\<not> exiting" "state ! index = 0"
    using 2(6) len nth_mem [of index state] by fastforce
  then show ?case
  proof cases
    case 2
    then show ?thesis using "2.IH"(1) [OF _ _ _ _ "2.prems"(1) walk_inv_exit vals] "2.prems" len by auto
  next
    case 4
    then show ?thesis using "2.IH"(2) [OF _ _ _ _ _ _ "2.prems"(1) walk_inv_skip] "2.prems" len by auto
  next
    case 5
    then show ?thesis using "2.IH"(3) [OF _ _ _ _ _ _ "2.prems"(1) walk_inv_enter vals] "2.prems" len by auto
  qed (use len in auto)
qed auto

text \<open>A closed numbering bounds the reads, by its greatest depth and by the number of nodes.\<close>

lemma closed_step:
  assumes "walk_inv nodes state [] deepest dep" "rooted nodes" "child_of nodes p c" "state ! p \<noteq> 0"
  shows "c < length nodes \<and> state ! c \<noteq> 0 \<and> dep c = Suc (dep p)"
proof -
  have c: "c < length nodes" using assms(2,3) by (auto simp: rooted_def)
  have seen: "state ! c \<noteq> 0" using assms(1,3,4) by (auto simp: walk_inv_def)
  then have "depth_at nodes state dep c (dep c)" using assms(1) c by (simp add: walk_inv_def)
  moreover have "depth_at nodes state dep c (Suc (dep p))" using assms(3,4) by (auto simp: depth_at_def)
  ultimately show ?thesis using c seen depth_at_unique [OF assms(2)] by blast
qed

lemma closed_levels:
  assumes "walk_inv nodes state [] deepest dep" "i < length nodes" "state ! i \<noteq> 0"
  shows "{1..dep i} \<subseteq> dep ` {..<length nodes}"
  using assms(2,3)
proof (induction "dep i" arbitrary: i rule: less_induct)
  case less
  have "depth_at nodes state dep i (dep i)" using assms(1) less.prems by (simp add: walk_inv_def)
  then consider "dep i = 1" | p where "p < length nodes" "state ! p \<noteq> 0" "dep i = Suc (dep p)"
    by (auto simp: depth_at_def child_of_def)
  then show ?case
  proof cases
    case 1
    then show ?thesis using less.prems(1) by (metis atLeastAtMost_singleton empty_subsetI imageI insert_subset lessThan_iff)
  next
    case 2
    then have "{1..dep p} \<subseteq> dep ` {..<length nodes}" using less.hyps [of p] by simp
    moreover have "Suc (dep p) \<in> dep ` {..<length nodes}" using less.prems(1) 2(3) [symmetric] by simp
    ultimately show ?thesis unfolding 2(3) by (simp add: atLeastAtMostSuc_conv)
  qed
qed

lemma closed_leaf:
  assumes "walk_inv nodes state [] deepest dep" "rooted nodes" "i < length nodes" "state ! i \<noteq> 0"
    and "\<And>j. j < length nodes \<Longrightarrow> state ! j \<noteq> 0 \<Longrightarrow> dep j \<le> bound"
  shows "\<exists>v. leaf_within nodes view (Suc (bound - dep i)) i = Some v"
  using assms(3,4)
proof (induction "bound - dep i" arbitrary: i rule: less_induct)
  case less
  show ?case
  proof (cases "nodes ! i")
    case (Split f threshold left right)
    let ?c = "if feature_value view f \<le> threshold then left else right"
    have "child_of nodes i ?c" using less.prems(1) Split by (simp add: child_of_def)
    then have c: "?c < length nodes" "state ! ?c \<noteq> 0" "dep ?c = Suc (dep i)"
      using closed_step [OF assms(1,2)] less.prems(2) by blast+
    have "dep ?c \<le> bound" using assms(5) c(1,2) .
    then have gap: "bound - dep ?c < bound - dep i" "bound - dep i = Suc (bound - dep ?c)" using c(3) by auto
    then show ?thesis using less.hyps [OF gap(1) c(1,2)] less.prems(1) Split by (simp add: at_index_def)
  qed (use less.prems in \<open>simp add: at_index_def\<close>)
qed

lemma closed_tree:
  assumes "walk_inv nodes state [] deepest dep" "rooted nodes"
  shows "deepest \<le> MAX_TREE_DEPTH \<and> leaf_within nodes view deepest 0 = Some (tree_steps nodes view (length nodes) 0)"
proof -
  have root: "0 < length nodes" "state ! 0 \<noteq> 0" using assms by (auto simp: walk_inv_def rooted_def)
  then have "depth_at nodes state dep 0 (dep 0)" using assms(1) by (simp add: walk_inv_def)
  then have dep0: "dep 0 = 1" using assms(2) by (auto simp: depth_at_def rooted_def)
  have bound: "dep j \<le> min deepest (length nodes)" if "j < length nodes" "state ! j \<noteq> 0" for j
    using card_mono [OF _ closed_levels [OF assms(1) that]] card_image_le [of "{..<length nodes}" dep] assms(1) that
    by (simp add: walk_inv_def)
  obtain v where "leaf_within nodes view (Suc (min deepest (length nodes) - dep 0)) 0 = Some v"
    using closed_leaf [OF assms root bound] by blast
  moreover have "Suc (min deepest (length nodes) - dep 0) = min deepest (length nodes)" using bound [OF root] dep0 by linarith
  ultimately have v: "leaf_within nodes view (min deepest (length nodes)) 0 = Some v" by (simp only:)
  have "leaf_within nodes view deepest 0 = Some v" "leaf_within nodes view (length nodes) 0 = Some v"
    using leaf_within_mono [OF v] by simp_all
  then show ?thesis using leaf_within_steps assms(1) by (simp add: walk_inv_def)
qed

lemma compile_tree_returns:
  "\<exists>r. compile_tree tree nodes = Some r \<and>
     (\<forall>t. r = Inr t \<longrightarrow> max_depth t \<le> MAX_TREE_DEPTH \<and>
        (\<forall>view. leaf_within (tree_nodes t) view (max_depth t) 0 = Some (tree_score t view)))"
proof (cases "nodes = []")
  case False
  show ?thesis
  proof (cases "count_parents tree (concat (map node_children nodes)) (replicate (length nodes) 0)")
    case (Inr parents)
    have len: "length parents = length nodes" using count_parents_ok [OF Inr] by simp
    show ?thesis
    proof (cases "parents ! 0 = 0")
      case True
      have rooted: "rooted nodes" by (rule rooted_ok [OF False Inr True])
      have "walk_inv nodes (replicate (length nodes) 0) [(0, False, 1)] 0 dep" for dep
        using False by (auto simp: walk_inv_def depth_at_def child_of_def)
      from tree_walk_closed [OF rooted this, of tree] obtain r where
        r: "tree_walk tree nodes (replicate (length nodes) 0) [(0, False, 1)] 0 = Some r"
        and closed: "\<And>state deepest. r = Inr (state, deepest) \<Longrightarrow> \<exists>dep. walk_inv nodes state [] deepest dep" by auto
      have "deepest \<le> MAX_TREE_DEPTH \<and> leaf_within nodes view deepest 0 = Some (tree_steps nodes view (length nodes) 0)"
        if walked: "r = Inr (state, deepest)" for state deepest view
        using closed [OF walked] closed_tree [OF _ rooted] by blast
      then show ?thesis
        using False Inr True r len by (auto simp: compile_tree_def at_index_def tree_score_def split: sum.splits)
    qed (use False Inr len in \<open>auto simp: compile_tree_def at_index_def\<close>)
  qed (use False in \<open>simp add: compile_tree_def\<close>)
qed (simp add: compile_tree_def)

lemma compile_trees_returns:
  "\<exists>r. compile_trees i trees = Some r \<and> (\<forall>ts. r = Inr ts \<longrightarrow> length ts = length trees \<and>
     (\<forall>t \<in> set ts. max_depth t \<le> MAX_TREE_DEPTH \<and>
        (\<forall>view. leaf_within (tree_nodes t) view (max_depth t) 0 = Some (tree_score t view))))"
proof (induction trees arbitrary: i)
  case (Cons nodes rest)
  obtain r where "compile_tree i nodes = Some r" "\<forall>t. r = Inr t \<longrightarrow> max_depth t \<le> MAX_TREE_DEPTH \<and>
      (\<forall>view. leaf_within (tree_nodes t) view (max_depth t) 0 = Some (tree_score t view))"
    using compile_tree_returns [of i nodes] by blast
  then show ?case using Cons [of "Suc i"] by (cases r) (auto split: sum.splits)
qed simp

lemma accepted_profile_returns: "compile_profile config \<noteq> None"
proof (cases config)
  case (TreeConfig expected base trees)
  then show ?thesis using compile_trees_returns [of 0 trees] by auto
qed simp_all

text \<open>
  C11: Profile validation is safe and bounds scoring. Compiling any configuration
  returns without a panic. In every accepted tree ensemble each tree finds a leaf
  within its recorded depth of at most 16 reads, for every title and query, so the
  scorer's default of 0 is never used, and a whole evaluation reads at most 1024 nodes.
\<close>

theorem accepted_profile_evaluates:
  "compile_profile config \<noteq> None \<and>
   (compile_profile config = Some (Inr (ProfileTrees base trees)) \<longrightarrow>
      sum_list (map max_depth trees) \<le> 1024 \<and>
      (\<forall>t \<in> set trees. max_depth t \<le> 16 \<and>
         (\<forall>view. leaf_within (tree_nodes t) view (max_depth t) 0 = Some (tree_score t view))))"
proof (cases config)
  case (TreeConfig expected base' configs)
  obtain r where "compile_trees 0 configs = Some r" "\<forall>ts. r = Inr ts \<longrightarrow> length ts = length configs \<and>
      (\<forall>t \<in> set ts. max_depth t \<le> MAX_TREE_DEPTH \<and>
        (\<forall>view. leaf_within (tree_nodes t) view (max_depth t) 0 = Some (tree_score t view)))"
    using compile_trees_returns [of 0 configs] by blast
  then show ?thesis
    using TreeConfig by (cases r) (auto simp: Let_def MAX_TREE_DEPTH_def MAX_TREE_EVAL_STEPS_def split: if_splits)
qed (auto split: sum.splits if_splits)

theorem accepted_profile_evaluates_witness:
  "compile_profile (TreeConfig None 1 [[Split TitleTokens 3 1 2, Leaf 5, Leaf 9]]) =
     Some (Inr (ProfileTrees 1 [\<lparr>tree_nodes = [Split TitleTokens 3 1 2, Leaf 5, Leaf 9], max_depth = 2\<rparr>])) \<and>
   (\<forall>view. leaf_within [Split TitleTokens 3 1 2, Leaf 5, Leaf 9] view 2 0 =
     Some (tree_score \<lparr>tree_nodes = [Split TitleTokens 3 1 2, Leaf 5, Leaf 9], max_depth = 2\<rparr> view))"
proof -
  have compiled: "compile_profile (TreeConfig None 1 [[Split TitleTokens 3 1 2, Leaf 5, Leaf 9]]) =
     Some (Inr (ProfileTrees 1 [\<lparr>tree_nodes = [Split TitleTokens 3 1 2, Leaf 5, Leaf 9], max_depth = 2\<rparr>]))"
    by code_simp
  let ?t = "\<lparr>tree_nodes = [Split TitleTokens 3 1 2, Leaf 5, Leaf 9], max_depth = 2\<rparr>"
  have "\<forall>t \<in> set [?t]. \<forall>view. leaf_within (tree_nodes t) view (max_depth t) 0 = Some (tree_score t view)"
    using accepted_profile_evaluates [of "TreeConfig None 1 [[Split TitleTokens 3 1 2, Leaf 5, Leaf 9]]" 1 "[?t]"] compiled by blast
  then show ?thesis using compiled by (simp only: list.set ball_simps compiled_tree.simps simp_thms)
qed

section \<open>The reserved profile\<close>

lemma register_profile_returns:
  "\<exists>r. register_profile name config registry = Some r \<and> (\<forall>registry'. r = Inr registry' \<longrightarrow>
     (\<exists>program. (name = STATIC_RANK_PROFILE \<longrightarrow> program = ProfileStatic) \<and>
       registry' = AList.update name (program, profile_fingerprint program) registry))"
proof (cases "valid_profile_name name")
  case True
  obtain c where "compile_profile config = Some c" using accepted_profile_returns [of config] by blast
  then show ?thesis using True by (cases c) (simp_all add: register_profile_def Let_def, blast)
qed (simp add: register_profile_def)

lemma register_keeps_static:
  assumes "map_of registry STATIC_RANK_PROFILE = Some (ProfileStatic, profile_fingerprint ProfileStatic)"
  shows "\<exists>r. register_profiles configs registry = Some r \<and> (\<forall>registry'. r = Inr registry' \<longrightarrow>
    map_of registry' STATIC_RANK_PROFILE = Some (ProfileStatic, profile_fingerprint ProfileStatic) \<and>
    dom (map_of registry') = dom (map_of registry) \<union> fst ` set configs)"
  using assms
proof (induction configs arbitrary: registry)
  case (Cons entry rest)
  obtain name config where entry: "entry = (name, config)" by (cases entry)
  obtain r where r: "register_profile name config registry = Some r" "\<forall>registry'. r = Inr registry' \<longrightarrow>
      (\<exists>program. (name = STATIC_RANK_PROFILE \<longrightarrow> program = ProfileStatic) \<and>
        registry' = AList.update name (program, profile_fingerprint program) registry)"
    using register_profile_returns [of name config registry] by blast
  show ?case
  proof (cases r)
    case (Inr registry1)
    then obtain program where p: "name = STATIC_RANK_PROFILE \<longrightarrow> program = ProfileStatic"
      "registry1 = AList.update name (program, profile_fingerprint program) registry" using r(2) by blast
    have one: "map_of registry1 = (map_of registry)(name \<mapsto> (program, profile_fingerprint program))"
      unfolding p(2) by (rule update_conv')
    then have "map_of registry1 STATIC_RANK_PROFILE = Some (ProfileStatic, profile_fingerprint ProfileStatic)"
      using p(1) Cons.prems by auto
    then obtain r' where r': "register_profiles rest registry1 = Some r'" "\<forall>registry'. r' = Inr registry' \<longrightarrow>
        map_of registry' STATIC_RANK_PROFILE = Some (ProfileStatic, profile_fingerprint ProfileStatic) \<and>
        dom (map_of registry') = dom (map_of registry1) \<union> fst ` set rest"
      using Cons.IH by blast
    have "dom (map_of registry1) = insert name (dom (map_of registry))" unfolding one by simp
    then have "dom (map_of registry1) \<union> fst ` set rest = dom (map_of registry) \<union> fst ` set (entry # rest)" by (simp add: entry)
    moreover have "register_profiles (entry # rest) registry = Some r'" using r(1) Inr r'(1) by (simp add: entry)
    ultimately show ?thesis using r'(2) by simp
  qed (use r entry in simp)
qed auto

text \<open>
  C13: The built-in profile cannot be redefined. Loading any configuration returns;
  when it is accepted, the registry has the configured names and \<open>static_v1\<close>, which is
  the static scorer, and a ranking program that names no profile is compiled to it.
\<close>

theorem static_profile_reserved:
  "\<exists>r. profiles_from_config version configs = Some r \<and>
     (\<forall>registry. r = Inr registry \<longrightarrow>
        (\<forall>name. map_of registry name \<noteq> None \<longleftrightarrow> name = STATIC_RANK_PROFILE \<or> name \<in> fst ` set configs) \<and>
        (\<forall>d boosts. \<exists>program. compile_rank_program_with_profiles d
            \<lparr>spec_profile = None, priority_field = Some (rstr ''priority''), program_boosts = boosts\<rparr> registry = Inr program \<and>
          rank_profile program = ProfileStatic \<and> use_priority program))"
proof -
  have "map_of profiles_default STATIC_RANK_PROFILE = Some (ProfileStatic, profile_fingerprint ProfileStatic)"
    by (simp add: profiles_default_def)
  then obtain r where r: "register_profiles configs profiles_default = Some r" "\<forall>registry. r = Inr registry \<longrightarrow>
      map_of registry STATIC_RANK_PROFILE = Some (ProfileStatic, profile_fingerprint ProfileStatic) \<and>
      dom (map_of registry) = dom (map_of profiles_default) \<union> fst ` set configs"
    using register_keeps_static by blast
  have names: "dom (map_of profiles_default) = {STATIC_RANK_PROFILE}" by (simp add: profiles_default_def)
  have "map_of registry name \<noteq> None \<longleftrightarrow> name = STATIC_RANK_PROFILE \<or> name \<in> fst ` set configs" if "r = Inr registry" for registry name
    using r(2) that unfolding names by (metis (no_types, lifting) Un_iff domIff singleton_iff)
  then show ?thesis
    using r by (simp add: profiles_from_config_def compile_rank_program_with_profiles_def compile_with_def)
qed

theorem static_profile_reserved_witness:
  "\<exists>registry d program. profiles_from_config 1 [(rstr ''lin'', LinearConfig None 3 [(TitleTokens, 2)])] = Some (Inr registry) \<and>
     compile_rank_program_with_profiles d
       \<lparr>spec_profile = None, priority_field = Some (rstr ''priority''), program_boosts = []\<rparr> registry = Inr program \<and>
     rank_profile program = ProfileStatic"
proof -
  have "\<exists>registry. profiles_from_config 1 [(rstr ''lin'', LinearConfig None 3 [(TitleTokens, 2)])] = Some (Inr registry)"
    by (simp add: profiles_from_config_def PROFILE_SCHEMA_VERSION_def MAX_PROFILES_def register_profile_def valid_profile_name_def
        rstr_def str_len_def len_utf8_def as_bytes_def utf8_char_def MAX_LINEAR_TERMS_def STATIC_RANK_PROFILE_def Let_def)
  then show ?thesis using static_profile_reserved [of 1 "[(rstr ''lin'', LinearConfig None 3 [(TitleTokens, 2)])]"] by (metis option.inject)
qed

end
