(* ===== verification/Spec2Isabelle.thy ===== *)
theory Spec2Isabelle
  imports Segment_Properties Rank_Profiles
begin

text \<open>
  Verification of the reverse-rusty percolator engine.

  A percolator stores queries and answers titles: given a title it returns the ids
  of the stored queries the title satisfies. The engine crate (\<open>engine/src\<close>) parses a
  query, lowers it to feature ids, picks a small set of anchor features whose hashes
  become the keys of an inverted index, and stores the query's columns in a segment.
  A title probes the index with the keys of its own features, and every candidate is
  verified exactly. Segments are filled, sealed with a filter, and merged. The promise
  is that this never misses a query and never returns a wrong one; the development
  proves it for the parts below, from the parsed query to the collected ids.

  Parts, in the order the code has them, with the theory that models each.

  \<^item> \<open>Hashing\<close>: \<open>util.rs\<close>, the stable hashes behind names, features and signature keys.
  \<^item> \<open>Dsl\<close>: \<open>dsl.rs\<close> and \<open>error.rs\<close>, the query parser over characters with its limits and
    error positions. Strings are lists of code points with UTF-8 lengths.
  \<^item> \<open>Feature_Dict\<close>: \<open>dict.rs\<close>, interned features, frequencies, and the mask of the 64 most
    frequent ones, assigned once. The unstable sort is a parameter with its contract.
  \<^item> \<open>Phrase_Graph\<close>: \<open>normalize.rs\<close>, \<open>normalize/core/phrase.rs\<close>, the graphs of quoted phrases
    and the plain and budgeted searches for a phrase in a title graph.
  \<^item> \<open>Query_Extraction\<close>, \<open>Query_Extraction_Correct\<close>: \<open>compile.rs\<close>, \<open>compile/extract.rs\<close>, the
    lowering of a syntax tree to required, forbidden, any-of and phrase predicates, and
    learned equivalences. The text normalizer is the parameter \<open>norm\<close>.
  \<^item> \<open>Anchor_Plan\<close>: \<open>compile/plan.rs\<close>, the choice of anchors and of the cost class, which
    decides the lane: main (A, B) and hot (H) are always probed, broad (C, D) on request.
  \<^item> \<open>Candidate_Index\<close>, \<open>Segment_Filter\<close>: \<open>index.rs\<close> and \<open>filter.rs\<close>, three-tier postings and
    the blocked Bloom filter. The roaring bitmap crate is the parameter \<open>rb\<close>.
  \<^item> \<open>Predicate_Program\<close>, \<open>Predicate_Correct\<close>, \<open>Predicate_Validator\<close>, \<open>Predicate_Properties\<close>:
    \<open>exact/predicate.rs\<close>, the integer program of a stored row: encoder, scalar and
    columnar interpreters, validator, ranking walk.
  \<^item> \<open>Ownership\<close>, \<open>Tag_Filter\<close>: \<open>ownership.rs\<close>, \<open>tagdict.rs\<close>, \<open>segment/tag_summary.rs\<close>, which shard
    emits a row, and the tag filter of a request.
  \<^item> \<open>Exact_Store\<close>, \<open>Exact_Rows\<close>, \<open>Exact_Verify\<close>, \<open>Exact_Batch\<close>, \<open>Exact_Properties\<close>: \<open>exact/store\<close>,
    \<open>exact/slices.rs\<close>, the column store of rows. Its abstraction is a list of rows
    (\<open>store_rows\<close>), and the writers refine appending to it.
  \<^item> \<open>Match_Collect\<close>: \<open>collect.rs\<close>, \<open>segment/match_types.rs\<close>, \<open>result.rs\<close>, the collectors of a match, its
    statistics, and the deadline sampler. The clock is the sequence of its answers.
  \<^item> \<open>Top_K\<close>: \<open>collect/top_k.rs\<close>, the ranked collectors: a heap of the best hits after a page
    boundary. A page is the first \<open>k\<close> of the sorted distinct hits, and pages tile. The
    scorer is a parameter.
  \<^item> \<open>Rank_Profiles\<close>: \<open>rank.rs\<close>, \<open>rank/profiles.rs\<close>, \<open>rank/profiles/tree.rs\<close>, the scorers, the rank
    features, and the profiles from decoded configuration to score. Validated trees
    always reach a leaf within their recorded depth. The Unicode character classes
    are parameters.
  \<^item> \<open>Segment_Store\<close>: \<open>segment.rs\<close>, \<open>segment/seg/write.rs\<close>, \<open>segment/seg/parts.rs\<close>, a segment as a
    record with the source's fields and every operation on it.
  \<^item> \<open>Segment_Match\<close>: \<open>segment/seg/matching.rs\<close>, the scalar matching pass with stop and
    cancellation as outcomes.
  \<^item> \<open>Segment_Merge\<close>: \<open>segment/merge.rs\<close>, the three compaction merges.

  Conventions. \<open>None\<close> is a panic (an index out of range, a failed assertion), \<open>Inl\<close> an
  error value. Widths are kept where they matter: \<open>u32\<close> ids, \<open>u64\<close> keys and masks and \<open>u16\<close>
  column counts are words that wrap, \<open>usize\<close> is \<open>nat\<close>. Hash maps are association lists,
  since no result depends on their order. \<open>Prelude\<close> has the shared lemmas.

  What the lemmas show about segments.

  \<^item> \<open>Segment_Rows\<close> states the meaning of a stored row without its query: \<open>row_matches\<close>, and
    \<open>row_cover\<close>, that its keys are probed by every title it matches.
  \<^item> \<open>Segment_Invariant\<close> is the invariant \<open>seg_inv\<close> (aligned columns, consistent groups, covering
    keys in one lane, exact counters and reverse index, seals built from the current
    keys) and its preservation by adding, deleting and sealing.
  \<^item> \<open>Segment_Match_Correct\<close> shows for every collector that meets the contract
    \<open>exhaustive_sink\<close> that a pass emits exactly the selected live rows;
    \<open>Segment_Match_Total\<close> that a pass returns for any collector and any deadline.
  \<^item> \<open>Segment_Merge_Correct\<close> and \<open>Segment_Reanchor_Correct\<close> show that the merges keep the rows and
    their visibility, the latter that a plan made from stored columns covers its row.
  \<^item> \<open>Segment_Lifecycle\<close> has the step relation of a shared dictionary and its segments; the
    invariant holds in every reachable state.
  \<^item> \<open>Segment_Properties\<close> and this theory have the resulting statements about readers.

  Bounds and fuel. The budgeted phrase search runs on the budgets of the source, and
  decides whenever the size bound \<open>search_bound\<close> is within them; the plain search and all
  loops over columns are total functions. Capacity is explicit: \<open>store_room\<close> and \<open>rows_room\<close> say
  that blob offsets and local ids fit 32 bits, which the code leaves to the size of a
  segment. \<open>column_overflow\<close> is the compiler's guard on column counts.
  \<open>row_probed\<close> says that a title with an undecided phrase search still probes a
  label of the phrase; it holds of every row without quoted phrases.

  Interfaces with code outside the model: the bitmap (\<open>roaring_ok\<close>), the sort
  (\<open>sorts_descending\<close>), the normalizer (\<open>arcs_valid\<close>, \<open>interns_features\<close>, \<open>interns_arcs\<close>), each
  instantiated in the witnesses by a concrete function.

  Not modelled: the engine driver around segments (locks, snapshots, threads, timers),
  whose operations are covered in any order by \<open>Segment_Lifecycle\<close>; the columnar batch
  scheduler, whose verifier is modelled; explanations, the decoding of
  profile files and the chunk collector; files, memory maps, the write-ahead log and recovery; the cluster
  (consensus, transport, replication), the servers, tools and generated code; the text
  of the normalizer and vocabulary learning. They are I/O, concurrency or data around
  the modelled parts. Byte accounting, logging and debug assertions are left out
  everywhere.
\<close>

section \<open>From queries to answers\<close>












section \<open>A sample corpus\<close>





section \<open>The whole path\<close>



end
